(* ===== verification/Prelude.thy ===== *)
theory Prelude
  imports Main "HOL-Library.Word"
begin

unbundle bit_operations_syntax

text \<open>
  Shared vocabulary of the development: the C integer types as words, the outcome of a call
  (a result, a panic, or no return), little-endian byte encodings of integers, and a flat
  byte-addressed memory with its load/store laws.
\<close>

section \<open>C integer types\<close>

type_synonym uint8 = "8 word"
type_synonym uint16 = "16 word"
type_synonym uint32 = "32 word"
type_synonym uint64 = "64 word"

section \<open>Outcomes of calls\<close>

text \<open>
  A call returns a value (\<open>Ok\<close>), stops the machine through \<open>panic("...")\<close> (\<open>Panic\<close>, with
  the message), or does not return on its own: it spins or sleeps until another CPU or a device
  acts, or loops forever (\<open>Hang\<close>). A call that writes past the end of an array has no defined outcome
  (\<open>Undef\<close>).
\<close>

datatype 'a res = Ok 'a | Panic string | Hang | Undef

primrec bnd :: "'a res \<Rightarrow> ('a \<Rightarrow> 'b res) \<Rightarrow> 'b res" where
  "bnd (Ok a) f = f a"
| "bnd (Panic e) f = Panic e"
| "bnd Hang f = Hang"
| "bnd Undef f = Undef"

lemma bnd_eq_Ok [simp]: "bnd m f = Ok x \<longleftrightarrow> (\<exists>a. m = Ok a \<and> f a = Ok x)"
  by (cases m) auto

lemma bnd_eq_Panic [simp]:
  "bnd m f = Panic e \<longleftrightarrow> m = Panic e \<or> (\<exists>a. m = Ok a \<and> f a = Panic e)"
  by (cases m) auto

lemma bnd_assoc [simp]: "bnd (bnd m f) g = bnd m (\<lambda>a. bnd (f a) g)"
  by (cases m) auto

lemma bnd_Ok_right [simp]: "bnd m Ok = m"
  by (cases m) auto

lemma bnd_cong [fundef_cong]:
  "m = m' \<Longrightarrow> (\<And>a. m' = Ok a \<Longrightarrow> f a = g a) \<Longrightarrow> bnd m f = bnd m' g"
  by (cases m') auto

lemma bnd_if [simp]: "bnd (if b then m else n) f = (if b then bnd m f else bnd n f)"
  by simp

text \<open>
  \<open>for(j = i; j < n; j++) body\<close> for a body that runs to its end in every pass; a panic or a
  hang in one pass is the outcome of the loop.
\<close>

definition for_upto :: "nat \<Rightarrow> nat \<Rightarrow> (nat \<Rightarrow> 's \<Rightarrow> 's res) \<Rightarrow> 's \<Rightarrow> 's res" where
  "for_upto i n body s = foldl (\<lambda>r j. bnd r (body j)) (Ok s) [i..<n]"

lemma for_upto_done [simp]: "n \<le> i \<Longrightarrow> for_upto i n body s = Ok s"
  by (simp add: for_upto_def)

lemma for_upto_Suc: "i \<le> n \<Longrightarrow> for_upto i (Suc n) body s = bnd (for_upto i n body s) (body n)"
  by (simp add: for_upto_def)

lemma foldl_bnd_stop [simp]:
  "foldl (\<lambda>r j. bnd r (body j)) (Panic e) xs = Panic e"
  "foldl (\<lambda>r j. bnd r (body j)) Hang xs = Hang"
  "foldl (\<lambda>r j. bnd r (body j)) Undef xs = Undef"
  by (induction xs) simp_all

text \<open>Total and partial correctness of such a loop by an invariant indexed by the counter.\<close>

lemma for_upto_total:
  assumes "i \<le> n" and "P i s"
    and "\<And>j t. i \<le> j \<Longrightarrow> j < n \<Longrightarrow> P j t \<Longrightarrow> \<exists>t'. body j t = Ok t' \<and> P (Suc j) t'"
  shows "\<exists>s'. for_upto i n body s = Ok s' \<and> P n s'"
  using assms(1,3)
proof (induction n)
  case 0
  with assms(2) show ?case by simp
next
  case (Suc n)
  show ?case
  proof (cases "i = Suc n")
    case True
    with assms(2) show ?thesis by simp
  next
    case False
    with Suc obtain t where t: "for_upto i n body s = Ok t" "P n t"
      by (metis le_Suc_eq less_SucI)
    with Suc.prems False obtain t' where "body n t = Ok t'" "P (Suc n) t'"
      by (metis le_Suc_eq lessI)
    with t False Suc.prems show ?thesis by (simp add: for_upto_Suc)
  qed
qed

lemma for_upto_partial:
  assumes "for_upto i n body s = Ok s'" and "i \<le> n" and "P i s"
    and "\<And>j t t'. i \<le> j \<Longrightarrow> j < n \<Longrightarrow> P j t \<Longrightarrow> body j t = Ok t' \<Longrightarrow> P (Suc j) t'"
  shows "P n s'"
  using assms(1,2,4)
proof (induction n arbitrary: s')
  case 0
  with assms(3) show ?case by simp
next
  case (Suc n)
  show ?case
  proof (cases "i = Suc n")
    case True
    with assms(3) Suc.prems show ?thesis by simp
  next
    case False
    with Suc.prems obtain t where "for_upto i n body s = Ok t" "body n t = Ok s'"
      by (auto simp: for_upto_Suc)
    with Suc False show ?thesis by (metis le_Suc_eq less_SucI lessI)
  qed
qed

section \<open>Little-endian integers\<close>

text \<open>The value of a byte string, least significant byte first, and its inverse.\<close>

fun le_nat :: "uint8 list \<Rightarrow> nat" where
  "le_nat [] = 0"
| "le_nat (b # bs) = unat b + 256 * le_nat bs"

primrec nat_le :: "nat \<Rightarrow> nat \<Rightarrow> uint8 list" where
  "nat_le 0 x = []"
| "nat_le (Suc n) x = of_nat x # nat_le n (x div 256)"

lemma length_nat_le [simp]: "length (nat_le n x) = n"
  by (induction n arbitrary: x) auto

lemma unat_byte_less [simp]: "unat (b :: uint8) < 256"
  using unsigned_less [of b] by simp

lemma unat_of_nat_byte: "unat (of_nat x :: uint8) = x mod 256"
  by (simp add: unat_of_nat)

lemma le_nat_nat_le: "le_nat (nat_le n x) = x mod 256 ^ n"
proof (induction n arbitrary: x)
  case 0
  show ?case by simp
next
  case (Suc n)
  have "x mod 256 + 256 * (x div 256 mod 256 ^ n) = x mod (256 * 256 ^ n)"
    by (simp add: mod_mult2_eq)
  with Suc show ?case by (simp add: unat_of_nat_byte)
qed

lemma le_nat_bound: "le_nat bs < 256 ^ length bs"
proof (induction bs)
  case Nil
  show ?case by simp
next
  case (Cons b bs)
  have "unat b + 256 * le_nat bs < 256 * (le_nat bs + 1)"
    using unat_byte_less [of b] by (simp del: unat_byte_less)
  also have "\<dots> \<le> 256 * 256 ^ length bs"
    using Cons by (intro mult_le_mono2) simp
  finally show ?case by simp
qed

lemma nat_le_le_nat: "nat_le (length bs) (le_nat bs) = bs"
proof (induction bs)
  case Nil
  show ?case by simp
next
  case (Cons b bs)
  have "unat (of_nat (unat b + 256 * le_nat bs) :: uint8) = unat b"
    by (simp only: unat_of_nat_byte mod_mult_self2) simp
  then have "(of_nat (unat b + 256 * le_nat bs) :: uint8) = b"
    by (simp only: word_unat_eq_iff)
  with Cons show ?case by simp
qed

lemma nat_le_eq_map: "nat_le n x = map (\<lambda>i. of_nat (x div 256 ^ i)) [0..<n]"
proof (induction n arbitrary: x)
  case 0
  show ?case by simp
next
  case (Suc n)
  have "[0..<Suc n] = 0 # map Suc [0..<n]"
    by (metis map_Suc_upt upt_rec zero_less_Suc)
  with Suc show ?case by (simp add: o_def div_mult2_eq)
qed

section \<open>Memory\<close>

text \<open>
  Physical memory is a function from 64-bit addresses to bytes; address arithmetic wraps. The
  byte range of \<open>n\<close> bytes at \<open>a\<close> is \<open>{x. unat (x - a) < n}\<close>, which needs no side condition on
  wrapping.
\<close>

type_synonym addr = uint64
type_synonym memory = "addr \<Rightarrow> uint8"

definition within :: "addr \<Rightarrow> nat \<Rightarrow> addr \<Rightarrow> bool" where
  "within a n x \<longleftrightarrow> unat (x - a) < n"

definition disjoint_ranges :: "addr \<Rightarrow> nat \<Rightarrow> addr \<Rightarrow> nat \<Rightarrow> bool" where
  "disjoint_ranges a n b k \<longleftrightarrow> (\<forall>x. \<not> (within a n x \<and> within b k x))"

primrec load_bytes :: "memory \<Rightarrow> addr \<Rightarrow> nat \<Rightarrow> uint8 list" where
  "load_bytes m a 0 = []"
| "load_bytes m a (Suc n) = m a # load_bytes m (a + 1) n"

primrec store_bytes :: "memory \<Rightarrow> addr \<Rightarrow> uint8 list \<Rightarrow> memory" where
  "store_bytes m a [] = m"
| "store_bytes m a (b # bs) = store_bytes (m(a := b)) (a + 1) bs"

definition load16 :: "memory \<Rightarrow> addr \<Rightarrow> uint16" where
  "load16 m a = of_nat (le_nat (load_bytes m a 2))"

definition load32 :: "memory \<Rightarrow> addr \<Rightarrow> uint32" where
  "load32 m a = of_nat (le_nat (load_bytes m a 4))"

definition load64 :: "memory \<Rightarrow> addr \<Rightarrow> uint64" where
  "load64 m a = of_nat (le_nat (load_bytes m a 8))"

definition store32 :: "memory \<Rightarrow> addr \<Rightarrow> uint32 \<Rightarrow> memory" where
  "store32 m a v = store_bytes m a (nat_le 4 (unat v))"

definition store64 :: "memory \<Rightarrow> addr \<Rightarrow> uint64 \<Rightarrow> memory" where
  "store64 m a v = store_bytes m a (nat_le 8 (unat v))"

lemma length_load_bytes [simp]: "length (load_bytes m a n) = n"
  by (induction n arbitrary: a) auto

lemma load_bytes_eq_map: "load_bytes m a n = map (\<lambda>i. m (a + of_nat i)) [0..<n]"
proof (induction n arbitrary: a)
  case 0
  show ?case by simp
next
  case (Suc n)
  have "[0..<Suc n] = 0 # map Suc [0..<n]"
    by (metis map_Suc_upt upt_rec zero_less_Suc)
  with Suc show ?case by (simp add: o_def add.assoc add.commute [of 1])
qed

lemma nth_load_bytes [simp]: "i < n \<Longrightarrow> load_bytes m a n ! i = m (a + of_nat i)"
  by (simp add: load_bytes_eq_map)

lemma load_bytes_add:
  "load_bytes m a (n + k) = load_bytes m a n @ load_bytes m (a + of_nat n) k"
  by (induction n arbitrary: a) (auto simp: add.assoc)

lemma take_load_bytes: "r \<le> n \<Longrightarrow> take r (load_bytes m a n) = load_bytes m a r"
  by (rule nth_equalityI) auto

lemma load_bytes_cong:
  "(\<And>x. within a n x \<Longrightarrow> m x = m' x) \<Longrightarrow> n \<le> 2 ^ 64 \<Longrightarrow> load_bytes m a n = load_bytes m' a n"
  by (auto simp: load_bytes_eq_map within_def unat_of_nat)

lemma unat_minus_step:
  "x \<noteq> a \<Longrightarrow> unat (x - a) = Suc (unat (x - (a + 1)))" for x a :: addr
proof -
  assume "x \<noteq> a"
  then have "x - a \<noteq> 0" by simp
  then have "unat (x - a) = Suc (unat (x - a - 1))"
    by (simp add: unat_minus_one unat_gt_0)
  then show ?thesis by (simp add: diff_diff_eq)
qed

lemma addr_of_offset: "unat (x - a) = n \<Longrightarrow> x = a + of_nat n" for x a :: addr
  by auto

lemma store_bytes_apply:
  "length bs \<le> 2 ^ 64 \<Longrightarrow>
   store_bytes m a bs x = (if within a (length bs) x then bs ! unat (x - a) else m x)"
proof (induction bs arbitrary: m a)
  case Nil
  show ?case by (simp add: within_def)
next
  case (Cons b bs)
  have small: "unat (a - (a + 1)) = 2 ^ 64 - 1"
    by (simp add: unsigned_minus_1_eq_mask mask_eq_exp_minus_1)
  show ?case
  proof (cases "x = a")
    case True
    with Cons small show ?thesis by (simp add: within_def)
  next
    case False
    then have "unat (x - a) = Suc (unat (x - (a + 1)))"
      by (rule unat_minus_step)
    with False Cons show ?thesis by (simp add: within_def)
  qed
qed

lemma load_store_same [simp]:
  "length bs = n \<Longrightarrow> n \<le> 2 ^ 64 \<Longrightarrow> load_bytes (store_bytes m a bs) a n = bs"
  by (rule nth_equalityI) (auto simp: store_bytes_apply within_def unat_of_nat)

lemma load_store_disjoint:
  "disjoint_ranges a n b (length bs) \<Longrightarrow> n \<le> 2 ^ 64 \<Longrightarrow> length bs \<le> 2 ^ 64 \<Longrightarrow>
   load_bytes (store_bytes m b bs) a n = load_bytes m a n"
  by (rule load_bytes_cong) (auto simp: store_bytes_apply disjoint_ranges_def)

lemma disjoint_ranges_sym: "disjoint_ranges a n b k \<longleftrightarrow> disjoint_ranges b k a n"
  by (auto simp: disjoint_ranges_def)

lemma disjoint_ranges_mono:
  "disjoint_ranges a n b k \<Longrightarrow> n' \<le> n \<Longrightarrow> k' \<le> k \<Longrightarrow> disjoint_ranges a n' b k'"
  unfolding disjoint_ranges_def within_def by (meson order_less_le_trans)

lemma within_offset:
  "within (p + of_nat i) n x \<Longrightarrow> i + n \<le> 2 ^ 64 \<Longrightarrow>
   \<exists>j. i \<le> j \<and> j < i + n \<and> unat (x - p) = j"
proof -
  assume "within (p + of_nat i) n x" and n: "i + n \<le> 2 ^ 64"
  then obtain z where z: "z < n" and "unat (x - (p + of_nat i)) = z"
    by (simp add: within_def)
  then have "x = p + of_nat i + of_nat z" by (intro addr_of_offset)
  then have "x - p = of_nat (i + z)" by simp
  then have "unat (x - p) = i + z"
    using n z by (simp only: unat_of_nat) simp
  with z show ?thesis by auto
qed

lemma within_sub_range:
  "within (p + of_nat i) n x \<Longrightarrow> i + n \<le> k \<Longrightarrow> k \<le> 2 ^ 64 \<Longrightarrow> within p k x"
  using within_offset [of p i n x] by (auto simp: within_def)

lemma disjoint_offsets:
  "j + k \<le> i \<Longrightarrow> i + n \<le> 2 ^ 64 \<Longrightarrow> disjoint_ranges (p + of_nat i) n (p + of_nat j) k"
  using within_offset [of p i n] within_offset [of p j k]
  by (fastforce simp: disjoint_ranges_def)

lemma disjoint_sub_range:
  "disjoint_ranges p k b l \<Longrightarrow> i + n \<le> k \<Longrightarrow> k \<le> 2 ^ 64 \<Longrightarrow>
   disjoint_ranges (p + of_nat i) n b l"
  unfolding disjoint_ranges_def by (metis within_sub_range)

lemma disjoint_ranges_apart:
  "unat a + n \<le> unat b \<Longrightarrow> unat b + k \<le> 2 ^ 64 \<Longrightarrow> disjoint_ranges a n b k"
proof -
  assume le: "unat a + n \<le> unat b" "unat b + k \<le> 2 ^ 64"
  have "disjoint_ranges (0 + of_nat (unat b)) k (0 + of_nat (unat a)) n"
    using le by (intro disjoint_offsets) auto
  then show ?thesis by (simp add: disjoint_ranges_sym)
qed

lemma store_bytes_append:
  "store_bytes m a (bs @ cs) = store_bytes (store_bytes m a bs) (a + of_nat (length bs)) cs"
  by (induction bs arbitrary: m a) (auto simp: add.assoc)

lemma load64_store64_same [simp]: "load64 (store64 m a v) a = v"
proof -
  have "unat v < 256 ^ 8"
    using unsigned_less [of v] by simp
  then show ?thesis
    by (simp add: load64_def store64_def le_nat_nat_le)
qed

lemma load32_store32_same [simp]: "load32 (store32 m a v) a = v"
proof -
  have "unat v < 256 ^ 4"
    using unsigned_less [of v] by simp
  then show ?thesis
    by (simp add: load32_def store32_def le_nat_nat_le)
qed

end
