(* ===== verification/Cstring.thy ===== *)
theory Cstring
  imports Prelude
begin

text \<open>
  The memory and string routines of \<open>bootloader/string.c\<close> (the kernel links an identical copy,
  \<open>kernel/string.c\<close>). Each routine is the C loop over the flat memory; \<open>n\<close> is the C argument
  \<open>uint n\<close> (or \<open>int n\<close> after its sign test). The laws relate them to block loads and stores.
\<close>

section \<open>The routines\<close>

primrec memset_loop :: "memory \<Rightarrow> addr \<Rightarrow> int \<Rightarrow> nat \<Rightarrow> memory" where
  "memset_loop m cdst c 0 = m"
| "memset_loop m cdst c (Suc n) = memset_loop (m(cdst := of_int c)) (cdst + 1) c n"

definition memset :: "memory \<Rightarrow> addr \<Rightarrow> int \<Rightarrow> nat \<Rightarrow> memory" where
  "memset m dst c n = memset_loop m dst c n"

primrec memcmp :: "memory \<Rightarrow> addr \<Rightarrow> addr \<Rightarrow> nat \<Rightarrow> int" where
  "memcmp m s1 s2 0 = 0"
| "memcmp m s1 s2 (Suc n) =
     (if m s1 \<noteq> m s2 then uint (m s1) - uint (m s2) else memcmp m (s1 + 1) (s2 + 1) n)"

text \<open>\<open>while(n-- > 0) *d++ = *s++\<close> and \<open>while(n-- > 0) *--d = *--s\<close>.\<close>

primrec move_up :: "memory \<Rightarrow> addr \<Rightarrow> addr \<Rightarrow> nat \<Rightarrow> memory" where
  "move_up m d s 0 = m"
| "move_up m d s (Suc n) = move_up (m(d := m s)) (d + 1) (s + 1) n"

primrec move_down :: "memory \<Rightarrow> addr \<Rightarrow> addr \<Rightarrow> nat \<Rightarrow> memory" where
  "move_down m d s 0 = m"
| "move_down m d s (Suc n) = move_down (m(d - 1 := m (s - 1))) (d - 1) (s - 1) n"

definition memmove :: "memory \<Rightarrow> addr \<Rightarrow> addr \<Rightarrow> nat \<Rightarrow> memory" where
  "memmove m dst src n =
     (if n = 0 then m
      else if src < dst \<and> src + of_nat n > dst
      then move_down m (dst + of_nat n) (src + of_nat n) n
      else move_up m dst src n)"

definition memcpy :: "memory \<Rightarrow> addr \<Rightarrow> addr \<Rightarrow> nat \<Rightarrow> memory" where
  "memcpy m dst src n = memmove m dst src n"

primrec strncmp :: "memory \<Rightarrow> addr \<Rightarrow> addr \<Rightarrow> nat \<Rightarrow> int" where
  "strncmp m p q 0 = 0"
| "strncmp m p q (Suc n) =
     (if m p \<noteq> 0 \<and> m p = m q then strncmp m (p + 1) (q + 1) n
      else uint (m p) - uint (m q))"

text \<open>
  \<open>strncpy\<close>: the copying loop leaves the count already decremented when it meets the
  terminator, and the second loop writes that many zero bytes.
\<close>

primrec strncpy :: "memory \<Rightarrow> addr \<Rightarrow> addr \<Rightarrow> nat \<Rightarrow> memory" where
  "strncpy m s t 0 = m"
| "strncpy m s t (Suc n) =
     (let m' = m(s := m t) in
      if m t \<noteq> 0 then strncpy m' (s + 1) (t + 1) n else memset_loop m' (s + 1) 0 n)"

primrec safestrcpy_loop :: "memory \<Rightarrow> addr \<Rightarrow> addr \<Rightarrow> nat \<Rightarrow> memory" where
  "safestrcpy_loop m s t 0 = m(s := 0)"
| "safestrcpy_loop m s t (Suc n) =
     (let m' = m(s := m t) in
      if m t \<noteq> 0 then safestrcpy_loop m' (s + 1) (t + 1) n else m'(s + 1 := 0))"

definition safestrcpy :: "memory \<Rightarrow> addr \<Rightarrow> addr \<Rightarrow> int \<Rightarrow> memory" where
  "safestrcpy m s t n = (if n \<le> 0 then m else safestrcpy_loop m s t (nat n - 1))"

text \<open>\<open>strlen\<close> runs until it meets a zero byte; without one it does not return.\<close>

partial_function (option) strlen_from :: "memory \<Rightarrow> addr \<Rightarrow> nat \<Rightarrow> nat option" where
  "strlen_from m s n = (if m (s + of_nat n) = 0 then Some n else strlen_from m s (Suc n))"

definition strlen :: "memory \<Rightarrow> addr \<Rightarrow> nat option" where
  "strlen m s = strlen_from m s 0"

section \<open>Block view of the routines\<close>

lemma memset_loop_store: "memset_loop m a c n = store_bytes m a (replicate n (of_int c))"
  by (induction n arbitrary: m a) auto

lemma memset_store: "memset m a c n = store_bytes m a (replicate n (of_int c))"
  by (simp add: memset_def memset_loop_store)

lemma memcmp_eq_0: "memcmp m s1 s2 n = 0 \<longleftrightarrow> load_bytes m s1 n = load_bytes m s2 n"
  by (induction n arbitrary: s1 s2) (auto simp: word_uint_eq_iff)

text \<open>
  A forward copy is right unless the destination lies strictly inside the source range: the
  byte written at \<open>d\<close> is then never one that is still to be read.
\<close>

lemma move_up_store:
  "n \<le> 2 ^ 63 \<Longrightarrow> unat (d - s) = 0 \<or> n \<le> unat (d - s) \<Longrightarrow>
   move_up m d s n = store_bytes m d (load_bytes m s n)"
proof (induction n arbitrary: m d s)
  case 0
  show ?case by simp
next
  case (Suc n)
  have "d + 1 - (s + 1) = d - s" by simp
  then have "move_up m d s (Suc n)
      = store_bytes (m(d := m s)) (d + 1) (load_bytes (m(d := m s)) (s + 1) n)"
    using Suc by auto
  moreover have "load_bytes (m(d := m s)) (s + 1) n = load_bytes m (s + 1) n"
  proof (cases "d = s")
    case True
    then show ?thesis by simp
  next
    case False
    then have "unat (d - s) = Suc (unat (d - (s + 1)))" by (rule unat_minus_step)
    with Suc.prems have "\<not> within (s + 1) n d" by (auto simp: within_def)
    with Suc.prems show ?thesis by (intro load_bytes_cong) auto
  qed
  ultimately show ?case by simp
qed

lemma load_bytes_snoc: "load_bytes m a (Suc n) = load_bytes m a n @ [m (a + of_nat n)]"
  using load_bytes_add [of m a n 1] by simp

lemma store_bytes_snoc:
  "length bs < 2 ^ 64 \<Longrightarrow>
   store_bytes m a (bs @ [b]) = store_bytes (m(a + of_nat (length bs) := b)) a bs"
  by (rule ext) (auto simp: store_bytes_apply within_def nth_append unat_of_nat less_Suc_eq
      dest: addr_of_offset)

lemma move_down_store:
  "n \<le> 2 ^ 63 \<Longrightarrow> unat (d - s) + n \<le> 2 ^ 64 \<Longrightarrow>
   move_down m (d + of_nat n) (s + of_nat n) n = store_bytes m d (load_bytes m s n)"
proof (induction n arbitrary: m)
  case 0
  show ?case by simp
next
  case (Suc n)
  let ?m = "m(d + of_nat n := m (s + of_nat n))"
  have "move_down m (d + of_nat (Suc n)) (s + of_nat (Suc n)) (Suc n)
      = move_down ?m (d + of_nat n) (s + of_nat n) n"
    by simp
  also have "\<dots> = store_bytes ?m d (load_bytes ?m s n)"
    using Suc by simp
  also have "load_bytes ?m s n = load_bytes m s n"
  proof (rule load_bytes_cong)
    fix x
    assume x: "within s n x"
    have "unat (d + of_nat n - s) = unat (d - s) + n"
      using Suc.prems by (simp add: diff_add_eq [symmetric] unat_word_ariths unat_of_nat)
    with x have "x \<noteq> d + of_nat n" by (auto simp: within_def)
    then show "?m x = m x" by simp
  qed (use Suc.prems in simp)
  also have "store_bytes ?m d (load_bytes m s n) = store_bytes m d (load_bytes m s (Suc n))"
    using Suc.prems by (simp add: load_bytes_snoc store_bytes_snoc del: load_bytes.simps)
  finally show ?case .
qed

text \<open>
  \<open>memmove\<close> copies the bytes the source held before the call, overlapping or not, as long as
  neither range wraps around the address space.
\<close>

lemma memmove_store:
  assumes "n \<le> 2 ^ 32" "unat src + n < 2 ^ 64" "unat dst + n \<le> 2 ^ 64"
  shows "memmove m dst src n = store_bytes m dst (load_bytes m src n)"
proof (cases "src < dst \<and> src + of_nat n > dst")
  case True
  then have "unat (dst - src) = unat dst - unat src"
    by (simp add: unat_sub less_imp_le)
  then have "unat (dst - src) + n \<le> 2 ^ 64"
    using assms by linarith
  with True assms show ?thesis
    by (simp add: memmove_def move_down_store del: One_nat_def)
next
  case False
  have end_src: "unat (src + of_nat n) = unat src + n"
    using assms by (simp add: unat_word_ariths unat_of_nat)
  have "unat (dst - src) = 0 \<or> n \<le> unat (dst - src)"
  proof (cases "src < dst")
    case True
    then have "unat (dst - src) = unat dst - unat src"
      by (simp add: unat_sub less_imp_le)
    moreover have "unat src + n \<le> unat dst"
      using True False end_src by (simp add: word_less_nat_alt)
    ultimately show ?thesis by linarith
  next
    case nle: False
    show ?thesis
    proof (cases "src = dst")
      case False
      with nle have lt: "unat dst < unat src"
        by (metis linorder_neqE_nat word_less_nat_alt word_unat_eq_iff)
      then have "unat (dst - src) = 2 ^ 64 - (unat src - unat dst)"
        using unat_sub_if_size [of dst src] by (simp add: word_size)
      with assms lt show ?thesis by linarith
    qed simp
  qed
  with False assms show ?thesis
    by (auto simp: memmove_def move_up_store)
qed

section \<open>The block-copy interface\<close>

text \<open>
  What the loader and the kernel rely on when they call \<open>memmove\<close>: in range, the call stores at
  the destination exactly the bytes loaded from the source. The lemmas are proved from that law
  alone.
\<close>

locale block_copy =
  fixes copy :: "memory \<Rightarrow> addr \<Rightarrow> addr \<Rightarrow> nat \<Rightarrow> memory"
  assumes copy_law:
    "n \<le> 2 ^ 32 \<Longrightarrow> unat s + n < 2 ^ 64 \<Longrightarrow> unat d + n \<le> 2 ^ 64 \<Longrightarrow>
     copy m d s n = store_bytes m d (load_bytes m s n)"
begin

lemma copied:
  "n \<le> 2 ^ 32 \<Longrightarrow> unat s + n < 2 ^ 64 \<Longrightarrow> unat d + n \<le> 2 ^ 64 \<Longrightarrow>
   load_bytes (copy m d s n) d n = load_bytes m s n"
  by (simp add: copy_law)

lemma frame:
  "n \<le> 2 ^ 32 \<Longrightarrow> unat s + n < 2 ^ 64 \<Longrightarrow> unat d + n \<le> 2 ^ 64 \<Longrightarrow> \<not> within d n x \<Longrightarrow>
   copy m d s n x = m x"
  by (simp add: copy_law store_bytes_apply)

end

interpretation mv: block_copy memmove
  by unfold_locales (rule memmove_store)

interpretation cp: block_copy memcpy
  by unfold_locales (simp add: memcpy_def memmove_store)

section \<open>Strings\<close>

text \<open>
  The C string at an address, cut at \<open>n\<close> bytes: the bytes before the first zero.
\<close>

definition cstr_upto :: "memory \<Rightarrow> addr \<Rightarrow> nat \<Rightarrow> uint8 list" where
  "cstr_upto m a n = takeWhile (\<lambda>b. b \<noteq> 0) (load_bytes m a n)"

lemma cstr_upto_simps [simp]:
  "cstr_upto m a 0 = []"
  "cstr_upto m a (Suc n) = (if m a = 0 then [] else m a # cstr_upto m (a + 1) n)"
  by (simp_all add: cstr_upto_def)

lemma length_cstr_upto: "length (cstr_upto m a n) \<le> n"
  by (induction n arbitrary: a) auto

lemma strncmp_eq_0: "strncmp m p q n = 0 \<longleftrightarrow> cstr_upto m p n = cstr_upto m q n"
  by (induction n arbitrary: p q) (auto simp: word_uint_eq_iff)

lemma cstr_upto_cong:
  "(\<And>x. within a n x \<Longrightarrow> m x = m' x) \<Longrightarrow> n \<le> 2 ^ 64 \<Longrightarrow> cstr_upto m a n = cstr_upto m' a n"
  using load_bytes_cong [of a n m m'] by (simp add: cstr_upto_def)

lemma within_Suc: "n \<le> 2 ^ 63 \<Longrightarrow> within a (Suc n) x \<longleftrightarrow> x = a \<or> within (a + 1) n x"
proof (cases "x = a")
  case False
  then show ?thesis
    by (simp add: within_def unat_minus_step)
qed (simp add: within_def)

lemma strncpy_store:
  assumes "n \<le> 2 ^ 31" and "disjoint_ranges s n t n"
  shows "strncpy m s t n =
    store_bytes m s (cstr_upto m t n @ replicate (n - length (cstr_upto m t n)) 0)"
  using assms
proof (induction n arbitrary: m s t)
  case 0
  show ?case by simp
next
  case (Suc n)
  have disj: "disjoint_ranges (s + 1) n (t + 1) n"
    using Suc.prems by (auto simp: disjoint_ranges_def within_Suc)
  have "cstr_upto (m(s := m t)) (t + 1) n = cstr_upto m (t + 1) n"
  proof (rule cstr_upto_cong)
    fix x
    assume "within (t + 1) n x"
    then have "x \<noteq> s"
      using Suc.prems by (auto simp: disjoint_ranges_def within_Suc)
    then show "(m(s := m t)) x = m x" by simp
  qed (use Suc.prems in simp)
  moreover have "strncpy (m(s := m t)) (s + 1) (t + 1) n
      = store_bytes (m(s := m t)) (s + 1) (cstr_upto (m(s := m t)) (t + 1) n
          @ replicate (n - length (cstr_upto (m(s := m t)) (t + 1) n)) 0)"
    by (rule Suc.IH) (use Suc.prems disj in auto)
  ultimately show ?case
    by (simp only: strncpy.simps cstr_upto_simps memset_loop_store Let_def) simp
qed

lemma strlen_from_found:
  assumes "m (s + of_nat (n + k)) = 0" and "\<And>i. i < k \<Longrightarrow> m (s + of_nat (n + i)) \<noteq> 0"
  shows "strlen_from m s n = Some (n + k)"
  using assms
proof (induction k arbitrary: n)
  case 0
  then show ?case by (subst strlen_from.simps) simp
next
  case (Suc k)
  from Suc.prems(2) [of 0] have "m (s + of_nat n) \<noteq> 0" by simp
  moreover have "strlen_from m s (Suc n) = Some (Suc n + k)"
  proof (rule Suc.IH)
    show "m (s + of_nat (Suc n + k)) = 0" using Suc.prems(1) by simp
    show "m (s + of_nat (Suc n + i)) \<noteq> 0" if "i < k" for i
      using Suc.prems(2) [of "Suc i"] that by simp
  qed
  ultimately show ?case by (subst strlen_from.simps) simp
qed

lemma strlen_found:
  "m (s + of_nat k) = 0 \<Longrightarrow> (\<And>i. i < k \<Longrightarrow> m (s + of_nat i) \<noteq> 0) \<Longrightarrow> strlen m s = Some k"
  using strlen_from_found [of m s 0 k] by (simp add: strlen_def)

end
