(* ===== verification/Sha256.thy ===== *)
theory Sha256
  imports Prelude
begin

text \<open>
  The hash used to measure the kernel: \<open>bootloader/sha256.c\<close>, function by function on the
  context record of \<open>sha256.h\<close>, and beside it the Secure Hash Standard's description of SHA-256
  (padding, message schedule, compression, digest). The main results: \<open>sha256_transform\<close> is the
  standard's compression function, the context always stands for the message fed so far, and
  init, updates and final together compute the standard's digest however the message is cut.
\<close>

section \<open>The implementation\<close>

record SHA256_CTX =
  sha_data :: "uint8 list"
  datalen :: uint32
  bitlen :: uint64
  sha_state :: "uint32 list"

definition ROTRIGHT :: "uint32 \<Rightarrow> nat \<Rightarrow> uint32" where
  "ROTRIGHT a b = (drop_bit b a) OR (push_bit (32 - b) a)"

definition CH :: "uint32 \<Rightarrow> uint32 \<Rightarrow> uint32 \<Rightarrow> uint32" where
  "CH x y z = (x AND y) XOR (NOT x AND z)"

definition MAJ :: "uint32 \<Rightarrow> uint32 \<Rightarrow> uint32 \<Rightarrow> uint32" where
  "MAJ x y z = (x AND y) XOR (x AND z) XOR (y AND z)"

definition EP0 :: "uint32 \<Rightarrow> uint32" where
  "EP0 x = ROTRIGHT x 2 XOR ROTRIGHT x 13 XOR ROTRIGHT x 22"

definition EP1 :: "uint32 \<Rightarrow> uint32" where
  "EP1 x = ROTRIGHT x 6 XOR ROTRIGHT x 11 XOR ROTRIGHT x 25"

definition SIG0 :: "uint32 \<Rightarrow> uint32" where
  "SIG0 x = ROTRIGHT x 7 XOR ROTRIGHT x 18 XOR drop_bit 3 x"

definition SIG1 :: "uint32 \<Rightarrow> uint32" where
  "SIG1 x = ROTRIGHT x 17 XOR ROTRIGHT x 19 XOR drop_bit 10 x"

definition sha256_k :: "uint32 list" where
  "sha256_k = concat [
     [0x428a2f98, 0x71374491, 0xb5c0fbcf, 0xe9b5dba5, 0x3956c25b, 0x59f111f1, 0x923f82a4, 0xab1c5ed5],
     [0xd807aa98, 0x12835b01, 0x243185be, 0x550c7dc3, 0x72be5d74, 0x80deb1fe, 0x9bdc06a7, 0xc19bf174],
     [0xe49b69c1, 0xefbe4786, 0x0fc19dc6, 0x240ca1cc, 0x2de92c6f, 0x4a7484aa, 0x5cb0a9dc, 0x76f988da],
     [0x983e5152, 0xa831c66d, 0xb00327c8, 0xbf597fc7, 0xc6e00bf3, 0xd5a79147, 0x06ca6351, 0x14292967],
     [0x27b70a85, 0x2e1b2138, 0x4d2c6dfc, 0x53380d13, 0x650a7354, 0x766a0abb, 0x81c2c92e, 0x92722c85],
     [0xa2bfe8a1, 0xa81a664b, 0xc24b8b70, 0xc76c51a3, 0xd192e819, 0xd6990624, 0xf40e3585, 0x106aa070],
     [0x19a4c116, 0x1e376c08, 0x2748774c, 0x34b0bcb5, 0x391c0cb3, 0x4ed8aa4a, 0x5b9cca4f, 0x682e6ff3],
     [0x748f82ee, 0x78a5636f, 0x84c87814, 0x8cc70208, 0x90befffa, 0xa4506ceb, 0xbef9a3f7, 0xc67178f2]]"

text \<open>The two loops that fill \<open>m[64]\<close>: each pass assigns the next element.\<close>

definition load_word :: "uint8 list \<Rightarrow> nat \<Rightarrow> uint32" where
  "load_word d j = push_bit 24 (ucast (d ! j)) OR push_bit 16 (ucast (d ! (j + 1)))
     OR push_bit 8 (ucast (d ! (j + 2))) OR ucast (d ! (j + 3))"

definition sched_load :: "uint8 list \<Rightarrow> uint32 list" where
  "sched_load d = foldl (\<lambda>m i. m @ [load_word d (4 * i)]) [] [0..<16]"

definition sched_extend :: "uint32 list \<Rightarrow> uint32 list" where
  "sched_extend m0 = foldl (\<lambda>m i.
     m @ [SIG1 (m ! (i - 2)) + m ! (i - 7) + SIG0 (m ! (i - 15)) + m ! (i - 16)]) m0 [16..<64]"

type_synonym sha_vars =
  "uint32 \<times> uint32 \<times> uint32 \<times> uint32 \<times> uint32 \<times> uint32 \<times> uint32 \<times> uint32"

definition sha_round :: "uint32 list \<Rightarrow> sha_vars \<Rightarrow> nat \<Rightarrow> sha_vars" where
  "sha_round m v i = (case v of (a, b, c, d, e, f, g, h) \<Rightarrow>
     let t1 = h + EP1 e + CH e f g + sha256_k ! i + m ! i;
         t2 = EP0 a + MAJ a b c
     in (t1 + t2, a, b, c, d + t1, e, f, g))"

definition sha256_transform :: "SHA256_CTX \<Rightarrow> uint8 list \<Rightarrow> SHA256_CTX" where
  "sha256_transform ctx d =
     (let m = sched_extend (sched_load d);
          st = sha_state ctx;
          (a, b, c, dd, e, f, g, h) =
            foldl (sha_round m)
              (st ! 0, st ! 1, st ! 2, st ! 3, st ! 4, st ! 5, st ! 6, st ! 7) [0..<64]
      in ctx\<lparr>sha_state := [st ! 0 + a, st ! 1 + b, st ! 2 + c, st ! 3 + dd,
                          st ! 4 + e, st ! 5 + f, st ! 6 + g, st ! 7 + h]\<rparr>)"

definition sha256_init :: "SHA256_CTX \<Rightarrow> SHA256_CTX" where
  "sha256_init ctx = ctx\<lparr>datalen := 0, bitlen := 0,
     sha_state := [0x6a09e667, 0xbb67ae85, 0x3c6ef372, 0xa54ff53a,
                   0x510e527f, 0x9b05688c, 0x1f83d9ab, 0x5be0cd19]\<rparr>"

text \<open>One pass of the loop of \<open>sha256_update\<close>, for the byte \<open>data[i]\<close>.\<close>

definition sha256_update_byte :: "SHA256_CTX \<Rightarrow> uint8 \<Rightarrow> SHA256_CTX" where
  "sha256_update_byte ctx b =
     (let ctx = ctx\<lparr>sha_data := (sha_data ctx)[unat (datalen ctx) := b],
                    datalen := datalen ctx + 1\<rparr>
      in if datalen ctx = 64
         then let ctx = sha256_transform ctx (sha_data ctx)
              in ctx\<lparr>bitlen := bitlen ctx + 512, datalen := 0\<rparr>
         else ctx)"

text \<open>
  The loop counter is a 32-bit \<open>WORD\<close>, the bound a \<open>size_t\<close>: from \<open>2 ^ 32\<close> bytes on the loop
  never ends.
\<close>

definition sha256_update :: "SHA256_CTX \<Rightarrow> uint8 list \<Rightarrow> uint64 \<Rightarrow> SHA256_CTX res" where
  "sha256_update ctx d len =
     (if len < 0x100000000 then Ok (foldl sha256_update_byte ctx (take (unat len) d)) else Hang)"

text \<open>\<open>while (i < bound) ctx->data[i++] = 0x00\<close>, with \<open>n\<close> the passes left.\<close>

primrec zero_fill :: "uint8 list \<Rightarrow> nat \<Rightarrow> nat \<Rightarrow> uint8 list" where
  "zero_fill d i 0 = d"
| "zero_fill d i (Suc n) = zero_fill (d[i := 0]) (Suc i) n"

definition sha256_pad :: "SHA256_CTX \<Rightarrow> SHA256_CTX" where
  "sha256_pad ctx =
     (let i = unat (datalen ctx); d = (sha_data ctx)[i := 0x80]
      in if datalen ctx < 56 then ctx\<lparr>sha_data := zero_fill d (i + 1) (56 - (i + 1))\<rparr>
         else let ctx = ctx\<lparr>sha_data := zero_fill d (i + 1) (64 - (i + 1))\<rparr>;
                  ctx = sha256_transform ctx (sha_data ctx)
              in ctx\<lparr>sha_data := zero_fill (sha_data ctx) 0 56\<rparr>)"

definition sha256_length :: "SHA256_CTX \<Rightarrow> SHA256_CTX" where
  "sha256_length ctx =
     (let bl = bitlen ctx + ucast (datalen ctx * 8)
      in ctx\<lparr>bitlen := bl,
             sha_data := (sha_data ctx)
               [63 := ucast bl, 62 := ucast (drop_bit 8 bl), 61 := ucast (drop_bit 16 bl),
                60 := ucast (drop_bit 24 bl), 59 := ucast (drop_bit 32 bl),
                58 := ucast (drop_bit 40 bl), 57 := ucast (drop_bit 48 bl),
                56 := ucast (drop_bit 56 bl)]\<rparr>)"

definition sha256_output :: "uint32 list \<Rightarrow> uint8 list" where
  "sha256_output st = map (\<lambda>p. ucast (drop_bit (24 - (p mod 4) * 8) (st ! (p div 4)) AND 0xff)) [0..<32]"

definition sha256_final :: "SHA256_CTX \<Rightarrow> uint8 list \<times> SHA256_CTX" where
  "sha256_final ctx =
     (let ctx = sha256_length (sha256_pad ctx);
          ctx = sha256_transform ctx (sha_data ctx)
      in (sha256_output (sha_state ctx), ctx))"

section \<open>The standard\<close>

text \<open>
  The reference: rotations as the library's \<open>word_rotr\<close>, the schedule as a recurrence on its
  index, big-endian words, and the padded message cut into 64-byte blocks.
\<close>

definition be_word :: "uint8 list \<Rightarrow> uint32" where
  "be_word bs = of_nat (le_nat (rev bs))"

definition be_bytes :: "nat \<Rightarrow> nat \<Rightarrow> uint8 list" where
  "be_bytes n x = rev (nat_le n x)"

definition std_Ch :: "uint32 \<Rightarrow> uint32 \<Rightarrow> uint32 \<Rightarrow> uint32" where
  "std_Ch x y z = (x AND y) XOR (NOT x AND z)"

definition std_Maj :: "uint32 \<Rightarrow> uint32 \<Rightarrow> uint32 \<Rightarrow> uint32" where
  "std_Maj x y z = (x AND y) XOR (x AND z) XOR (y AND z)"

definition std_Sigma0 :: "uint32 \<Rightarrow> uint32" where
  "std_Sigma0 x = word_rotr 2 x XOR word_rotr 13 x XOR word_rotr 22 x"

definition std_Sigma1 :: "uint32 \<Rightarrow> uint32" where
  "std_Sigma1 x = word_rotr 6 x XOR word_rotr 11 x XOR word_rotr 25 x"

definition std_sigma0 :: "uint32 \<Rightarrow> uint32" where
  "std_sigma0 x = word_rotr 7 x XOR word_rotr 18 x XOR drop_bit 3 x"

definition std_sigma1 :: "uint32 \<Rightarrow> uint32" where
  "std_sigma1 x = word_rotr 17 x XOR word_rotr 19 x XOR drop_bit 10 x"

fun std_W :: "uint8 list \<Rightarrow> nat \<Rightarrow> uint32" where
  "std_W blk t =
     (if t < 16 then be_word (take 4 (drop (4 * t) blk))
      else std_sigma1 (std_W blk (t - 2)) + std_W blk (t - 7)
         + std_sigma0 (std_W blk (t - 15)) + std_W blk (t - 16))"

declare std_W.simps [simp del]

primrec std_rounds :: "uint8 list \<Rightarrow> sha_vars \<Rightarrow> nat \<Rightarrow> sha_vars" where
  "std_rounds blk v 0 = v"
| "std_rounds blk v (Suc t) =
     (case std_rounds blk v t of (a, b, c, d, e, f, g, h) \<Rightarrow>
        let T1 = h + std_Sigma1 e + std_Ch e f g + sha256_k ! t + std_W blk t;
            T2 = std_Sigma0 a + std_Maj a b c
        in (T1 + T2, a, b, c, d + T1, e, f, g))"

definition std_compress :: "sha_vars \<Rightarrow> uint8 list \<Rightarrow> sha_vars" where
  "std_compress H blk =
     (case H of (h0, h1, h2, h3, h4, h5, h6, h7) \<Rightarrow>
      case std_rounds blk H 64 of (a, b, c, d, e, f, g, h) \<Rightarrow>
        (h0 + a, h1 + b, h2 + c, h3 + d, h4 + e, h5 + f, h6 + g, h7 + h))"

definition std_H0 :: sha_vars where
  "std_H0 = (0x6a09e667, 0xbb67ae85, 0x3c6ef372, 0xa54ff53a,
             0x510e527f, 0x9b05688c, 0x1f83d9ab, 0x5be0cd19)"

fun blocks64 :: "'a list \<Rightarrow> 'a list list" where
  "blocks64 xs = (if length xs < 64 then [] else take 64 xs # blocks64 (drop 64 xs))"

declare blocks64.simps [simp del]

definition std_padded :: "uint8 list \<Rightarrow> uint8 list" where
  "std_padded msg = msg @ [0x80] @ replicate ((119 - length msg mod 64) mod 64) 0
     @ be_bytes 8 (8 * length msg)"

definition std_digest :: "sha_vars \<Rightarrow> uint8 list" where
  "std_digest H = (case H of (h0, h1, h2, h3, h4, h5, h6, h7) \<Rightarrow>
     concat (map (\<lambda>w. be_bytes 4 (unat w)) [h0, h1, h2, h3, h4, h5, h6, h7]))"

definition SHA256 :: "uint8 list \<Rightarrow> uint8 list" where
  "SHA256 msg = std_digest (foldl std_compress std_H0 (blocks64 (std_padded msg)))"


section \<open>The compression function\<close>

lemma ROTRIGHT_rotr: "0 < b \<Longrightarrow> b < 32 \<Longrightarrow> ROTRIGHT a b = word_rotr b a"
proof (rule bit_eqI)
  fix n
  assume b: "0 < b" "b < 32" and "possible_bit TYPE(32 word) n"
  then have n: "n < 32" by simp
  show "bit (ROTRIGHT a b) n = bit (word_rotr b a) n"
  proof (cases "n + b < 32")
    case True
    with b n show ?thesis
      by (auto simp: ROTRIGHT_def bit_simps bit_word_rotr_iff add.commute)
  next
    case False
    then have "(n + b) mod 32 = n - (32 - b)"
      using b n by (simp add: mod_if)
    with b n False show ?thesis
      by (auto simp: ROTRIGHT_def bit_simps bit_word_rotr_iff dest: bit_imp_le_length)
  qed
qed

lemma sha_functions_std:
  "CH = std_Ch" "MAJ = std_Maj" "EP0 = std_Sigma0" "EP1 = std_Sigma1"
  "SIG0 = std_sigma0" "SIG1 = std_sigma1"
  by (auto simp: CH_def std_Ch_def MAJ_def std_Maj_def EP0_def std_Sigma0_def EP1_def
      std_Sigma1_def SIG0_def std_sigma0_def SIG1_def std_sigma1_def ROTRIGHT_rotr
      intro!: ext)

lemma or_bytes_eq_add:
  fixes a b c e :: uint8
  shows "(push_bit 24 (ucast a) OR push_bit 16 (ucast b) OR push_bit 8 (ucast c) OR ucast e :: uint32)
    = of_nat (unat e + 256 * (unat c + 256 * (unat b + 256 * unat a)))"
proof -
  let ?a = "push_bit 24 (ucast a) :: uint32" and ?b = "push_bit 16 (ucast b) :: uint32"
  let ?c = "push_bit 8 (ucast c) :: uint32" and ?e = "ucast e :: uint32"
  have 1: "?c AND ?e = 0"
    by (rule bit_eqI) (auto simp: bit_simps dest: bit_imp_le_length)
  have 2: "?b AND (?c OR ?e) = 0"
    by (rule bit_eqI) (auto simp: bit_simps dest: bit_imp_le_length)
  have 3: "?a AND (?b OR ?c OR ?e) = 0"
    by (rule bit_eqI) (auto simp: bit_simps dest: bit_imp_le_length)
  have "?a OR ?b OR ?c OR ?e = ?a + (?b + (?c + ?e))"
    using disjunctive_add_eq_or [OF 1] disjunctive_add_eq_or [OF 2] disjunctive_add_eq_or [OF 3]
    by simp
  also have "\<dots> = of_nat (unat e + 256 * (unat c + 256 * (unat b + 256 * unat a)))"
    by (simp add: push_bit_eq_mult unsigned_ucast_eq algebra_simps)
  finally show ?thesis .
qed

lemma load_word_be: "j + 3 < length d \<Longrightarrow> load_word d j = be_word (take 4 (drop j d))"
proof -
  assume "j + 3 < length d"
  then have "drop j d = d ! j # d ! Suc j # d ! Suc (Suc j) # d ! Suc (Suc (Suc j))
      # drop (Suc (Suc (Suc (Suc j)))) d"
    by (simp add: Cons_nth_drop_Suc)
  then have "take 4 (drop j d) = [d ! j, d ! (j + 1), d ! (j + 2), d ! (j + 3)]"
    by (simp add: eval_nat_numeral)
  then show ?thesis
    by (simp add: load_word_def be_word_def or_bytes_eq_add)
qed

lemma foldl_tabulate:
  "a \<le> b \<Longrightarrow> (\<And>i. a \<le> i \<Longrightarrow> i < b \<Longrightarrow> f (map g [0..<i]) i = g i) \<Longrightarrow>
   foldl (\<lambda>m i. m @ [f m i]) (map g [0..<a]) [a..<b] = map g [0..<b]"
proof (induction b)
  case 0
  then show ?case by simp
next
  case (Suc b)
  show ?case
  proof (cases "a = Suc b")
    case False
    with Suc have "foldl (\<lambda>m i. m @ [f m i]) (map g [0..<a]) [a..<b] = map g [0..<b]"
      by simp
    with Suc.prems False show ?thesis by simp
  qed simp
qed

lemma std_W_small: "t < 16 \<Longrightarrow> std_W d t = be_word (take 4 (drop (4 * t) d))"
  by (subst std_W.simps) simp

lemma std_W_large:
  "16 \<le> t \<Longrightarrow> std_W d t = std_sigma1 (std_W d (t - 2)) + std_W d (t - 7)
     + std_sigma0 (std_W d (t - 15)) + std_W d (t - 16)"
  by (subst std_W.simps) simp

lemma schedule_std:
  assumes "length d = 64"
  shows "sched_extend (sched_load d) = map (std_W d) [0..<64]"
proof -
  have "foldl (\<lambda>m i. m @ [load_word d (4 * i)]) (map (std_W d) [0..<0]) [0..<16]
      = map (std_W d) [0..<16]"
    by (rule foldl_tabulate) (use assms in \<open>simp_all add: load_word_be std_W_small\<close>)
  then have load: "sched_load d = map (std_W d) [0..<16]"
    by (simp only: sched_load_def upt_0 list.map)
  have "foldl (\<lambda>m i.
      m @ [SIG1 (m ! (i - 2)) + m ! (i - 7) + SIG0 (m ! (i - 15)) + m ! (i - 16)])
      (map (std_W d) [0..<16]) [16..<64] = map (std_W d) [0..<64]"
  proof (rule foldl_tabulate)
    fix i :: nat
    assume "16 \<le> i"
    then show "SIG1 (map (std_W d) [0..<i] ! (i - 2)) + map (std_W d) [0..<i] ! (i - 7)
        + SIG0 (map (std_W d) [0..<i] ! (i - 15)) + map (std_W d) [0..<i] ! (i - 16) = std_W d i"
      by (subst std_W_large) (simp_all add: sha_functions_std)
  qed simp
  then show ?thesis by (simp only: sched_extend_def load)
qed

lemma rounds_std:
  assumes "length d = 64" and "n \<le> 64"
  shows "foldl (sha_round (map (std_W d) [0..<64])) v [0..<n] = std_rounds d v n"
  using assms(2)
proof (induction n)
  case 0
  show ?case by simp
next
  case (Suc n)
  then have "map (std_W d) [0..<64] ! n = std_W d n" by simp
  with Suc show ?case
    by (simp only: upt_Suc_append foldl_append foldl.simps le0 Suc_leD std_rounds.simps
        sha_round_def sha_functions_std)
qed

definition vars_of :: "uint32 list \<Rightarrow> sha_vars" where
  "vars_of st = (st ! 0, st ! 1, st ! 2, st ! 3, st ! 4, st ! 5, st ! 6, st ! 7)"

lemma transform_compress:
  assumes "length d = 64"
  shows "vars_of (sha_state (sha256_transform ctx d)) = std_compress (vars_of (sha_state ctx)) d"
  by (simp only: sha256_transform_def schedule_std [OF assms] rounds_std [OF assms order_refl]
      std_compress_def vars_of_def Let_def prod.case split: prod.split) simp

lemma transform_frame [simp]:
  "sha_data (sha256_transform ctx d) = sha_data ctx"
  "datalen (sha256_transform ctx d) = datalen ctx"
  "bitlen (sha256_transform ctx d) = bitlen ctx"
  "length (sha_state (sha256_transform ctx d)) = 8"
  unfolding sha256_transform_def Let_def by (split prod.split, simp)+


section \<open>The context stands for the message fed so far\<close>

lemma blocks64_short: "length xs < 64 \<Longrightarrow> blocks64 xs = []"
  by (subst blocks64.simps) simp

lemma blocks64_append: "64 dvd length xs \<Longrightarrow> blocks64 (xs @ ys) = blocks64 xs @ blocks64 ys"
proof (induction xs rule: blocks64.induct)
  case (1 xs)
  show ?case
  proof (cases "length xs < 64")
    case True
    with 1 have "xs = []" by (auto dest: dvd_imp_le)
    then show ?thesis by (simp add: blocks64_short)
  next
    case False
    with 1 have "blocks64 (drop 64 xs @ ys) = blocks64 (drop 64 xs) @ blocks64 ys"
      by simp
    with False show ?thesis
      by (simp add: blocks64.simps [of "xs @ ys"] blocks64.simps [of xs])
  qed
qed

lemma blocks64_one: "length xs = 64 \<Longrightarrow> blocks64 xs = [xs]"
  by (subst blocks64.simps) (simp add: blocks64_short)

definition ctx_for :: "SHA256_CTX \<Rightarrow> uint8 list \<Rightarrow> bool" where
  "ctx_for ctx msg \<longleftrightarrow> (\<exists>pre tail. msg = pre @ tail \<and> 64 dvd length pre \<and> length tail < 64
     \<and> length (sha_data ctx) = 64 \<and> datalen ctx = of_nat (length tail)
     \<and> bitlen ctx = of_nat (8 * length pre) \<and> take (length tail) (sha_data ctx) = tail
     \<and> vars_of (sha_state ctx) = foldl std_compress std_H0 (blocks64 pre))"

lemma ctx_for_init: "length (sha_data ctx) = 64 \<Longrightarrow> ctx_for (sha256_init ctx) []"
  by (simp add: ctx_for_def sha256_init_def vars_of_def std_H0_def blocks64_short)

lemma unat_of_nat_uint32: "n < 2 ^ 32 \<Longrightarrow> unat (of_nat n :: uint32) = n"
  by (simp add: unat_of_nat)

lemma ctx_for_update_byte:
  assumes "ctx_for ctx msg"
  shows "ctx_for (sha256_update_byte ctx b) (msg @ [b])"
proof -
  from assms obtain pre tail where
    msg: "msg = pre @ tail" and pre: "64 dvd length pre" and tail: "length tail < 64"
    and data: "length (sha_data ctx) = 64" and dl: "datalen ctx = of_nat (length tail)"
    and bl: "bitlen ctx = of_nat (8 * length pre)"
    and buf: "take (length tail) (sha_data ctx) = tail"
    and st: "vars_of (sha_state ctx) = foldl std_compress std_H0 (blocks64 pre)"
    unfolding ctx_for_def by blast
  define d where "d = (sha_data ctx)[length tail := b]"
  have idx: "unat (datalen ctx) = length tail"
    using tail dl by (simp add: unat_of_nat_uint32)
  have next_dl: "datalen ctx + 1 = of_nat (length (tail @ [b]))"
    by (simp add: dl)
  have d: "length d = 64" "take (length (tail @ [b])) d = tail @ [b]"
    using data tail buf by (simp_all add: d_def take_Suc_conv_app_nth)
  have full: "datalen ctx + 1 = 64 \<longleftrightarrow> length (tail @ [b]) = 64"
  proof -
    have "datalen ctx + 1 = 64 \<longleftrightarrow> unat (datalen ctx + 1) = 64"
      by (simp add: word_unat_eq_iff)
    also have "unat (datalen ctx + 1) = length (tail @ [b])"
      unfolding next_dl using tail by (subst unat_of_nat_uint32) auto
    finally show ?thesis .
  qed
  show ?thesis
  proof (cases "length (tail @ [b]) = 64")
    case True
    with d have "d = tail @ [b]" by simp
    then have blocks: "blocks64 (pre @ tail @ [b]) = blocks64 pre @ [d]"
      using pre True by (simp add: blocks64_append blocks64_one)
    let ?c = "sha256_transform (ctx\<lparr>sha_data := d, datalen := 64\<rparr>) d"
    have upd: "sha256_update_byte ctx b = ?c\<lparr>bitlen := bitlen ctx + 512, datalen := 0\<rparr>"
      using True full by (simp add: sha256_update_byte_def Let_def idx d_def)
    have "vars_of (sha_state ?c) = foldl std_compress std_H0 (blocks64 (pre @ tail @ [b]))"
      using d st by (simp add: transform_compress blocks)
    moreover have "bitlen ctx + 512 = of_nat (8 * length (pre @ tail @ [b]))"
      using True bl by simp
    ultimately show ?thesis
      using True pre msg d unfolding ctx_for_def upd
      by (intro exI [of _ "pre @ tail @ [b]"] exI [of _ "[]"]) simp
  next
    case False
    with full have "sha256_update_byte ctx b = ctx\<lparr>sha_data := d, datalen := datalen ctx + 1\<rparr>"
      by (simp add: sha256_update_byte_def Let_def idx d_def)
    then have upd: "sha256_update_byte ctx b
        = ctx\<lparr>sha_data := d, datalen := of_nat (length (tail @ [b]))\<rparr>"
      by (simp only: next_dl)
    show ?thesis
      unfolding ctx_for_def upd
      by (rule exI [of _ pre], rule exI [of _ "tail @ [b]"])
        (use False pre msg d st bl tail in simp)
  qed
qed

section \<open>Padding, length and digest\<close>

lemma zero_fill_eq:
  "i + n \<le> length d \<Longrightarrow> zero_fill d i n = take i d @ replicate n 0 @ drop (i + n) d"
proof (induction n arbitrary: d i)
  case 0
  show ?case by simp
next
  case (Suc n)
  then have "zero_fill d i (Suc n)
      = take (Suc i) (d[i := 0]) @ replicate n 0 @ drop (Suc i + n) (d[i := 0])"
    by simp
  moreover have "take (Suc i) (d[i := 0]) = take i d @ [0]"
    using Suc.prems by (simp add: take_Suc_conv_app_nth)
  ultimately show ?case using Suc.prems by simp
qed

lemma byte_of_uint64:
  "k + 8 \<le> 64 \<Longrightarrow> (ucast (drop_bit k (of_nat x :: uint64)) :: uint8) = of_nat (x div 2 ^ k)"
  by (rule bit_eqI) (auto simp: bit_simps simp flip: drop_bit_eq_div)

lemma byte_of_uint32:
  "k + 8 \<le> 32 \<Longrightarrow>
   (ucast (drop_bit k w AND 0xff :: uint32) :: uint8) = of_nat (unat w div 2 ^ k)"
proof -
  assume k: "k + 8 \<le> 32"
  have ff: "(0xff :: uint32) = mask 8" by (simp add: mask_eq_exp_minus_1)
  from k show ?thesis
    unfolding ff by (intro bit_eqI) (auto simp: bit_simps simp flip: drop_bit_eq_div)
qed

lemma list8_cases:
  "length xs = 8 \<Longrightarrow> \<exists>a b c d e f g h. xs = [a, b, c, d, e, f, g, h]"
  by (auto simp: numeral_eq_Suc length_Suc_conv)

lemma be_bytes_8:
  "be_bytes 8 x = [of_nat (x div 2 ^ 56), of_nat (x div 2 ^ 48), of_nat (x div 2 ^ 40),
     of_nat (x div 2 ^ 32), of_nat (x div 2 ^ 24), of_nat (x div 2 ^ 16), of_nat (x div 2 ^ 8),
     of_nat x]"
  by (simp add: be_bytes_def nat_le_eq_map upt_rec)

lemma update_last8:
  assumes "length d = 64"
  shows "d[63 := b63, 62 := b62, 61 := b61, 60 := b60, 59 := b59, 58 := b58, 57 := b57, 56 := b56]
    = take 56 d @ [b56, b57, b58, b59, b60, b61, b62, b63]"
proof -
  define p where "p = take 56 d"
  have "length (drop 56 d) = 8" using assms by simp
  then obtain x0 x1 x2 x3 x4 x5 x6 x7 where "drop 56 d = [x0, x1, x2, x3, x4, x5, x6, x7]"
    using list8_cases by blast
  then have "d = p @ [x0, x1, x2, x3, x4, x5, x6, x7]"
    unfolding p_def by (metis append_take_drop_id)
  moreover have "length p = 56" using assms by (simp add: p_def)
  ultimately show ?thesis by (simp add: list_update_append)
qed

lemma sha256_length_data:
  assumes "length (sha_data ctx) = 64" and "t < 64" and "datalen ctx = of_nat t"
    and "bitlen ctx = of_nat (8 * n)"
  shows "sha_data (sha256_length ctx) = take 56 (sha_data ctx) @ be_bytes 8 (8 * (n + t))"
proof -
  have "(of_nat t * 8 :: uint32) = of_nat (8 * t)" by simp
  moreover have "(ucast (of_nat (8 * t) :: uint32) :: uint64) = of_nat (8 * t)"
    using assms(2) by (simp only: unsigned_of_nat) (simp add: take_bit_nat_eq_self)
  ultimately have bl: "bitlen ctx + ucast (datalen ctx * 8) = of_nat (8 * (n + t))"
    by (simp only: assms(3,4)) simp
  have low: "(ucast (of_nat x :: uint64) :: uint8) = of_nat x" for x
    using byte_of_uint64 [of 0 x] by simp
  show ?thesis
    by (simp only: sha256_length_def Let_def bl SHA256_CTX.simps update_last8 [OF assms(1)]
        byte_of_uint64 low be_bytes_8) (simp add: byte_of_uint64 del: of_nat_mult of_nat_add)
qed


lemma sha256_output_digest: "sha256_output st = std_digest (vars_of st)"
proof -
  have be4: "be_bytes 4 (unat w) = [ucast (drop_bit 24 w AND 0xff), ucast (drop_bit 16 w AND 0xff),
      ucast (drop_bit 8 w AND 0xff), ucast (w AND 0xff)]" for w :: uint32
    using byte_of_uint32 [of 24 w] byte_of_uint32 [of 16 w] byte_of_uint32 [of 8 w]
      byte_of_uint32 [of 0 w]
    by (simp add: be_bytes_def nat_le_eq_map upt_rec)
  show ?thesis
    by (simp add: sha256_output_def std_digest_def vars_of_def be4 upt_rec)
qed

lemma padded_append: "64 dvd length pre \<Longrightarrow>
  std_padded (pre @ tail) = pre @ tail @ [0x80] @ replicate ((119 - length tail mod 64) mod 64) 0
     @ be_bytes 8 (8 * (length pre + length tail))"
  by (auto simp: std_padded_def mod_add_eq elim!: dvdE)

lemma pad_short:
  assumes "length (sha_data ctx) = 64" and "length tail < 56"
    and "datalen ctx = of_nat (length tail)" and "take (length tail) (sha_data ctx) = tail"
  shows "sha256_pad ctx = ctx\<lparr>sha_data := tail @ [0x80] @ replicate (55 - length tail) 0
           @ drop 56 (sha_data ctx)\<rparr>"
proof -
  have idx: "unat (datalen ctx) = length tail"
    using assms by (simp add: unat_of_nat_uint32)
  have "take (Suc (length tail)) ((sha_data ctx)[length tail := 0x80]) = tail @ [0x80]"
    using assms by (simp add: take_Suc_conv_app_nth)
  moreover have "datalen ctx < 56"
    using assms(2) idx by (simp add: word_less_nat_alt)
  ultimately show ?thesis
    using assms(1,2) by (simp add: sha256_pad_def idx Let_def zero_fill_eq)
qed

lemma pad_long:
  assumes "length (sha_data ctx) = 64" and "56 \<le> length tail" "length tail < 64"
    and "datalen ctx = of_nat (length tail)" and "take (length tail) (sha_data ctx) = tail"
  defines "blk \<equiv> tail @ [0x80] @ replicate (63 - length tail) 0"
  shows "sha256_pad ctx =
    (sha256_transform (ctx\<lparr>sha_data := blk\<rparr>) blk)\<lparr>sha_data := replicate 56 0 @ drop 56 blk\<rparr>"
proof -
  have idx: "unat (datalen ctx) = length tail"
    using assms by (simp add: unat_of_nat_uint32)
  have "take (Suc (length tail)) ((sha_data ctx)[length tail := 0x80]) = tail @ [0x80]"
    using assms by (simp add: take_Suc_conv_app_nth)
  then have fill: "zero_fill ((sha_data ctx)[length tail := 0x80]) (Suc (length tail))
      (63 - length tail) = blk"
    using assms(1,2,3) by (simp add: zero_fill_eq blk_def)
  have "\<not> datalen ctx < 56"
    using assms(2) idx by (simp add: word_less_nat_alt)
  moreover have "length blk = 64"
    using assms(3) by (simp add: blk_def)
  ultimately show ?thesis
    by (simp add: sha256_pad_def idx Let_def fill zero_fill_eq)
qed

lemma sha256_final_digest:
  assumes "ctx_for ctx msg"
  shows "fst (sha256_final ctx) = SHA256 msg"
proof -
  from assms obtain pre tail where
    msg: "msg = pre @ tail" and pre: "64 dvd length pre" and tail: "length tail < 64"
    and data: "length (sha_data ctx) = 64" and dl: "datalen ctx = of_nat (length tail)"
    and bl: "bitlen ctx = of_nat (8 * length pre)"
    and buf: "take (length tail) (sha_data ctx) = tail"
    and st: "vars_of (sha_state ctx) = foldl std_compress std_H0 (blocks64 pre)"
    unfolding ctx_for_def by blast
  let ?len = "be_bytes 8 (8 * (length pre + length tail))"
  have len8: "length ?len = 8" by (simp add: be_bytes_def)
  have out: "fst (sha256_final ctx) = std_digest (std_compress
      (vars_of (sha_state (sha256_pad ctx))) (take 56 (sha_data (sha256_pad ctx)) @ ?len))"
    if "length (sha_data (sha256_pad ctx)) = 64" "datalen (sha256_pad ctx) = datalen ctx"
      "bitlen (sha256_pad ctx) = bitlen ctx"
  proof -
    let ?c = "sha256_length (sha256_pad ctx)"
    have d: "sha_data ?c = take 56 (sha_data (sha256_pad ctx)) @ ?len"
      by (rule sha256_length_data) (use that tail dl bl in auto)
    moreover have "length (sha_data ?c) = 64"
      using that len8 d by simp
    moreover have "sha_state ?c = sha_state (sha256_pad ctx)"
      by (simp add: sha256_length_def Let_def)
    ultimately show ?thesis
      by (simp add: sha256_final_def Let_def sha256_output_digest transform_compress)
  qed
  show ?thesis
  proof (cases "length tail < 56")
    case True
    let ?blk = "tail @ [0x80] @ replicate (55 - length tail) 0 @ ?len"
    have pad: "sha256_pad ctx = ctx\<lparr>sha_data := tail @ [0x80] @ replicate (55 - length tail) 0
        @ drop 56 (sha_data ctx)\<rparr>"
      using data True dl buf by (rule pad_short)
    have "56 - length tail = Suc (55 - length tail)"
      using True by simp
    then have data56: "take 56 (sha_data (sha256_pad ctx)) @ ?len = ?blk"
      by (simp add: pad)
    have "(119 - length tail) mod 64 = 55 - length tail"
      using True by (simp add: mod_if)
    then have "std_padded msg = pre @ ?blk"
      using pre tail by (simp add: msg padded_append)
    moreover have "blocks64 (pre @ ?blk) = blocks64 pre @ [?blk]"
      using pre True len8 by (simp add: blocks64_append blocks64_one)
    moreover have "fst (sha256_final ctx) = std_digest (std_compress
        (vars_of (sha_state ctx)) ?blk)"
      using out data56 True data by (simp add: pad)
    ultimately show ?thesis
      using st by (simp add: SHA256_def)
  next
    case False
    then have "56 \<le> length tail" by simp
    define blk where "blk = tail @ [0x80] @ replicate (63 - length tail) (0 :: uint8)"
    have blk64: "length blk = 64" using tail by (simp add: blk_def)
    have pad: "sha256_pad ctx =
      (sha256_transform (ctx\<lparr>sha_data := blk\<rparr>) blk)\<lparr>sha_data := replicate 56 0 @ drop 56 blk\<rparr>"
      unfolding blk_def using data \<open>56 \<le> length tail\<close> tail dl buf by (rule pad_long)
    have "(119 - length tail) mod 64 = (63 - length tail) + 56"
      using False tail by (simp add: mod_if)
    then have "std_padded msg = pre @ blk @ replicate 56 0 @ ?len"
      using pre tail by (simp add: msg padded_append blk_def replicate_add [symmetric])
    moreover have "blocks64 (pre @ blk @ replicate 56 0 @ ?len)
        = blocks64 pre @ [blk, replicate 56 0 @ ?len]"
      using pre blk64 len8 by (simp add: blocks64_append blocks64_one)
    ultimately show ?thesis
      using blk64 st by (simp add: out pad SHA256_def transform_compress)
  qed
qed


section \<open>The streaming interface\<close>

text \<open>
  What the measuring code relies on: a predicate that ties the context to the bytes consumed, an
  initial context for the empty message, one step per byte, and a final step that yields the
  digest of the whole.
\<close>

locale stream_hash =
  fixes start :: "'c \<Rightarrow> 'c"
    and step :: "'c \<Rightarrow> 'b \<Rightarrow> 'c"
    and result :: "'c \<Rightarrow> 'd"
    and digest :: "'b list \<Rightarrow> 'd"
    and usable :: "'c \<Rightarrow> bool"
    and consumed :: "'c \<Rightarrow> 'b list \<Rightarrow> bool"
  assumes start_law: "usable c \<Longrightarrow> consumed (start c) []"
    and step_law: "consumed c bs \<Longrightarrow> consumed (step c b) (bs @ [b])"
    and result_law: "consumed c bs \<Longrightarrow> result c = digest bs"
begin

lemma consumed_foldl: "consumed c bs \<Longrightarrow> consumed (foldl step c cs) (bs @ cs)"
proof (induction cs arbitrary: c bs)
  case (Cons b cs)
  from Cons.IH [OF step_law [OF Cons.prems, of b]] show ?case by simp
qed simp

lemma consumed_chunks:
  "consumed c bs \<Longrightarrow> consumed (foldl (foldl step) c css) (bs @ concat css)"
proof (induction css arbitrary: c bs)
  case (Cons cs css)
  from Cons.IH [OF consumed_foldl [OF Cons.prems, of cs]] show ?case by simp
qed simp

text \<open>The digest depends on the bytes only, not on how they are cut into calls.\<close>

lemma digest_of_chunks:
  "usable c \<Longrightarrow> result (foldl (foldl step) (start c) css) = digest (concat css)"
  using result_law [OF consumed_chunks [OF start_law]] by simp

end

definition ctx_usable :: "SHA256_CTX \<Rightarrow> bool" where
  "ctx_usable ctx \<longleftrightarrow> length (sha_data ctx) = 64"

interpretation sha: stream_hash sha256_init sha256_update_byte "\<lambda>c. fst (sha256_final c)"
  SHA256 ctx_usable ctx_for
  by unfold_locales
    (auto simp: ctx_usable_def intro: ctx_for_init ctx_for_update_byte sha256_final_digest)

section \<open>Properties\<close>

text \<open>
  C6. The compression step of \<open>sha256_transform\<close> (byte loading, message schedule, 64 rounds,
  final additions, all modulo \<open>2 ^ 32\<close>) is the standard's compression function, for any context
  and any 64-byte block; the rest of the context is untouched.
\<close>

theorem sha256_transform_std:
  "length d = 64 \<Longrightarrow>
   vars_of (sha_state (sha256_transform ctx d)) = std_compress (vars_of (sha_state ctx)) d
   \<and> sha_data (sha256_transform ctx d) = sha_data ctx
   \<and> datalen (sha256_transform ctx d) = datalen ctx
   \<and> bitlen (sha256_transform ctx d) = bitlen ctx"
  by (simp add: transform_compress)

text \<open>A context as the zero-initialised global \<open>sha256_ctx\<close> is.\<close>

definition zero_ctx :: SHA256_CTX where
  "zero_ctx = \<lparr>sha_data = replicate 64 0, datalen = 0, bitlen = 0, sha_state = replicate 8 0\<rparr>"

theorem sha256_transform_std_witness:
  "vars_of (sha_state (sha256_transform zero_ctx (replicate 64 7)))
     = std_compress (vars_of (sha_state zero_ctx)) (replicate 64 7)
   \<and> datalen (sha256_transform zero_ctx (replicate 64 7)) = datalen zero_ctx"
  using sha256_transform_std [of "replicate 64 7" zero_ctx] by simp

text \<open>A message fed by successive calls of \<open>sha256_update\<close>, as the bootloader does.\<close>

definition sha256_feed :: "SHA256_CTX \<Rightarrow> uint8 list list \<Rightarrow> SHA256_CTX res" where
  "sha256_feed ctx chunks =
     foldl (\<lambda>r d. bnd r (\<lambda>c. sha256_update c d (of_nat (length d)))) (Ok ctx) chunks"

lemma sha256_update_Ok:
  "length d < 2 ^ 32 \<Longrightarrow>
   sha256_update ctx d (of_nat (length d)) = Ok (foldl sha256_update_byte ctx d)"
  by (simp add: sha256_update_def word_less_nat_alt unat_of_nat)

lemma sha256_feed_Ok:
  "\<forall>d\<in>set chunks. length d < 2 ^ 32 \<Longrightarrow>
   sha256_feed ctx chunks = Ok (foldl (foldl sha256_update_byte) ctx chunks)"
  unfolding sha256_feed_def
  by (induction chunks arbitrary: ctx) (auto simp: sha256_update_Ok)

text \<open>
  C5. Initialising a context, feeding a message in any number of pieces (each below \<open>2 ^ 32\<close>
  bytes, so that every call of \<open>sha256_update\<close> returns) and finishing yields the standard's
  digest of the concatenated message: the result does not depend on the cuts, and every call
  returns.
\<close>

theorem sha256_streaming:
  assumes "length (sha_data ctx) = 64" and "\<forall>d\<in>set chunks. length d < 2 ^ 32"
  shows "\<exists>ctx'. sha256_feed (sha256_init ctx) chunks = Ok ctx'
           \<and> fst (sha256_final ctx') = SHA256 (concat chunks)"
  using sha.digest_of_chunks [of ctx chunks] assms
  by (simp add: sha256_feed_Ok ctx_usable_def)

theorem sha256_streaming_witness:
  "\<exists>ctx'. sha256_feed (sha256_init zero_ctx) [[1, 2], [], replicate 100 3] = Ok ctx'
     \<and> fst (sha256_final ctx') = SHA256 ([1, 2] @ replicate 100 3)"
  using sha256_streaming [of zero_ctx "[[1, 2], [], replicate 100 3]"] by (simp add: zero_ctx_def)

text \<open>
  The known answer of the standard for the message \<open>abc\<close>, computed by the implementation
  model inside the kernel.
\<close>

theorem sha256_abc:
  "(case sha256_update (sha256_init zero_ctx) [0x61, 0x62, 0x63] 3 of
      Ok c \<Rightarrow> fst (sha256_final c) | _ \<Rightarrow> [])
   = [0xba, 0x78, 0x16, 0xbf, 0x8f, 0x01, 0xcf, 0xea, 0x41, 0x41, 0x40, 0xde, 0x5d, 0xae,
         0x22, 0x23, 0xb0, 0x03, 0x61, 0xa3, 0x96, 0x17, 0x7a, 0x9c, 0xb4, 0x10, 0xff, 0x61,
         0xf2, 0x00, 0x15, 0xad]"
  by code_simp

end
