(* ===== verification/Boot.thy ===== *)
theory Boot
  imports Cstring Sha256
begin

text \<open>
  The bootloader: \<open>bootloader/elf.c\<close> (reading the kernel's ELF headers), \<open>bootloader/load.c\<close>
  (copying one block of a kernel image) and \<open>bootloader/start.c\<close> (measuring, loading and entering
  the kernel). Physical memory is one flat memory holding the two images, the system information
  table and the array \<open>trusted_kernel_hash\<close> of the bootloader. The other globals of the bootloader, its
  stack and its code lie in memory too, but are objects of their own here: the memory an image is
  copied to is chosen by the image, and a copy that hits the memory of the bootloader clears the
  flag \<open>bl_intact\<close>. From then on the model says nothing about the machine.
\<close>

section \<open>Layout\<close>

datatype kernel = NORMAL | RECOVERY

abbreviation BSIZE :: nat where "BSIZE \<equiv> 1024"
abbreviation FSSIZE :: nat where "FSSIZE \<equiv> 2000"

definition RAMDISK :: addr where "RAMDISK = 0x84000000"
definition RECOVERYDISK :: addr where "RECOVERYDISK = 0x84500000"
definition SYS_INFO :: addr where "SYS_INFO = 0x80080000"
definition KERNBASE_bl :: addr where "KERNBASE_bl = 0x80000000"
definition PHYSTOP_bl :: addr where "PHYSTOP_bl = 0x80000000 + 128 * 1024 * 1024"

definition disk_base :: "kernel \<Rightarrow> addr" where
  "disk_base k = (case k of NORMAL \<Rightarrow> RAMDISK | RECOVERY \<Rightarrow> RECOVERYDISK)"

text \<open>The fields of \<open>struct elfhdr\<close> and \<open>struct proghdr\<close>, read at their C offsets.\<close>

record elfhdr =
  magic :: uint32
  elf_entry :: uint64
  phoff :: uint64
  shoff :: uint64
  phentsize :: uint16
  phnum :: uint16
  shentsize :: uint16
  shnum :: uint16

definition read_elfhdr :: "memory \<Rightarrow> addr \<Rightarrow> elfhdr" where
  "read_elfhdr m a = \<lparr>magic = load32 m a, elf_entry = load64 m (a + 24), phoff = load64 m (a + 32),
     shoff = load64 m (a + 40), phentsize = load16 m (a + 54), phnum = load16 m (a + 56),
     shentsize = load16 m (a + 58), shnum = load16 m (a + 60)\<rparr>"

record proghdr =
  ph_type :: uint32
  ph_flags :: uint32
  ph_off :: uint64
  ph_vaddr :: uint64
  ph_filesz :: uint64
  ph_memsz :: uint64

definition read_proghdr :: "memory \<Rightarrow> addr \<Rightarrow> proghdr" where
  "read_proghdr m a = \<lparr>ph_type = load32 m a, ph_flags = load32 m (a + 4), ph_off = load64 m (a + 8),
     ph_vaddr = load64 m (a + 16), ph_filesz = load64 m (a + 32), ph_memsz = load64 m (a + 40)\<rparr>"

text \<open>The machine as the bootloader sees it, and its \<open>struct buf\<close>.\<close>

record boot =
  bmem :: memory
  mhartid :: uint64
  mepc :: uint64
  reg_tp :: uint64
  reg_ra :: uint64
  sys_info_ptr :: addr
  kernel_elfhdr :: addr
  kernel_phdr :: addr
  sha256_ctx :: SHA256_CTX
  bl_intact :: bool

record bl_buf =
  bl_valid :: int
  bl_blockno :: uint32
  bl_data :: "uint8 list"

text \<open>
  What the linker decides: the address of \<open>_entry\<close>, of \<open>panic\<close>, of the variable \<open>end\<close>, of the array
  \<open>trusted_kernel_hash\<close>, and the address after the last variable. The memory of the bootloader starts
  at \<open>0x80000000\<close> (\<open>bootloader.ld\<close>).
\<close>

record bl_symbols =
  sym_entry :: addr
  sym_panic :: addr
  sym_end :: addr
  sym_hash :: addr
  bl_limit :: addr

definition bl_size :: "bl_symbols \<Rightarrow> nat" where
  "bl_size syms = unat (bl_limit syms - KERNBASE_bl)"

text \<open>Two ranges are disjoint when neither starts in the other.\<close>

definition off_bootloader :: "bl_symbols \<Rightarrow> addr \<Rightarrow> nat \<Rightarrow> bool" where
  "off_bootloader syms a n \<longleftrightarrow> \<not> within a n KERNBASE_bl \<and> \<not> within KERNBASE_bl (bl_size syms) a"

text \<open>\<open>measurements.h\<close>: the initial contents of the array are chosen when the bootloader is built.\<close>

datatype kernel_version = KERNEL1 | KERNEL2 | KERNEL3 | KERNEL4 | KERNELPMP1 | KERNELPMP2

definition trusted_kernel_hash :: "kernel_version \<Rightarrow> uint8 list" where
  "trusted_kernel_hash v =
     (if v = KERNEL1 then
        [0xfd, 0x90, 0x58, 0x24, 0x77, 0x47, 0xaa, 0xaf, 0xe5, 0x4b, 0x88, 0xbe, 0xe8, 0xa4, 0xc0,
         0x2d, 0x1f, 0xa7, 0x8c, 0x29, 0x04, 0xb4, 0xcd, 0xec, 0x6c, 0x45, 0xd5, 0xf8, 0xfb, 0x31,
         0x93, 0x08]
      else replicate 32 0)"

section \<open>Operations\<close>

definition find_kernel_load_addr :: "kernel \<Rightarrow> boot \<Rightarrow> uint64 \<times> boot" where
  "find_kernel_load_addr k s =
     (let s = s\<lparr>kernel_elfhdr := disk_base k\<rparr>;
          hdr = read_elfhdr (bmem s) (kernel_elfhdr s);
          text_phdr_addr = disk_base k + phoff hdr + ucast (phentsize hdr);
          s = s\<lparr>kernel_phdr := text_phdr_addr\<rparr>
      in (ph_vaddr (read_proghdr (bmem s) (kernel_phdr s)), s))"

text \<open>
  \<open>shentsize * shnum\<close> multiplies two promoted \<open>ushort\<close>s as 32-bit \<open>int\<close>s; the product is
  sign-extended when it is stored in a \<open>uint64\<close>.
\<close>

definition find_kernel_size :: "kernel \<Rightarrow> boot \<Rightarrow> uint64 \<times> boot" where
  "find_kernel_size k s =
     (let s = s\<lparr>kernel_elfhdr := disk_base k\<rparr>;
          hdr = read_elfhdr (bmem s) (kernel_elfhdr s);
          size_of_section_headers = scast (ucast (shentsize hdr) * ucast (shnum hdr) :: uint32)
      in (shoff hdr + size_of_section_headers, s))"

definition find_kernel_entry_addr :: "kernel \<Rightarrow> boot \<Rightarrow> uint64 \<times> boot" where
  "find_kernel_entry_addr k s =
     (let s = s\<lparr>kernel_elfhdr := disk_base k\<rparr>
      in (elf_entry (read_elfhdr (bmem s) (kernel_elfhdr s)), s))"

definition kernel_copy :: "kernel \<Rightarrow> bl_buf \<Rightarrow> boot \<Rightarrow> bl_buf res" where
  "kernel_copy k b s =
     (if bl_blockno b \<ge> of_nat FSSIZE then Panic ''ramdiskrw: blockno too big''
      else let diskaddr = ucast (bl_blockno b * of_nat BSIZE) :: uint64
           in Ok (b\<lparr>bl_data := load_bytes (bmem s) (disk_base k + diskaddr) BSIZE, bl_valid := 1\<rparr>))"

text \<open>
  \<open>memmove((void*)load_addr + ((i - 4) * BSIZE), b.data, BSIZE)\<close>: the source is the local
  buffer, the destination any memory.
\<close>

definition place_block :: "bl_symbols \<Rightarrow> uint64 \<Rightarrow> nat \<Rightarrow> bl_buf \<Rightarrow> boot \<Rightarrow> boot" where
  "place_block syms load_addr i b s =
     (let dst = load_addr + of_nat ((i - 4) * BSIZE)
      in s\<lparr>bmem := store_bytes (bmem s) dst (bl_data b), bl_intact := (bl_intact s \<and> off_bootloader syms dst BSIZE)\<rparr>)"

text \<open>One pass of the loading loops of \<open>setup_recovery_kernel\<close> and \<open>start\<close>.\<close>

definition load_pass :: "bl_symbols \<Rightarrow> kernel \<Rightarrow> uint64 \<Rightarrow> nat \<Rightarrow> bl_buf \<times> boot \<Rightarrow> (bl_buf \<times> boot) res" where
  "load_pass syms k load_addr i = (\<lambda>(b, s).
     if i < 4 then Ok (b, s)
     else bnd (kernel_copy k (b\<lparr>bl_blockno := of_nat i\<rparr>) s)
            (\<lambda>b. Ok (b, place_block syms load_addr i b s)))"

definition setup_recovery_kernel :: "bl_symbols \<Rightarrow> bl_buf \<Rightarrow> boot \<Rightarrow> boot res" where
  "setup_recovery_kernel syms b s =
     (let (rec_kernel_load_addr, s) = find_kernel_load_addr RECOVERY s;
          (rec_kernel_binary_size, s) = find_kernel_size RECOVERY s;
          rec_num_blocks = rec_kernel_binary_size div of_nat BSIZE
      in bnd (for_upto 0 (unat rec_num_blocks) (load_pass syms RECOVERY rec_kernel_load_addr) (b, s))
           (\<lambda>(b, s).
             let (rec_kernel_entry, s) = find_kernel_entry_addr RECOVERY s
             in Ok (s\<lparr>mepc := rec_kernel_entry\<rparr>)))"

text \<open>One pass of the measuring loop of \<open>is_secure_boot\<close>.\<close>

definition measure_pass :: "bl_symbols \<Rightarrow> uint64 \<Rightarrow> nat \<Rightarrow> bl_buf \<times> boot \<Rightarrow> (bl_buf \<times> boot) res" where
  "measure_pass syms load_addr i = (\<lambda>(b, s).
     bnd (kernel_copy NORMAL (b\<lparr>bl_blockno := of_nat i\<rparr>) s) (\<lambda>b.
     let s = (if i < 4 then s else place_block syms load_addr i b s) in
     bnd (sha256_update (sha256_ctx s) (bl_data b) (of_nat BSIZE)) (\<lambda>c.
     Ok (b, s\<lparr>sha256_ctx := c\<rparr>))))"

text \<open>The two measurement fields of the system information table.\<close>

definition expected_field :: "boot \<Rightarrow> addr" where
  "expected_field s = sys_info_ptr s + 32"

definition observed_field :: "boot \<Rightarrow> addr" where
  "observed_field s = sys_info_ptr s + 64"

definition is_secure_boot :: "bl_symbols \<Rightarrow> bl_buf \<Rightarrow> boot \<Rightarrow> (bool \<times> boot) res" where
  "is_secure_boot syms b s =
     (let s = s\<lparr>sha256_ctx := sha256_init (sha256_ctx s)\<rparr>;
          (kernel_load_addr, s) = find_kernel_load_addr NORMAL s;
          (kernel_binary_size, s) = find_kernel_size NORMAL s;
          num_blocks = kernel_binary_size div of_nat BSIZE
      in bnd (for_upto 0 (unat num_blocks) (measure_pass syms kernel_load_addr) (b, s)) (\<lambda>(b, s).
         let rem_size = kernel_binary_size - of_nat BSIZE * num_blocks in
         bnd (kernel_copy NORMAL (b\<lparr>bl_blockno := ucast num_blocks\<rparr>) s) (\<lambda>b.
         bnd (sha256_update (sha256_ctx s) (bl_data b) rem_size) (\<lambda>c.
         let (hash, c) = sha256_final c;
             s = s\<lparr>sha256_ctx := c, bmem := store_bytes (bmem s) (observed_field s) hash\<rparr>;
             s = s\<lparr>bmem := memcpy (bmem s) (expected_field s) (sym_hash syms) 32\<rparr>
         in Ok (memcmp (bmem s) (observed_field s) (expected_field s) 32 = 0, s)))))"

text \<open>
  \<open>start\<close> either returns to \<open>entry.S\<close> (verification failed) or jumps to the kernel's entry
  point. \<open>(uint64)end\<close> is the value of the variable \<open>end\<close> of \<open>defs.h\<close>, eight bytes of memory.
\<close>

datatype boot_exit = Return | Jump addr

definition start :: "bl_symbols \<Rightarrow> bl_buf \<Rightarrow> boot \<Rightarrow> (boot_exit \<times> boot) res" where
  "start syms b s =
     (let s = s\<lparr>sys_info_ptr := SYS_INFO\<rparr>;
          s = s\<lparr>reg_tp := scast (ucast (mhartid s) :: uint32)\<rparr>
      in bnd (is_secure_boot syms b s) (\<lambda>(secure, s).
         if \<not> secure then Ok (Return, s)
         else
           let (kernel_load_addr, s) = find_kernel_load_addr NORMAL s;
               (kernel_binary_size, s) = find_kernel_size NORMAL s;
               num_blocks = kernel_binary_size div of_nat FSSIZE
           in bnd (for_upto 0 (unat num_blocks) (load_pass syms NORMAL kernel_load_addr) (b, s))
                (\<lambda>(b, s).
                let (kernel_entry, s) = find_kernel_entry_addr NORMAL s;
                    s = s\<lparr>mepc := kernel_entry\<rparr>;
                    s = s\<lparr>bmem := store64 (bmem s) (sys_info_ptr s) (sym_entry syms)\<rparr>;
                    s = s\<lparr>bmem := store64 (bmem s) (sys_info_ptr s + 8)
                                    (load64 (bmem s) (sym_end syms))\<rparr>;
                    s = s\<lparr>bmem := store64 (bmem s) (sys_info_ptr s + 16) 0x80000000\<rparr>;
                    s = s\<lparr>bmem := store64 (bmem s) (sys_info_ptr s + 24) PHYSTOP_bl\<rparr>;
                    s = s\<lparr>reg_ra := sym_panic syms\<rparr>;
                    (kernel_entry, s) = find_kernel_entry_addr NORMAL s
                in Ok (Jump kernel_entry, s))))"

section \<open>What the headers of an image say\<close>

definition image_phdr :: "kernel \<Rightarrow> memory \<Rightarrow> addr" where
  "image_phdr k m =
     (let hdr = read_elfhdr m (disk_base k)
      in disk_base k + phoff hdr + ucast (phentsize hdr))"

definition image_load_addr :: "kernel \<Rightarrow> memory \<Rightarrow> uint64" where
  "image_load_addr k m = ph_vaddr (read_proghdr m (image_phdr k m))"

definition image_size :: "kernel \<Rightarrow> memory \<Rightarrow> uint64" where
  "image_size k m =
     (let hdr = read_elfhdr m (disk_base k)
      in shoff hdr + scast (ucast (shentsize hdr) * ucast (shnum hdr) :: uint32))"

definition image_entry :: "kernel \<Rightarrow> memory \<Rightarrow> uint64" where
  "image_entry k m = elf_entry (read_elfhdr m (disk_base k))"

definition image_blocks :: "kernel \<Rightarrow> memory \<Rightarrow> nat" where
  "image_blocks k m = unat (image_size k m) div BSIZE"

definition image_bytes :: "kernel \<Rightarrow> memory \<Rightarrow> uint8 list" where
  "image_bytes k m = load_bytes m (disk_base k) (unat (image_size k m))"

definition image_block :: "kernel \<Rightarrow> memory \<Rightarrow> nat \<Rightarrow> uint8 list" where
  "image_block k m i = load_bytes m (disk_base k + of_nat (i * BSIZE)) BSIZE"

lemma find_kernel_load_addr_eq:
  "find_kernel_load_addr k s = (image_load_addr k (bmem s),
     s\<lparr>kernel_elfhdr := disk_base k, kernel_phdr := image_phdr k (bmem s)\<rparr>)"
  by (simp add: find_kernel_load_addr_def image_load_addr_def image_phdr_def Let_def)

lemma find_kernel_size_eq:
  "find_kernel_size k s = (image_size k (bmem s), s\<lparr>kernel_elfhdr := disk_base k\<rparr>)"
  by (simp add: find_kernel_size_def image_size_def Let_def)

lemma find_kernel_entry_addr_eq:
  "find_kernel_entry_addr k s = (image_entry k (bmem s), s\<lparr>kernel_elfhdr := disk_base k\<rparr>)"
  by (simp add: find_kernel_entry_addr_def image_entry_def Let_def)

lemmas find_kernel_eqs = find_kernel_load_addr_eq find_kernel_size_eq find_kernel_entry_addr_eq

lemma length_image_block [simp]: "length (image_block k m i) = BSIZE"
  by (simp add: image_block_def)

lemma concat_image_blocks:
  "concat (map (image_block k m) [0..<n]) = load_bytes m (disk_base k) (n * BSIZE)"
  by (induction n) (simp_all add: image_block_def load_bytes_add add.commute [of BSIZE])

lemma image_bytes_split:
  "image_bytes k m = concat (map (image_block k m) [0..<image_blocks k m])
     @ take (unat (image_size k m) mod BSIZE) (image_block k m (image_blocks k m))"
proof -
  let ?n = "image_blocks k m" and ?r = "unat (image_size k m) mod BSIZE"
  have size: "unat (image_size k m) = ?n * BSIZE + ?r"
    by (simp add: image_blocks_def)
  have "take ?r (image_block k m ?n) = load_bytes m (disk_base k + of_nat (?n * BSIZE)) ?r"
    by (simp add: image_block_def take_load_bytes)
  moreover have "image_bytes k m = load_bytes m (disk_base k) (?n * BSIZE + ?r)"
    by (simp only: image_bytes_def flip: size)
  ultimately show ?thesis
    by (simp only: load_bytes_add concat_image_blocks)
qed

section \<open>Copying blocks\<close>

lemma block_offset: "i < FSSIZE \<Longrightarrow> (ucast (of_nat i * of_nat BSIZE :: uint32) :: uint64) = of_nat (i * BSIZE)"
proof -
  assume "i < FSSIZE"
  then have "i * BSIZE < 2 ^ 32" by simp
  then have "(ucast (of_nat (i * BSIZE) :: uint32) :: uint64) = of_nat (i * BSIZE)"
    by (simp only: unsigned_of_nat) (simp add: take_bit_nat_eq_self)
  then show ?thesis by simp
qed

lemma kernel_copy_Ok:
  "i < FSSIZE \<Longrightarrow> bl_blockno b = of_nat i \<Longrightarrow>
   kernel_copy k b s = Ok (b\<lparr>bl_data := image_block k (bmem s) i, bl_valid := 1\<rparr>)"
  using block_offset [of i]
  by (simp add: kernel_copy_def image_block_def word_le_nat_alt unat_of_nat)

lemma kernel_copy_Panic:
  "FSSIZE \<le> i \<Longrightarrow> i < 2 ^ 32 \<Longrightarrow> bl_blockno b = of_nat i \<Longrightarrow>
   kernel_copy k b s = Panic ''ramdiskrw: blockno too big''"
  by (simp add: kernel_copy_def word_le_nat_alt unat_of_nat)

section \<open>Loading\<close>

text \<open>
  Memory after the first \<open>n\<close> blocks of image \<open>k\<close> (as found in \<open>m0\<close>) have been placed: blocks 0
  to 3 hold the ELF headers and are skipped.
\<close>

definition load_image :: "memory \<Rightarrow> kernel \<Rightarrow> uint64 \<Rightarrow> nat \<Rightarrow> memory \<Rightarrow> memory" where
  "load_image m0 k la n m =
     store_bytes m la (load_bytes m0 (disk_base k + of_nat (4 * BSIZE)) ((n - 4) * BSIZE))"

lemma load_image_small [simp]: "n \<le> 4 \<Longrightarrow> load_image m0 k la n m = m"
  by (simp add: load_image_def)

lemma load_image_Suc:
  assumes "4 \<le> n"
  shows "load_image m0 k la (Suc n) m =
    store_bytes (load_image m0 k la n m) (la + of_nat ((n - 4) * BSIZE)) (image_block k m0 n)"
proof -
  have "(Suc n - 4) * BSIZE = (n - 4) * BSIZE + BSIZE" "4 * BSIZE + (n - 4) * BSIZE = n * BSIZE"
    using assms by auto
  then have "load_bytes m0 (disk_base k + of_nat (4 * BSIZE)) ((Suc n - 4) * BSIZE)
      = load_bytes m0 (disk_base k + of_nat (4 * BSIZE)) ((n - 4) * BSIZE) @ image_block k m0 n"
    unfolding image_block_def by (simp only: load_bytes_add add.assoc flip: of_nat_add)
  then show ?thesis
    by (simp only: load_image_def store_bytes_append length_load_bytes)
qed

text \<open>
  The load area of \<open>n\<close> blocks does not touch the image (its \<open>n\<close> blocks and the block after them).
\<close>

definition apart :: "kernel \<Rightarrow> uint64 \<Rightarrow> nat \<Rightarrow> bool" where
  "apart k la n \<longleftrightarrow> disjoint_ranges (disk_base k) (Suc n * BSIZE) la ((n - 4) * BSIZE)"

text \<open>The load area does not touch the memory of the bootloader.\<close>

definition clear :: "bl_symbols \<Rightarrow> uint64 \<Rightarrow> nat \<Rightarrow> bool" where
  "clear syms la n \<longleftrightarrow> disjoint_ranges KERNBASE_bl (bl_size syms) la ((n - 4) * BSIZE)"

text \<open>The layout the linker script gives: the array lies in the bootloader, and the table above it.\<close>

definition symbols_ok :: "bl_symbols \<Rightarrow> bool" where
  "symbols_ok syms \<longleftrightarrow> unat KERNBASE_bl \<le> unat (sym_hash syms) \<and> unat (sym_hash syms) + 32 \<le> unat (bl_limit syms)
     \<and> unat (bl_limit syms) \<le> unat SYS_INFO"

lemma bl_size_pos: "symbols_ok syms \<Longrightarrow> 0 < bl_size syms"
  by (simp add: symbols_ok_def bl_size_def unat_sub word_le_nat_alt)

lemma clear_block:
  assumes "clear syms la n" "symbols_ok syms" "4 \<le> i" "i < n" "n \<le> FSSIZE"
  shows "off_bootloader syms (la + of_nat ((i - 4) * BSIZE)) BSIZE"
proof -
  have "disjoint_ranges (la + of_nat ((i - 4) * BSIZE)) BSIZE KERNBASE_bl (bl_size syms)"
    using assms(1,3-5) unfolding clear_def disjoint_ranges_sym [of KERNBASE_bl] by (intro disjoint_sub_range) auto
  then show ?thesis using bl_size_pos [OF assms(2)] by (auto simp: off_bootloader_def disjoint_ranges_def within_def)
qed

lemma clear_mono: "clear syms la n \<Longrightarrow> i \<le> n \<Longrightarrow> clear syms la i"
  unfolding clear_def by (elim disjoint_ranges_mono) auto

lemma intact_same [simp]: "s\<lparr>bmem := m, bl_intact := bl_intact s\<rparr> = s\<lparr>bmem := m\<rparr>"
  by (cases s) simp

lemma load_image_keeps:
  assumes "apart k la n" "i \<le> n" "n \<le> FSSIZE" "a + l \<le> Suc n * BSIZE"
  shows "load_bytes (load_image m0 k la i m) (disk_base k + of_nat a) l
    = load_bytes m (disk_base k + of_nat a) l"
proof -
  have "disjoint_ranges (disk_base k + of_nat a) l la ((n - 4) * BSIZE)"
    using assms unfolding apart_def by (intro disjoint_sub_range) auto
  then have "disjoint_ranges (disk_base k + of_nat a) l la ((i - 4) * BSIZE)"
    using assms(2) by (elim disjoint_ranges_mono) auto
  then show ?thesis
    unfolding load_image_def using assms(2,3,4) by (intro load_store_disjoint) auto
qed

lemma load_image_keeps_block:
  "apart k la n \<Longrightarrow> i \<le> n \<Longrightarrow> n \<le> FSSIZE \<Longrightarrow> j \<le> n \<Longrightarrow>
   image_block k (load_image m0 k la i m) j = image_block k m j"
  unfolding image_block_def by (rule load_image_keeps) auto

lemma load_pass_Ok:
  assumes "clear syms la n" "symbols_ok syms" "i < n" "n \<le> FSSIZE"
  shows "\<exists>b'. load_pass syms k la i (b, s) = Ok (b',
    if i < 4 then s
    else s\<lparr>bmem := store_bytes (bmem s) (la + of_nat ((i - 4) * BSIZE)) (image_block k (bmem s) i)\<rparr>)"
  using kernel_copy_Ok [of i "b\<lparr>bl_blockno := of_nat i\<rparr>"] clear_block [OF assms(1,2) _ assms(3,4)] assms(3,4)
  by (simp add: load_pass_def place_block_def Let_def)

lemma load_loop:
  assumes "apart k la n" "n \<le> FSSIZE" "clear syms la n" "symbols_ok syms"
  shows "\<exists>b'. for_upto 0 n (load_pass syms k la) (b, s)
    = Ok (b', s\<lparr>bmem := load_image (bmem s) k la n (bmem s)\<rparr>)"
proof -
  have "\<exists>x. for_upto 0 n (load_pass syms k la) (b, s) = Ok x
    \<and> (\<exists>b'. x = (b', s\<lparr>bmem := load_image (bmem s) k la n (bmem s)\<rparr>))"
  proof (rule for_upto_total
      [where P = "\<lambda>j x. \<exists>b'. x = (b', s\<lparr>bmem := load_image (bmem s) k la j (bmem s)\<rparr>)"])
    fix j and x :: "bl_buf \<times> boot"
    assume j: "j < n" and "\<exists>b'. x = (b', s\<lparr>bmem := load_image (bmem s) k la j (bmem s)\<rparr>)"
    then obtain b' where x: "x = (b', s\<lparr>bmem := load_image (bmem s) k la j (bmem s)\<rparr>)" by auto
    have "image_block k (load_image (bmem s) k la j (bmem s)) j = image_block k (bmem s) j"
      using assms j by (intro load_image_keeps_block) auto
    moreover obtain b'' where "load_pass syms k la j x = Ok (b'', if j < 4 then snd x
        else (snd x)\<lparr>bmem := store_bytes (bmem (snd x)) (la + of_nat ((j - 4) * BSIZE))
               (image_block k (bmem (snd x)) j)\<rparr>)"
      using load_pass_Ok [OF assms(3,4) j assms(2), of k "fst x" "snd x"] by auto
    ultimately show "\<exists>t'. load_pass syms k la j x = Ok t'
        \<and> (\<exists>b'. t' = (b', s\<lparr>bmem := load_image (bmem s) k la (Suc j) (bmem s)\<rparr>))"
      by (cases "j < 4") (auto simp: x load_image_Suc)
  qed simp_all
  then show ?thesis by auto
qed

lemma measure_pass_Ok:
  assumes "clear syms la n" "symbols_ok syms" "i < n" "n \<le> FSSIZE"
  shows "\<exists>b'. measure_pass syms la i (b, s) = Ok (b',
    (if i < 4 then s
     else s\<lparr>bmem := store_bytes (bmem s) (la + of_nat ((i - 4) * BSIZE))
              (image_block NORMAL (bmem s) i)\<rparr>)
    \<lparr>sha256_ctx := foldl sha256_update_byte (sha256_ctx s) (image_block NORMAL (bmem s) i)\<rparr>)"
proof -
  have "sha256_update c (image_block k m i) (of_nat BSIZE)
      = Ok (foldl sha256_update_byte c (image_block k m i))" for c k m
    using sha256_update_Ok [of "image_block k m i" c] by simp
  then show ?thesis
    using kernel_copy_Ok [of i "b\<lparr>bl_blockno := of_nat i\<rparr>" NORMAL] clear_block [OF assms(1,2) _ assms(3,4)] assms(3,4)
    by (simp add: measure_pass_def place_block_def Let_def)
qed

lemma measure_loop:
  assumes "apart NORMAL la n" "n \<le> FSSIZE" and clr: "clear syms la n" "symbols_ok syms" and ctx: "ctx_for (sha256_ctx s) []"
  shows "\<exists>b' c. for_upto 0 n (measure_pass syms la) (b, s)
      = Ok (b', s\<lparr>bmem := load_image (bmem s) NORMAL la n (bmem s), sha256_ctx := c\<rparr>)
    \<and> ctx_for c (concat (map (image_block NORMAL (bmem s)) [0..<n]))"
proof -
  let ?P = "\<lambda>j x. \<exists>b' c. x = (b', s\<lparr>bmem := load_image (bmem s) NORMAL la j (bmem s), sha256_ctx := c\<rparr>)
      \<and> ctx_for c (concat (map (image_block NORMAL (bmem s)) [0..<j]))"
  have "\<exists>x. for_upto 0 n (measure_pass syms la) (b, s) = Ok x \<and> ?P n x"
  proof (rule for_upto_total [where P = ?P])
    show "?P 0 (b, s)" using ctx by (auto intro!: exI [of _ "sha256_ctx s"])
    fix j and x :: "bl_buf \<times> boot"
    assume j: "j < n" and "?P j x"
    then obtain b' c where
      x: "x = (b', s\<lparr>bmem := load_image (bmem s) NORMAL la j (bmem s), sha256_ctx := c\<rparr>)"
      and c: "ctx_for c (concat (map (image_block NORMAL (bmem s)) [0..<j]))" by blast
    have blk: "image_block NORMAL (load_image (bmem s) NORMAL la j (bmem s)) j
        = image_block NORMAL (bmem s) j"
      using assms j by (intro load_image_keeps_block) auto
    have "ctx_for (foldl sha256_update_byte c (image_block NORMAL (bmem s) j))
        (concat (map (image_block NORMAL (bmem s)) [0..<Suc j]))"
      using sha.consumed_foldl [OF c, of "image_block NORMAL (bmem s) j"] by simp
    moreover obtain b'' where "measure_pass syms la j x = Ok (b'', s
        \<lparr>bmem := load_image (bmem s) NORMAL la (Suc j) (bmem s),
         sha256_ctx := foldl sha256_update_byte c (image_block NORMAL (bmem s) j)\<rparr>)"
      using measure_pass_Ok [OF clr j assms(2), of b' "snd x"]
      by (cases "j < 4") (auto simp: x blk load_image_Suc)
    ultimately show "\<exists>t'. measure_pass syms la j x = Ok t' \<and> ?P (Suc j) t'"
      by blast
  qed simp
  then show ?thesis by blast
qed

section \<open>Memories that agree on an image\<close>

definition agree :: "addr \<Rightarrow> nat \<Rightarrow> memory \<Rightarrow> memory \<Rightarrow> bool" where
  "agree a n m m' \<longleftrightarrow> (\<forall>x. within a n x \<longrightarrow> m' x = m x)"

lemma agree_refl [simp]: "agree a n m m"
  by (simp add: agree_def)

lemma agree_store_bytes:
  "agree a n m m' \<Longrightarrow> disjoint_ranges a n b (length bs) \<Longrightarrow> length bs \<le> 2 ^ 64 \<Longrightarrow>
   agree a n m (store_bytes m' b bs)"
  by (auto simp: agree_def disjoint_ranges_def store_bytes_apply)

lemma agree_load_bytes:
  assumes "agree a n m m'" "i + l \<le> n" "n \<le> 2 ^ 64"
  shows "load_bytes m' (a + of_nat i) l = load_bytes m (a + of_nat i) l"
proof (rule load_bytes_cong)
  fix x assume "within (a + of_nat i) l x"
  then have "within a n x" using assms(2,3) by (rule within_sub_range)
  then show "m' x = m x" using assms(1) by (simp add: agree_def)
qed (use assms in simp)

text \<open>An image that the bootloader can handle: it fits the disk, its second program header lies
  in it, and the area it asks to be loaded to touches neither it nor the bootloader.\<close>

definition phdr_offset :: "kernel \<Rightarrow> memory \<Rightarrow> nat" where
  "phdr_offset k m =
     (let hdr = read_elfhdr m (disk_base k) in unat (phoff hdr + ucast (phentsize hdr)))"

definition image_ok :: "bl_symbols \<Rightarrow> kernel \<Rightarrow> memory \<Rightarrow> bool" where
  "image_ok syms k m \<longleftrightarrow> image_blocks k m < FSSIZE \<and> phdr_offset k m + 56 \<le> BSIZE
     \<and> apart k (image_load_addr k m) (image_blocks k m) \<and> clear syms (image_load_addr k m) (image_blocks k m)"

abbreviation disk_agree :: "kernel \<Rightarrow> nat \<Rightarrow> memory \<Rightarrow> memory \<Rightarrow> bool" where
  "disk_agree k n \<equiv> agree (disk_base k) (Suc n * BSIZE)"

lemma agree_elfhdr:
  assumes "disk_agree k n m m'" "n < FSSIZE"
  shows "read_elfhdr m' (disk_base k) = read_elfhdr m (disk_base k)"
  using agree_load_bytes [OF assms(1), of 0 4] agree_load_bytes [OF assms(1), of 24 8]
    agree_load_bytes [OF assms(1), of 32 8] agree_load_bytes [OF assms(1), of 40 8]
    agree_load_bytes [OF assms(1), of 54 2] agree_load_bytes [OF assms(1), of 56 2]
    agree_load_bytes [OF assms(1), of 58 2] agree_load_bytes [OF assms(1), of 60 2] assms(2)
  by (simp add: read_elfhdr_def load16_def load32_def load64_def)

lemma image_phdr_offset: "image_phdr k m = disk_base k + of_nat (phdr_offset k m)"
  by (simp add: image_phdr_def phdr_offset_def Let_def add.assoc)

lemma agree_headers:
  assumes "disk_agree k n m m'" "n < FSSIZE"
  shows "image_size k m' = image_size k m" "image_entry k m' = image_entry k m"
    "image_phdr k m' = image_phdr k m" "image_blocks k m' = image_blocks k m"
  by (simp_all add: image_size_def image_entry_def image_phdr_def image_blocks_def
      agree_elfhdr [OF assms])

lemma agree_load_addr:
  assumes "disk_agree k n m m'" "n < FSSIZE" "phdr_offset k m + 56 \<le> BSIZE"
  shows "image_load_addr k m' = image_load_addr k m"
proof -
  have "load_bytes m' (image_phdr k m + of_nat 16) 8 = load_bytes m (image_phdr k m + of_nat 16) 8"
    using agree_load_bytes [OF assms(1), of "phdr_offset k m + 16" 8] assms(2,3)
    by (simp add: image_phdr_offset add.assoc)
  then show ?thesis
    by (simp add: image_load_addr_def read_proghdr_def load64_def agree_headers [OF assms(1,2)])
qed

lemma agree_image_block:
  "disk_agree k n m m' \<Longrightarrow> n < FSSIZE \<Longrightarrow> j \<le> n \<Longrightarrow> image_block k m' j = image_block k m j"
  unfolding image_block_def by (rule agree_load_bytes) auto

lemma agree_image_bytes:
  assumes "disk_agree k (image_blocks k m) m m'" "image_blocks k m < FSSIZE"
  shows "image_bytes k m' = image_bytes k m"
proof -
  have "unat (image_size k m) \<le> Suc (image_blocks k m) * BSIZE"
    using dividend_less_div_times [of BSIZE "unat (image_size k m)"]
    by (simp add: image_blocks_def)
  then show ?thesis
    using agree_load_bytes [OF assms(1), of 0 "unat (image_size k m)"] assms(2)
    by (simp add: image_bytes_def agree_headers [OF assms])
qed

lemma agree_load_image:
  assumes "apart k la n" "i \<le> n" "n < FSSIZE" "disk_agree k n m m'"
  shows "disk_agree k n m (load_image m0 k la i m')"
proof -
  have "(i - 4) * BSIZE \<le> (n - 4) * BSIZE" using assms(2) by simp
  then have "disjoint_ranges (disk_base k) (Suc n * BSIZE) la ((i - 4) * BSIZE)"
    using assms(1) unfolding apart_def by (elim disjoint_ranges_mono) simp
  then show ?thesis
    unfolding load_image_def using assms by (intro agree_store_bytes) auto
qed

lemma agree_image_ok:
  "disk_agree k (image_blocks k m) m m' \<Longrightarrow> image_ok syms k m \<Longrightarrow> image_ok syms k m'"
  unfolding image_ok_def
  by (simp add: agree_headers agree_load_addr phdr_offset_def agree_elfhdr)

section \<open>The measurement\<close>

lemma length_std_digest [simp]: "length (std_digest H) = 32"
  by (simp add: std_digest_def be_bytes_def split: prod.split)

lemma length_SHA256 [simp]: "length (SHA256 msg) = 32"
  by (simp add: SHA256_def)

lemma length_trusted_kernel_hash [simp]: "length (trusted_kernel_hash v) = 32"
  by (simp add: trusted_kernel_hash_def)

definition measured :: "kernel_version \<Rightarrow> addr \<Rightarrow> memory \<Rightarrow> memory" where
  "measured v p m =
     store_bytes (store_bytes
       (load_image m NORMAL (image_load_addr NORMAL m) (image_blocks NORMAL m) m)
       (p + 64) (SHA256 (image_bytes NORMAL m))) (p + 32) (trusted_kernel_hash v)"

lemma measured_fields:
  "load_bytes (measured v p m) (p + 32) 32 = trusted_kernel_hash v"
  "load_bytes (measured v p m) (p + 64) 32 = SHA256 (image_bytes NORMAL m)"
proof -
  have "disjoint_ranges (p + 64) 32 (p + 32) 32"
    using disjoint_offsets [of 32 32 64 32 p] by simp
  then show "load_bytes (measured v p m) (p + 64) 32 = SHA256 (image_bytes NORMAL m)"
    by (simp add: measured_def load_store_disjoint)
qed (simp add: measured_def)

text \<open>A bootloader built for a version: the array holds the trusted hash.\<close>

definition built :: "kernel_version \<Rightarrow> bl_symbols \<Rightarrow> memory \<Rightarrow> bool" where
  "built v syms m \<longleftrightarrow> symbols_ok syms \<and> load_bytes m (sym_hash syms) 32 = trusted_kernel_hash v"

lemma hash_in_bootloader:
  assumes "symbols_ok syms" "disjoint_ranges KERNBASE_bl (bl_size syms) a n"
  shows "disjoint_ranges (sym_hash syms) 32 a n"
proof -
  let ?i = "unat (sym_hash syms) - unat KERNBASE_bl"
  have le: "KERNBASE_bl \<le> sym_hash syms" "KERNBASE_bl \<le> bl_limit syms"
    using assms(1) by (auto simp: symbols_ok_def word_le_nat_alt)
  then have "unat (sym_hash syms - KERNBASE_bl) = ?i" by (simp add: unat_sub)
  then have "of_nat ?i = sym_hash syms - KERNBASE_bl" by (metis of_nat_unat ucast_id)
  then have "KERNBASE_bl + of_nat ?i = sym_hash syms" by simp
  moreover have "?i + 32 \<le> bl_size syms" "bl_size syms \<le> 2 ^ 64"
    using assms(1) le(2) unsigned_less [of "bl_limit syms - KERNBASE_bl", where 'a = nat]
    by (auto simp: symbols_ok_def bl_size_def unat_sub)
  ultimately show ?thesis using disjoint_sub_range [OF assms(2), of ?i 32] by simp
qed

lemma hash_copied:
  assumes "built v syms m" "clear syms la n" "n \<le> FSSIZE" "length ds = 32"
  shows "memcpy (store_bytes (load_image m0 k la n m) (SYS_INFO + 64) ds) (SYS_INFO + 32) (sym_hash syms) 32
    = store_bytes (store_bytes (load_image m0 k la n m) (SYS_INFO + 64) ds) (SYS_INFO + 32) (trusted_kernel_hash v)"
proof -
  have ok: "symbols_ok syms" "load_bytes m (sym_hash syms) 32 = trusted_kernel_hash v" using assms(1) by (auto simp: built_def)
  have below: "unat (sym_hash syms) + 32 \<le> unat SYS_INFO" using ok(1) by (simp add: symbols_ok_def)
  then have "disjoint_ranges (sym_hash syms) 32 (SYS_INFO + 64) 32"
    by (intro disjoint_ranges_apart) (simp_all add: SYS_INFO_def)
  moreover have "disjoint_ranges (sym_hash syms) 32 la ((n - 4) * BSIZE)"
    using hash_in_bootloader [OF ok(1)] assms(2) by (simp add: clear_def)
  ultimately have "load_bytes (store_bytes (load_image m0 k la n m) (SYS_INFO + 64) ds) (sym_hash syms) 32 = trusted_kernel_hash v"
    using assms(3,4) ok(2) by (simp add: load_store_disjoint load_image_def)
  then show ?thesis using below by (subst cp.copy_law) (simp_all add: SYS_INFO_def)
qed

lemma is_secure_boot_spec:
  assumes n: "image_blocks NORMAL (bmem s) < FSSIZE"
    and sep: "apart NORMAL (image_load_addr NORMAL (bmem s)) (image_blocks NORMAL (bmem s))"
    and clr: "clear syms (image_load_addr NORMAL (bmem s)) (image_blocks NORMAL (bmem s))"
    and bld: "built v syms (bmem s)" and ptr: "sys_info_ptr s = SYS_INFO" and ctx: "ctx_usable (sha256_ctx s)"
  shows "\<exists>c. is_secure_boot syms b s = Ok (SHA256 (image_bytes NORMAL (bmem s)) = trusted_kernel_hash v,
    s\<lparr>bmem := measured v SYS_INFO (bmem s), kernel_elfhdr := disk_base NORMAL,
      kernel_phdr := image_phdr NORMAL (bmem s), sha256_ctx := c\<rparr>)"
proof -
  let ?m = "bmem s" and ?la = "image_load_addr NORMAL (bmem s)"
  let ?n = "image_blocks NORMAL ?m" and ?sz = "image_size NORMAL ?m"
  let ?s = "s\<lparr>sha256_ctx := sha256_init (sha256_ctx s), kernel_phdr := image_phdr NORMAL ?m,
      kernel_elfhdr := disk_base NORMAL\<rparr>"
  have "ctx_for (sha256_ctx ?s) []" using sha.start_law [OF ctx] by simp
  from measure_loop [OF _ _ clr _ this, of b] n sep bld obtain b' c where
    loop: "for_upto 0 ?n (measure_pass syms ?la) (b, ?s)
      = Ok (b', ?s\<lparr>bmem := load_image ?m NORMAL ?la ?n ?m, sha256_ctx := c\<rparr>)"
    and c: "ctx_for c (concat (map (image_block NORMAL ?m) [0..<?n]))" by (auto simp: built_def)
  have nb: "unat (?sz div 1024) = ?n" by (simp add: image_blocks_def unat_div)
  have nb': "ucast (?sz div 1024) = (of_nat ?n :: uint32)" by (simp flip: nb)
  have r: "?sz - 1024 * (?sz div 1024) = ?sz mod 1024" by (simp add: minus_mult_div_eq_mod)
  have rn: "unat (?sz mod 1024) = unat ?sz mod 1024" by (simp add: unat_mod)
  have tail: "image_block NORMAL (load_image ?m NORMAL ?la ?n ?m) ?n = image_block NORMAL ?m ?n"
    using n sep by (intro load_image_keeps_block) auto
  have "?sz mod 1024 < 0x100000000" by (simp add: word_less_nat_alt unat_mod)
  then have upd: "sha256_update c (image_block NORMAL ?m ?n) (?sz mod 1024)
      = Ok (foldl sha256_update_byte c (take (unat ?sz mod 1024) (image_block NORMAL ?m ?n)))"
    by (simp add: sha256_update_def rn)
  let ?c = "foldl sha256_update_byte c (take (unat ?sz mod 1024) (image_block NORMAL ?m ?n))"
  have "fst (sha256_final ?c) = SHA256 (image_bytes NORMAL ?m)"
    using sha.result_law [OF sha.consumed_foldl [OF c]] by (simp add: image_bytes_split)
  then show ?thesis
    using measured_fields [of v SYS_INFO ?m] hash_copied [OF bld clr, of "SHA256 (image_bytes NORMAL ?m)" ?m NORMAL] n
    by (intro exI [of _ "snd (sha256_final ?c)"])
      (simp add: is_secure_boot_def find_kernel_eqs Let_def nb nb' loop kernel_copy_Ok [OF n] tail r
        upd case_prod_unfold memcmp_eq_0 observed_field_def expected_field_def measured_def ptr)
qed

section \<open>Entering the kernel\<close>

lemma load_image_apply:
  "n \<le> FSSIZE \<Longrightarrow> load_image m0 k la n m x =
     (if within la ((n - 4) * BSIZE) x then m0 (disk_base k + of_nat (4 * BSIZE) + (x - la)) else m x)"
  by (auto simp: load_image_def store_bytes_apply within_def)

lemma apart_mono: "apart k la n \<Longrightarrow> i \<le> n \<Longrightarrow> apart k la i"
  unfolding apart_def by (elim disjoint_ranges_mono) auto

text \<open>The table written for the kernel, and the memory \<open>start\<close> leaves.\<close>

definition handed :: "bl_symbols \<Rightarrow> memory \<Rightarrow> memory" where
  "handed syms m =
     (let m = store64 m SYS_INFO (sym_entry syms);
          m = store64 m (SYS_INFO + 8) (load64 m (sym_end syms));
          m = store64 m (SYS_INFO + 16) 0x80000000
      in store64 m (SYS_INFO + 24) PHYSTOP_bl)"

definition verified :: "kernel_version \<Rightarrow> memory \<Rightarrow> bool" where
  "verified v m \<longleftrightarrow> SHA256 (image_bytes NORMAL m) = trusted_kernel_hash v"

definition reloaded :: "memory \<Rightarrow> memory" where
  "reloaded m = load_image m NORMAL (image_load_addr NORMAL m)
     (unat (image_size NORMAL m) div FSSIZE) m"

lemma table_off_disk:
  assumes "n < FSSIZE" "i + l \<le> 96"
  shows "disjoint_ranges (disk_base NORMAL) (Suc n * BSIZE) (SYS_INFO + of_nat i) l"
proof -
  have "disjoint_ranges SYS_INFO 96 (disk_base NORMAL) (Suc n * BSIZE)"
    using assms by (intro disjoint_ranges_apart) (simp_all add: SYS_INFO_def RAMDISK_def disk_base_def)
  then have "disjoint_ranges (SYS_INFO + of_nat i) l (disk_base NORMAL) (Suc n * BSIZE)"
    using assms by (intro disjoint_sub_range) auto
  then show ?thesis by (simp add: disjoint_ranges_sym)
qed

lemma agree_measured:
  assumes "image_ok syms NORMAL m"
  shows "disk_agree NORMAL (image_blocks NORMAL m) m (measured v SYS_INFO m)"
  using assms table_off_disk [of "image_blocks NORMAL m" 32 32]
    table_off_disk [of "image_blocks NORMAL m" 64 32]
  unfolding measured_def
  by (intro agree_store_bytes agree_load_image) (simp_all add: image_ok_def)

lemma agree_handed:
  assumes "disk_agree NORMAL n m m'" "n < FSSIZE"
  shows "disk_agree NORMAL n m (handed syms m')"
  using assms table_off_disk [of n 0 8] table_off_disk [of n 8 8] table_off_disk [of n 16 8]
    table_off_disk [of n 24 8]
  unfolding handed_def Let_def store64_def by (intro agree_store_bytes) simp_all

lemma second_pass_shorter: "unat (image_size k m) div FSSIZE \<le> image_blocks k m"
  by (simp add: image_blocks_def div_le_mono2)

lemma agree_reloaded:
  assumes "image_ok syms NORMAL m"
  shows "disk_agree NORMAL (image_blocks NORMAL m) m (reloaded m)"
  using assms second_pass_shorter [of NORMAL m]
  unfolding reloaded_def by (intro agree_load_image) (simp_all add: image_ok_def)

lemma agree_trans: "agree a n m m' \<Longrightarrow> agree a n m' m'' \<Longrightarrow> agree a n m m''"
  by (simp add: agree_def)

lemma start_spec:
  assumes ok: "image_ok syms NORMAL (bmem s)" and bld: "built v syms (bmem s)" and ctx: "ctx_usable (sha256_ctx s)"
  shows "\<exists>s'. start syms b s =
      Ok (if verified v (bmem s) then Jump (image_entry NORMAL (bmem s)) else Return, s')
    \<and> mepc s' = (if verified v (bmem s) then image_entry NORMAL (bmem s) else mepc s)
    \<and> bmem s' = (if verified v (bmem s) then handed syms (reloaded (measured v SYS_INFO (bmem s)))
                 else measured v SYS_INFO (bmem s))
    \<and> reg_ra s' = (if verified v (bmem s) then sym_panic syms else reg_ra s) \<and> bl_intact s' = bl_intact s"
proof -
  let ?m = "bmem s" and ?m1 = "measured v SYS_INFO (bmem s)"
  let ?n = "image_blocks NORMAL ?m"
  let ?s = "s\<lparr>sys_info_ptr := SYS_INFO, reg_tp := scast (ucast (mhartid s) :: uint32)\<rparr>"
  note n = ok [unfolded image_ok_def]
  from is_secure_boot_spec [of ?s syms v b] ok bld ctx obtain c where
    sb: "is_secure_boot syms b ?s = Ok (verified v ?m,
      ?s\<lparr>bmem := ?m1, kernel_elfhdr := disk_base NORMAL,
         kernel_phdr := image_phdr NORMAL ?m, sha256_ctx := c\<rparr>)"
    by (auto simp: image_ok_def verified_def)
  note a1 = agree_measured [OF ok, of v]
  have ok1: "image_ok syms NORMAL ?m1" using agree_image_ok [OF a1 ok] .
  have a2: "disk_agree NORMAL ?n ?m (reloaded ?m1)"
    using agree_trans [OF a1] agree_reloaded [OF ok1] agree_headers(4) [OF a1] n by metis
  have a3: "disk_agree NORMAL ?n ?m (handed syms (reloaded ?m1))"
    using agree_handed [OF a2] n by simp
  have ent: "image_entry NORMAL ?m1 = image_entry NORMAL ?m"
    "image_entry NORMAL (reloaded ?m1) = image_entry NORMAL ?m"
    "image_entry NORMAL (handed syms (reloaded ?m1)) = image_entry NORMAL ?m"
    using agree_headers(2) [OF a1] agree_headers(2) [OF a2] agree_headers(2) [OF a3] n by simp_all
  let ?s2 = "?s\<lparr>bmem := ?m1, sha256_ctx := c, kernel_phdr := image_phdr NORMAL ?m1,
      kernel_elfhdr := disk_base NORMAL\<rparr>"
  have "apart NORMAL (image_load_addr NORMAL ?m1) (unat (image_size NORMAL ?m1) div FSSIZE)"
    "unat (image_size NORMAL ?m1) div FSSIZE \<le> FSSIZE"
    "clear syms (image_load_addr NORMAL ?m1) (unat (image_size NORMAL ?m1) div FSSIZE)" "symbols_ok syms"
    using ok1 bld second_pass_shorter [of NORMAL ?m1] by (auto simp: image_ok_def built_def intro: apart_mono clear_mono)
  from load_loop [OF this, of b ?s2] obtain b' where
    loop: "for_upto 0 (unat (image_size NORMAL ?m1) div FSSIZE)
        (load_pass syms NORMAL (image_load_addr NORMAL ?m1)) (b, ?s2)
      = Ok (b', ?s2\<lparr>bmem := reloaded ?m1\<rparr>)"
    by (auto simp: reloaded_def)
  show ?thesis
  proof (cases "verified v ?m")
    case False
    then show ?thesis by (simp add: start_def Let_def sb)
  next
    case True
    with loop ent(3) [unfolded handed_def Let_def] show ?thesis
      by (simp add: start_def Let_def sb find_kernel_eqs unat_div ent handed_def)
  qed
qed

lemma handed_outside: "\<not> within SYS_INFO 96 x \<Longrightarrow> handed syms m x = m x"
proof -
  assume x: "\<not> within SYS_INFO 96 x"
  have "\<not> within (SYS_INFO + of_nat i) 8 x" if "i \<le> 88" for i
    using x within_sub_range [of SYS_INFO i 8 x 96] that by auto
  from this [of 0] this [of 8] this [of 16] this [of 24] show ?thesis
    by (simp add: handed_def Let_def store64_def store_bytes_apply)
qed

lemma measured_outside:
  "\<not> within SYS_INFO 96 x \<Longrightarrow> measured v SYS_INFO m x
     = load_image m NORMAL (image_load_addr NORMAL m) (image_blocks NORMAL m) m x"
proof -
  assume x: "\<not> within SYS_INFO 96 x"
  have "\<not> within (SYS_INFO + of_nat i) 32 x" if "i \<le> 64" for i
    using x within_sub_range [of SYS_INFO i 32 x 96] that by auto
  from this [of 32] this [of 64] show ?thesis
    by (simp add: measured_def store_bytes_apply)
qed

lemma image_source_within:
  assumes "within la ((n - 4) * BSIZE) x" "n < FSSIZE"
  shows "within (disk_base k) (Suc n * BSIZE) (disk_base k + of_nat (4 * BSIZE) + (x - la))"
proof -
  let ?j = "unat (x - la)"
  have j: "?j < (n - 4) * BSIZE" using assms(1) by (simp add: within_def)
  have "disk_base k + of_nat (4 * BSIZE) + (x - la) - disk_base k = of_nat (4 * BSIZE + ?j)"
    by simp
  moreover have "unat (of_nat (4 * BSIZE + ?j) :: addr) = 4 * BSIZE + ?j"
    using j assms(2) by (simp only: unat_of_nat) (simp add: unat_of_nat)
  ultimately show ?thesis
    using j by (simp add: within_def)
qed

lemma reloaded_apply:
  assumes ok: "image_ok syms NORMAL m" and "\<not> within SYS_INFO 96 x"
  shows "reloaded (measured v SYS_INFO m) x
    = load_image m NORMAL (image_load_addr NORMAL m) (image_blocks NORMAL m) m x"
proof -
  let ?m1 = "measured v SYS_INFO m" and ?la = "image_load_addr NORMAL m"
  let ?n = "image_blocks NORMAL m" and ?i = "unat (image_size NORMAL m) div FSSIZE"
  have n: "?n < FSSIZE" and ph: "phdr_offset NORMAL m + 56 \<le> BSIZE"
    using ok by (auto simp: image_ok_def)
  have i: "?i \<le> ?n" by (rule second_pass_shorter)
  note a1 = agree_measured [OF ok, of v]
  have re: "reloaded ?m1 = load_image ?m1 NORMAL ?la ?i ?m1"
    using agree_headers(1) [OF a1 n] agree_load_addr [OF a1 n ph] by (simp add: reloaded_def)
  show ?thesis
  proof (cases "within ?la ((?i - 4) * BSIZE) x")
    case True
    then have w: "within ?la ((?n - 4) * BSIZE) x"
      using i by (auto simp: within_def elim: order_less_le_trans)
    have "?m1 (disk_base NORMAL + of_nat (4 * BSIZE) + (x - ?la))
        = m (disk_base NORMAL + of_nat (4 * BSIZE) + (x - ?la))"
      using a1 image_source_within [OF w n] by (simp only: agree_def)
    then show ?thesis using True w i n by (simp add: re load_image_apply)
  next
    case False
    then show ?thesis
      using i n measured_outside [OF assms(2)] by (simp add: re load_image_apply [of ?i])
  qed
qed

text \<open>The area an image is loaded to, in the image's own words.\<close>

definition load_area :: "memory \<Rightarrow> addr \<Rightarrow> bool" where
  "load_area m = within (image_load_addr NORMAL m) ((image_blocks NORMAL m - 4) * BSIZE)"

text \<open>The memory of the bootloader itself, and the table.\<close>

definition bl_area :: "bl_symbols \<Rightarrow> addr \<Rightarrow> bool" where
  "bl_area syms = within KERNBASE_bl (bl_size syms)"

definition table_area :: "addr \<Rightarrow> bool" where
  "table_area = within SYS_INFO 96"

lemma boot_memory:
  assumes "image_ok syms NORMAL m" "\<not> table_area x"
  shows "(if verified v m then handed syms (reloaded (measured v SYS_INFO m))
          else measured v SYS_INFO m) x
    = (if load_area m x
       then m (RAMDISK + of_nat (4 * BSIZE) + (x - image_load_addr NORMAL m)) else m x)"
  using assms reloaded_apply [OF assms(1), of x v] measured_outside [of x v m]
    handed_outside [of x syms "reloaded (measured v SYS_INFO m)"]
  by (simp add: table_area_def load_area_def load_image_apply image_ok_def disk_base_def)

section \<open>Images that are too big\<close>

lemma for_upto_split:
  "i \<le> k \<Longrightarrow> k \<le> n \<Longrightarrow> for_upto i n body s = bnd (for_upto i k body s) (for_upto k n body)"
proof (induction n)
  case (Suc n)
  show ?case
  proof (cases "k = Suc n")
    case True
    then show ?thesis
      by (cases "for_upto i (Suc n) body s") simp_all
  next
    case False
    then have "k \<le> n" using Suc by simp
    then show ?thesis using Suc by (simp add: for_upto_Suc)
  qed
qed simp

lemma for_upto_panic: "k < n \<Longrightarrow> body k s = Panic msg \<Longrightarrow> for_upto k n body s = Panic msg"
  using for_upto_split [of k "Suc k" n body s] by (simp add: for_upto_Suc)

lemma measure_full_disk:
  assumes "clear syms la FSSIZE" "symbols_ok syms"
  shows "\<exists>b' s'. for_upto 0 FSSIZE (measure_pass syms la) (b, s) = Ok (b', s') \<and> bl_intact s' = bl_intact s"
proof -
  have "\<exists>x. for_upto 0 FSSIZE (measure_pass syms la) (b, s) = Ok x \<and> bl_intact (snd x) = bl_intact s"
  proof (rule for_upto_total [where P = "\<lambda>_ x. bl_intact (snd x) = bl_intact s"])
    fix j and x :: "bl_buf \<times> boot" assume "j < FSSIZE" "bl_intact (snd x) = bl_intact s"
    then show "\<exists>t'. measure_pass syms la j x = Ok t' \<and> bl_intact (snd t') = bl_intact s"
      using measure_pass_Ok [OF assms, of j "fst x" "snd x"] by auto
  qed simp_all
  then show ?thesis by auto
qed

lemma is_secure_boot_too_big:
  assumes "FSSIZE \<le> image_blocks NORMAL (bmem s)" "image_blocks NORMAL (bmem s) < 2 ^ 32"
    and clr: "clear syms (image_load_addr NORMAL (bmem s)) FSSIZE" "symbols_ok syms"
  shows "is_secure_boot syms b s = Panic ''ramdiskrw: blockno too big''"
proof -
  let ?n = "image_blocks NORMAL (bmem s)" and ?la = "image_load_addr NORMAL (bmem s)"
  let ?sz = "image_size NORMAL (bmem s)"
  let ?s = "s\<lparr>sha256_ctx := sha256_init (sha256_ctx s), kernel_phdr := image_phdr NORMAL (bmem s),
      kernel_elfhdr := disk_base NORMAL\<rparr>"
  have nb: "unat (?sz div 1024) = ?n" by (simp add: image_blocks_def unat_div)
  have nb': "ucast (?sz div 1024) = (of_nat ?n :: uint32)" by (simp flip: nb)
  obtain b' s' where full: "for_upto 0 FSSIZE (measure_pass syms ?la) (b, ?s) = Ok (b', s')"
    using measure_full_disk [OF clr, of b ?s] by auto
  show ?thesis
  proof (cases "?n = FSSIZE")
    case True
    then show ?thesis using full kernel_copy_Panic [of FSSIZE]
      by (simp add: is_secure_boot_def find_kernel_eqs Let_def nb nb')
  next
    case False
    then have n: "FSSIZE < ?n" using assms(1) by simp
    have "measure_pass syms ?la FSSIZE (b', s') = Panic ''ramdiskrw: blockno too big''"
      using kernel_copy_Panic [of FSSIZE] by (simp add: measure_pass_def)
    then have "for_upto 0 ?n (measure_pass syms ?la) (b, ?s) = Panic ''ramdiskrw: blockno too big''"
      using for_upto_split [of 0 FSSIZE ?n "measure_pass syms ?la" "(b, ?s)"] n full
        for_upto_panic [OF n] by simp
    then show ?thesis by (simp add: is_secure_boot_def find_kernel_eqs Let_def nb)
  qed
qed

section \<open>Properties\<close>

text \<open>
  A concrete machine: an all-zero memory but for two ELF headers. The entry point and the load
  address of the image are \<open>0x81000000\<close>, those of the recovery image \<open>0x82000000\<close>; the program headers
  start at 64 and are 56 bytes each, and the section table is empty and starts at 5120: five blocks,
  of which one is loaded. That block has one byte that is not zero. The symbols are those of
  \<open>bootloader.sym\<close>.
\<close>

definition sample_memory :: memory where
  "sample_memory = (\<lambda>_. 0)(0x8400001b := 0x81, 0x84000020 := 64, 0x84000029 := 0x14,
     0x84000036 := 56, 0x8400008b := 0x81, 0x84001007 := 0xcd,
     0x8450001b := 0x82, 0x84500020 := 64, 0x84500029 := 0x14,
     0x84500036 := 56, 0x8450008b := 0x82, 0x84501007 := 0xab)"

definition sample_boot :: boot where
  "sample_boot = \<lparr>bmem = sample_memory, mhartid = 0, mepc = 0, reg_tp = 0, reg_ra = 0,
     sys_info_ptr = SYS_INFO, kernel_elfhdr = 0, kernel_phdr = 0, sha256_ctx = zero_ctx, bl_intact = True\<rparr>"

definition sample_symbols :: bl_symbols where
  "sample_symbols = \<lparr>sym_entry = 0x80000000, sym_panic = 0x8000001c, sym_end = 0x80008c90,
     sym_hash = 0x80000ad8, bl_limit = 0x80008ca8\<rparr>"

definition sample_buf :: bl_buf where
  "sample_buf = \<lparr>bl_valid = 0, bl_blockno = 0, bl_data = replicate 1024 0\<rparr>"

lemma load_numerals:
  "load16 m a = of_nat (unat (m a) + 256 * unat (m (a + 1)))"
  "load64 m a = of_nat (unat (m a) + 256 * (unat (m (a + 1)) + 256 * (unat (m (a + 2))
     + 256 * (unat (m (a + 3)) + 256 * (unat (m (a + 4)) + 256 * (unat (m (a + 5))
     + 256 * (unat (m (a + 6)) + 256 * unat (m (a + 7)))))))))"
  by (simp_all add: load16_def load64_def load_bytes_eq_map upt_rec)

lemmas image_defs = image_size_def image_load_addr_def image_entry_def image_phdr_def image_blocks_def
  phdr_offset_def read_elfhdr_def read_proghdr_def load_numerals sample_memory_def disk_base_def

lemma sample_image:
  "image_size NORMAL sample_memory = 5120" "image_load_addr NORMAL sample_memory = 0x81000000"
  "image_entry NORMAL sample_memory = 0x81000000" "phdr_offset NORMAL sample_memory = 120"
  "image_blocks NORMAL sample_memory = 5"
  by (simp_all add: image_defs RAMDISK_def)

lemma sample_recovery:
  "image_size RECOVERY sample_memory = 5120" "image_load_addr RECOVERY sample_memory = 0x82000000"
  "image_entry RECOVERY sample_memory = 0x82000000" "phdr_offset RECOVERY sample_memory = 120"
  "image_blocks RECOVERY sample_memory = 5"
  by (simp_all add: image_defs RECOVERYDISK_def)

lemma sample_fields [simp]:
  "bmem sample_boot = sample_memory" "sys_info_ptr sample_boot = SYS_INFO" "bl_intact sample_boot"
  by (simp_all add: sample_boot_def)

lemma sample_symbols_ok: "symbols_ok sample_symbols"
  by (simp add: symbols_ok_def sample_symbols_def KERNBASE_bl_def SYS_INFO_def)

lemma sample_clear: "0x80008ca8 \<le> la \<Longrightarrow> unat la + (n - 4) * BSIZE \<le> 2 ^ 64 \<Longrightarrow> clear sample_symbols la n"
  unfolding clear_def
  by (rule disjoint_ranges_apart) (simp_all add: bl_size_def sample_symbols_def KERNBASE_bl_def word_le_nat_alt)

lemma sample_ok: "image_ok sample_symbols NORMAL sample_memory" "ctx_usable (sha256_ctx sample_boot)"
proof -
  have "disjoint_ranges 0x81000000 1024 RAMDISK (6 * 1024)"
    by (intro disjoint_ranges_apart) (simp_all add: RAMDISK_def)
  then show "image_ok sample_symbols NORMAL sample_memory"
    by (simp add: image_ok_def sample_image apart_def disk_base_def disjoint_ranges_sym sample_clear)
qed (simp add: ctx_usable_def sample_boot_def zero_ctx_def)

lemma sample_built: "built KERNEL2 sample_symbols sample_memory"
proof -
  have "sample_memory (0x80000ad8 + of_nat i) = 0" if "i < 32" for i
  proof -
    have "unat (0x80000ad8 + of_nat i :: addr) < 0x84000000" using that by (simp add: unat_word_ariths unat_of_nat)
    then show ?thesis by (auto simp: sample_memory_def)
  qed
  then have "load_bytes sample_memory 0x80000ad8 32 = replicate 32 0"
    by (intro nth_equalityI) (simp_all add: nth_load_bytes)
  then show ?thesis using sample_symbols_ok by (simp add: built_def trusted_kernel_hash_def sample_symbols_def)
qed

text \<open>
  C1. What \<open>start\<close> does with an image whose load area touches neither the image nor the memory of the
  bootloader, in a bootloader built for version \<open>v\<close>: it jumps to the entry point of the image's
  ELF header (also left in \<open>mepc\<close>, with \<open>panic\<close> as the return address) exactly when the SHA-256
  digest of the image is the trusted measurement; in every other case it returns to its caller
  with \<open>mepc\<close> and \<open>ra\<close> as they were, and no recovery kernel is set up. It never loops and never panics
  on such an image, and its own memory stays intact.
\<close>

theorem start_enters_verified_only:
  assumes "image_ok syms NORMAL (bmem s)" "built v syms (bmem s)" "ctx_usable (sha256_ctx s)" "bl_intact s"
  shows "\<exists>s'. start syms b s = Ok
      (if SHA256 (image_bytes NORMAL (bmem s)) = trusted_kernel_hash v
       then Jump (image_entry NORMAL (bmem s)) else Return, s')
    \<and> (mepc s', reg_ra s') =
      (if SHA256 (image_bytes NORMAL (bmem s)) = trusted_kernel_hash v
       then (image_entry NORMAL (bmem s), sym_panic syms) else (mepc s, reg_ra s))
    \<and> bl_intact s'"
  using start_spec [OF assms(1-3), of b] assms(4) unfolding verified_def by auto

theorem start_enters_verified_only_witness:
  "\<exists>s'. start sample_symbols sample_buf sample_boot = Ok
      (if SHA256 (image_bytes NORMAL sample_memory) = trusted_kernel_hash KERNEL2
       then Jump 0x81000000 else Return, s') \<and> bl_intact s'"
  using start_enters_verified_only [of sample_symbols sample_boot KERNEL2 sample_buf] sample_ok sample_built
  by (auto simp: sample_image)

text \<open>
  C2. The memory \<open>start\<close> leaves, on every exit, for such an image: the load area holds the image from its
  fifth block on, byte for byte, and outside the load area, the 96-byte table and the memory of the
  bootloader itself nothing has changed. So the second, shorter, loading loop of \<open>start\<close> does no harm;
  the bytes after the last whole block are measured but not loaded; and the image is in place even
  when it was refused.
\<close>

theorem start_memory:
  assumes "image_ok syms NORMAL (bmem s)" "built v syms (bmem s)" "ctx_usable (sha256_ctx s)" "bl_intact s"
  shows "\<exists>e s'. start syms b s = Ok (e, s') \<and> bl_intact s'
    \<and> (\<forall>x. table_area x \<or> bl_area syms x \<or> bmem s' x =
         (if load_area (bmem s) x
          then bmem s (RAMDISK + of_nat (4 * BSIZE) + (x - image_load_addr NORMAL (bmem s)))
          else bmem s x))"
  using start_spec [OF assms(1-3), of b] boot_memory [OF assms(1), of _ v] assms(4) by force

theorem start_memory_witness:
  "\<exists>e s'. start sample_symbols sample_buf sample_boot = Ok (e, s') \<and> bmem s' 0x81000007 = 0xcd"
proof -
  have "load_area sample_memory 0x81000007" "\<not> table_area 0x81000007" "\<not> bl_area sample_symbols 0x81000007"
    by (simp_all add: load_area_def table_area_def bl_area_def bl_size_def sample_image within_def SYS_INFO_def
        KERNBASE_bl_def sample_symbols_def)
  moreover have "sample_memory 0x84001007 = 0xcd" by (simp add: sample_memory_def)
  ultimately show ?thesis
    using start_memory [of sample_symbols sample_boot KERNEL2 sample_buf] sample_ok sample_built
    by (fastforce simp: sample_image RAMDISK_def)
qed

text \<open>
  C7. The measurement is recorded: on an image whose load area touches neither the image nor the
  bootloader, whatever the outcome, \<open>is_secure_boot\<close> leaves the trusted measurement and the digest of the
  image in the two fields of the table, and its answer is whether they are equal.
\<close>

theorem is_secure_boot_records:
  assumes "image_ok syms NORMAL (bmem s)" "built v syms (bmem s)" "sys_info_ptr s = SYS_INFO" "ctx_usable (sha256_ctx s)" "bl_intact s"
  shows "\<exists>s'. is_secure_boot syms b s
      = Ok (SHA256 (image_bytes NORMAL (bmem s)) = trusted_kernel_hash v, s')
    \<and> load_bytes (bmem s') (expected_field s') 32 = trusted_kernel_hash v
    \<and> load_bytes (bmem s') (observed_field s') 32 = SHA256 (image_bytes NORMAL (bmem s))
    \<and> bl_intact s'"
  using is_secure_boot_spec [of s syms v b] assms
    measured_fields [where v = v and p = SYS_INFO and m = "bmem s"]
  by (auto simp: image_ok_def expected_field_def observed_field_def)

theorem is_secure_boot_records_witness:
  "\<exists>s'. is_secure_boot sample_symbols sample_buf sample_boot
      = Ok (SHA256 (image_bytes NORMAL sample_memory) = trusted_kernel_hash KERNEL2, s')
    \<and> load_bytes (bmem s') (expected_field s') 32 = trusted_kernel_hash KERNEL2"
  using is_secure_boot_records [of sample_symbols sample_boot KERNEL2 sample_buf] sample_ok sample_built by auto

text \<open>
  C8. An image whose headers claim at least 2000 and fewer than \<open>2\<^sup>3\<^sup>2\<close> blocks makes \<open>start\<close> panic in
  \<open>kernel_copy\<close>, before anything is compared and without entering the kernel. By then 1996 blocks have
  been copied: when that area does not touch the memory of the bootloader, its memory is intact.
\<close>

theorem start_too_big:
  assumes "FSSIZE \<le> image_blocks NORMAL (bmem s)" "image_blocks NORMAL (bmem s) < 2 ^ 32"
    "clear syms (image_load_addr NORMAL (bmem s)) FSSIZE" "symbols_ok syms"
  shows "start syms b s = Panic ''ramdiskrw: blockno too big''
    \<and> (\<exists>b' t'. for_upto 0 FSSIZE (measure_pass syms (image_load_addr NORMAL (bmem s))) (b, t) = Ok (b', t') \<and> bl_intact t' = bl_intact t)"
  using is_secure_boot_too_big [of "s\<lparr>sys_info_ptr := SYS_INFO,
      reg_tp := scast (ucast (mhartid s) :: uint32)\<rparr>" syms b] measure_full_disk [OF assms(3,4), of b t] assms
  by (simp add: start_def Let_def)

text \<open>The sample with a section table at \<open>0x200000\<close>, that is 2048 blocks.\<close>

definition big_memory :: memory where
  "big_memory = sample_memory(0x84000029 := 0, 0x8400002a := 0x20)"

lemma big_image: "image_blocks NORMAL big_memory = 2048" "image_load_addr NORMAL big_memory = 0x81000000"
  by (simp_all add: image_defs big_memory_def RAMDISK_def)

theorem start_too_big_witness:
  "start sample_symbols sample_buf (sample_boot\<lparr>bmem := big_memory\<rparr>)
     = Panic ''ramdiskrw: blockno too big''
   \<and> (\<exists>b' t'. for_upto 0 FSSIZE (measure_pass sample_symbols 0x81000000) (sample_buf, sample_boot) = Ok (b', t') \<and> bl_intact t')"
  using start_too_big [of "sample_boot\<lparr>bmem := big_memory\<rparr>" sample_symbols sample_buf sample_boot] sample_symbols_ok
  by (simp add: big_image sample_clear)

text \<open>
  C9. \<open>setup_recovery_kernel\<close>, on a recovery image whose load area touches neither the image nor the
  bootloader, loads the image from its fifth block on to the address its program header names and
  leaves its entry point in \<open>mepc\<close>; outside that area and the memory of the bootloader itself nothing
  changes.
\<close>

theorem setup_recovery_kernel_loads:
  assumes "image_ok syms RECOVERY (bmem s)" "symbols_ok syms" "bl_intact s"
  shows "\<exists>s'. setup_recovery_kernel syms b s = Ok s'
    \<and> mepc s' = image_entry RECOVERY (bmem s) \<and> bl_intact s'
    \<and> (\<forall>x. bl_area syms x \<or> bmem s' x =
        (if within (image_load_addr RECOVERY (bmem s)) ((image_blocks RECOVERY (bmem s) - 4) * BSIZE) x
         then bmem s (RECOVERYDISK + of_nat (4 * BSIZE) + (x - image_load_addr RECOVERY (bmem s)))
         else bmem s x))"
proof -
  let ?m = "bmem s" and ?n = "image_blocks RECOVERY (bmem s)"
  let ?la = "image_load_addr RECOVERY ?m"
  let ?s = "s\<lparr>kernel_phdr := image_phdr RECOVERY ?m, kernel_elfhdr := disk_base RECOVERY\<rparr>"
  have nb: "unat (image_size RECOVERY ?m div 1024) = ?n" by (simp add: image_blocks_def unat_div)
  obtain b' where loop: "for_upto 0 ?n (load_pass syms RECOVERY ?la) (b, ?s)
      = Ok (b', ?s\<lparr>bmem := load_image ?m RECOVERY ?la ?n ?m\<rparr>)"
    using load_loop [of RECOVERY ?la ?n syms b ?s] assms by (auto simp: image_ok_def)
  have "disk_agree RECOVERY ?n ?m (load_image ?m RECOVERY ?la ?n ?m)"
    using assms by (intro agree_load_image) (simp_all add: image_ok_def)
  then have "image_entry RECOVERY (load_image ?m RECOVERY ?la ?n ?m) = image_entry RECOVERY ?m"
    using agree_headers(2) assms by (auto simp: image_ok_def)
  then have "setup_recovery_kernel syms b s = Ok (?s\<lparr>bmem := load_image ?m RECOVERY ?la ?n ?m, mepc := image_entry RECOVERY ?m\<rparr>)"
    using loop by (simp add: setup_recovery_kernel_def find_kernel_eqs Let_def nb)
  moreover have "load_image ?m RECOVERY ?la ?n ?m x =
      (if within ?la ((?n - 4) * BSIZE) x then ?m (RECOVERYDISK + of_nat (4 * BSIZE) + (x - ?la)) else ?m x)" for x
    using load_image_apply [of ?n ?m RECOVERY ?la ?m x] assms(1) by (simp add: image_ok_def disk_base_def)
  ultimately show ?thesis using assms(3) by simp
qed

theorem setup_recovery_kernel_loads_witness:
  "\<exists>s'. setup_recovery_kernel sample_symbols sample_buf sample_boot = Ok s' \<and> mepc s' = 0x82000000 \<and> bmem s' 0x82000007 = 0xab"
proof -
  have "disjoint_ranges 0x82000000 1024 RECOVERYDISK (6 * 1024)"
    by (intro disjoint_ranges_apart) (simp_all add: RECOVERYDISK_def)
  then have "image_ok sample_symbols RECOVERY sample_memory"
    by (simp add: image_ok_def sample_recovery apart_def disk_base_def disjoint_ranges_sym sample_clear)
  moreover have "\<not> bl_area sample_symbols 0x82000007"
    by (simp add: bl_area_def bl_size_def within_def KERNBASE_bl_def sample_symbols_def)
  moreover have "sample_memory 0x84501007 = 0xab" by (simp add: sample_memory_def)
  ultimately show ?thesis
    using setup_recovery_kernel_loads [of sample_symbols sample_boot sample_buf] sample_symbols_ok
    by (fastforce simp: sample_recovery RECOVERYDISK_def within_def)
qed

end
