(* ===== verification/Spinlock.thy ===== *)
theory Spinlock
  imports Cstring
begin

text \<open>
  Harts, interrupts and spin locks: \<open>kernel/spinlock.c\<close>, with \<open>cpuid\<close> and \<open>mycpu\<close> of
  \<open>kernel/proc.c\<close>. The first part models the routines as one hart runs them: a lock that another
  hart holds makes \<open>acquire\<close> spin, which is \<open>Hang\<close>. The second part interleaves the instructions
  of \<open>acquire\<close> and \<open>release\<close> on any number of harts.
\<close>

section \<open>The machine\<close>

type_synonym hart = nat

record spinlock =
  locked :: uint32
  lk_cpu :: "hart option"

record cpu =
  cpu_proc :: "nat option"
  noff :: int
  intena :: bool

text \<open>Every spin lock of the kernel has a name of its own.\<close>

datatype lockid = KMEM | PID_LOCK | WAIT_LOCK | PROC nat | TICKS | BCACHE | SLEEP_BUF nat
  | LOG | ITABLE | SLEEP_INODE nat | FTABLE | PIPE addr | CONS | UART_TX | PR | VDISK

text \<open>
  \<open>tp\<close> is the hart that is running, \<open>sie\<close> the interrupt-enable bit of each hart's \<open>sstatus\<close>.
\<close>

record machine =
  mem :: memory
  tp :: hart
  cpus :: "hart \<Rightarrow> cpu"
  sie :: "hart \<Rightarrow> bool"
  locks :: "lockid \<Rightarrow> spinlock"

definition cpuid :: "'z machine_scheme \<Rightarrow> hart" where
  "cpuid s = tp s"

definition mycpu :: "'z machine_scheme \<Rightarrow> cpu" where
  "mycpu s = cpus s (cpuid s)"

definition set_mycpu :: "(cpu \<Rightarrow> cpu) \<Rightarrow> 'z machine_scheme \<Rightarrow> 'z machine_scheme" where
  "set_mycpu f s = s\<lparr>cpus := (cpus s)(cpuid s := f (mycpu s))\<rparr>"

definition intr_get :: "'z machine_scheme \<Rightarrow> bool" where
  "intr_get s = sie s (tp s)"

definition intr_on :: "'z machine_scheme \<Rightarrow> 'z machine_scheme" where
  "intr_on s = s\<lparr>sie := (sie s)(tp s := True)\<rparr>"

definition intr_off :: "'z machine_scheme \<Rightarrow> 'z machine_scheme" where
  "intr_off s = s\<lparr>sie := (sie s)(tp s := False)\<rparr>"

section \<open>Operations\<close>

definition initlock :: "lockid \<Rightarrow> 'z machine_scheme \<Rightarrow> 'z machine_scheme" where
  "initlock lk s = s\<lparr>locks := (locks s)(lk := \<lparr>locked = 0, lk_cpu = None\<rparr>)\<rparr>"

definition holding :: "lockid \<Rightarrow> 'z machine_scheme \<Rightarrow> bool" where
  "holding lk s \<longleftrightarrow> locked (locks s lk) \<noteq> 0 \<and> lk_cpu (locks s lk) = Some (cpuid s)"

definition push_off :: "'z machine_scheme \<Rightarrow> 'z machine_scheme" where
  "push_off s =
     (let old = intr_get s;
          s = intr_off s;
          s = (if noff (mycpu s) = 0 then set_mycpu (\<lambda>c. c\<lparr>intena := old\<rparr>) s else s)
      in set_mycpu (\<lambda>c. c\<lparr>noff := noff c + 1\<rparr>) s)"

definition pop_off :: "'z machine_scheme \<Rightarrow> 'z machine_scheme res" where
  "pop_off s =
     (if intr_get s then Panic ''pop_off - interruptible''
      else if noff (mycpu s) < 1 then Panic ''pop_off''
      else let s = set_mycpu (\<lambda>c. c\<lparr>noff := noff c - 1\<rparr>) s
           in Ok (if noff (mycpu s) = 0 \<and> intena (mycpu s) then intr_on s else s))"

text \<open>
  \<open>__sync_lock_test_and_set\<close> leaves 1 in the lock word in any case; a hart that found it set keeps
  swapping.
\<close>

definition acquire :: "lockid \<Rightarrow> 'z machine_scheme \<Rightarrow> 'z machine_scheme res" where
  "acquire lk s =
     (let s = push_off s
      in if holding lk s then Panic ''acquire''
         else if locked (locks s lk) \<noteq> 0 then Hang
         else Ok (s\<lparr>locks := (locks s)(lk := \<lparr>locked = 1, lk_cpu = Some (cpuid s)\<rparr>)\<rparr>))"

definition release :: "lockid \<Rightarrow> 'z machine_scheme \<Rightarrow> 'z machine_scheme res" where
  "release lk s =
     (if \<not> holding lk s then Panic ''release''
      else pop_off (s\<lparr>locks := (locks s)(lk := \<lparr>locked = 0, lk_cpu = None\<rparr>)\<rparr>))"

section \<open>Critical sections\<close>

text \<open>
  A lock that nobody holds; a hart whose nesting depth is not negative and whose interrupts are
  off inside a critical section.
\<close>

definition lock_free :: "lockid \<Rightarrow> 'z machine_scheme \<Rightarrow> bool" where
  "lock_free lk s \<longleftrightarrow> locks s lk = \<lparr>locked = 0, lk_cpu = None\<rparr>"

definition cpu_ok :: "'z machine_scheme \<Rightarrow> bool" where
  "cpu_ok s \<longleftrightarrow> 0 \<le> noff (mycpu s) \<and> (0 < noff (mycpu s) \<longrightarrow> \<not> intr_get s)"

text \<open>
  \<open>locking lk s\<close> is \<open>s\<close> with \<open>lk\<close> held by the running hart; \<open>settle s\<close> is what a matched pair of
  \<open>acquire\<close> and \<open>release\<close> leaves of \<open>s\<close>: only the remembered interrupt state can differ.
\<close>

definition locking :: "lockid \<Rightarrow> 'z machine_scheme \<Rightarrow> 'z machine_scheme" where
  "locking lk s = (push_off s)\<lparr>locks := (locks s)(lk := \<lparr>locked = 1, lk_cpu = Some (tp s)\<rparr>)\<rparr>"

definition settle :: "'z machine_scheme \<Rightarrow> 'z machine_scheme" where
  "settle s = set_mycpu (\<lambda>c. c\<lparr>intena := if noff c = 0 then intr_get s else intena c\<rparr>) s"

lemmas machine_ops = cpuid_def mycpu_def set_mycpu_def intr_get_def intr_on_def intr_off_def

lemma acquire_free: "lock_free lk s \<Longrightarrow> acquire lk s = Ok (locking lk s)"
  by (simp add: acquire_def lock_free_def locking_def push_off_def holding_def machine_ops Let_def)

lemma acquire_held:
  "locked (locks s lk) \<noteq> 0 \<Longrightarrow> lk_cpu (locks s lk) = Some (tp s) \<Longrightarrow> acquire lk s = Panic ''acquire''"
  by (simp add: acquire_def push_off_def holding_def machine_ops Let_def)

lemma acquire_spins:
  "locked (locks s lk) \<noteq> 0 \<Longrightarrow> lk_cpu (locks s lk) \<noteq> Some (tp s) \<Longrightarrow> acquire lk s = Hang"
  by (simp add: acquire_def push_off_def holding_def machine_ops Let_def)

text \<open>
  The selectors of the machine under \<open>locking\<close> and \<open>settle\<close>; both leave every later field of an
  extended state alone.
\<close>

lemma push_off_more: "push_off s = s\<lparr>cpus := cpus (push_off s), sie := (sie s)(tp s := False)\<rparr>"
  by (simp add: push_off_def machine_ops Let_def)

lemma locking_simps [simp]:
  "mem (locking lk s) = mem s" "tp (locking lk s) = tp s"
  "locks (locking lk s) = (locks s)(lk := \<lparr>locked = 1, lk_cpu = Some (tp s)\<rparr>)"
  by (simp_all add: locking_def push_off_def machine_ops Let_def)

lemma settle_simps [simp]:
  "mem (settle s) = mem s" "tp (settle s) = tp s" "locks (settle s) = locks s"
  "sie (settle s) = sie s" "lock_free lk (settle s) = lock_free lk s"
  "cpu_ok (settle s) = cpu_ok s"
  by (simp_all add: settle_def machine_ops lock_free_def cpu_ok_def)

lemma settle_settle [simp]: "settle (settle s) = settle s"
  by (simp add: settle_def machine_ops)

lemma locking_drop:
  "(locking lk s)\<lparr>cpus := c, sie := i, locks := l\<rparr> = s\<lparr>cpus := c, sie := i, locks := l\<rparr>"
  by (simp add: locking_def push_off_def machine_ops Let_def)

lemma settle_cpus: "s\<lparr>cpus := cpus (settle s)\<rparr> = settle s"
  by (simp add: settle_def machine_ops)

text \<open>
  A critical section whose body changes neither the harts nor the lock: leaving it gives the
  settled state. \<open>f\<close> is the body's change of the other fields.
\<close>

lemma release_after:
  assumes "cpu_ok s" "cpus t = cpus (locking lk s)" "sie t = sie (locking lk s)" "tp t = tp s"
    "locks t = locks (locking lk s)" "lock_free lk s"
  shows "release lk t = Ok (t\<lparr>cpus := cpus (settle s), sie := sie s, locks := locks s\<rparr>)"
proof -
  have "(locks s)(lk := \<lparr>locked = 0, lk_cpu = None\<rparr>) = locks s"
    using assms(6) by (auto simp: lock_free_def)
  moreover have "sie s (tp s) \<Longrightarrow> (sie s)(tp s := True) = sie s"
    "\<not> sie s (tp s) \<Longrightarrow> (sie s)(tp s := False) = sie s"
    by (auto simp: fun_eq_iff)
  moreover obtain p n e where "cpus s (tp s) = \<lparr>cpu_proc = p, noff = n, intena = e\<rparr>"
    by (cases "cpus s (tp s)")
  ultimately show ?thesis
    using assms(1-5)
    by (auto simp: release_def holding_def pop_off_def locking_def push_off_def settle_def
        machine_ops Let_def cpu_ok_def intro!: machine.equality)
qed

lemma settle_id: "noff (mycpu s) \<noteq> 0 \<Longrightarrow> settle s = s"
  by (cases "cpus s (tp s)") (auto simp: settle_def machine_ops intro!: machine.equality)

lemma cpu_ok_locking: "cpu_ok s \<Longrightarrow> cpu_ok (locking lk s)"
  by (auto simp: cpu_ok_def locking_def push_off_def machine_ops Let_def)

lemma locking_fields [simp]:
  "lock_free lk' (locking lk s) = (lk' \<noteq> lk \<and> lock_free lk' s)" "noff (mycpu (locking lk s)) = noff (mycpu s) + 1"
  "cpu_proc (mycpu (locking lk s)) = cpu_proc (mycpu s)"
  by (auto simp: lock_free_def locking_def push_off_def machine_ops Let_def)

lemma settle_locking: "cpu_ok s \<Longrightarrow> settle (locking lk s) = locking lk s"
  by (rule settle_id) (simp add: cpu_ok_def)

lemma settle_mem: "settle (s\<lparr>mem := m\<rparr>) = (settle s)\<lparr>mem := m\<rparr>"
  by (simp add: settle_def machine_ops)

lemma lock_free_mem: "lock_free lk (s\<lparr>mem := m\<rparr>) = lock_free lk s"
  by (simp add: lock_free_def)

section \<open>Harts that interleave\<close>

text \<open>
  Where a hart is in \<open>acquire\<close> or \<open>release\<close> of one lock. \<open>holding\<close> reads the lock word and then
  the owner, and other harts may run in between.
\<close>

datatype lock_pc =
    Outside
  | AcqOwner
  | Spinning
  | Swapped
  | Inside
  | RelOwner
  | Leaving
  | Cleared
  | Panicked string

record lock_run =
  word :: uint32
  owner :: "hart option"
  at :: "hart \<Rightarrow> lock_pc"

definition goto :: "hart \<Rightarrow> lock_pc \<Rightarrow> lock_run \<Rightarrow> lock_run" where
  "goto h p c = c\<lparr>at := (at c)(h := p)\<rparr>"

inductive lock_step :: "lock_run \<Rightarrow> lock_run \<Rightarrow> bool" where
  acq_word: "at c h = Outside \<Longrightarrow> lock_step c (goto h (if word c \<noteq> 0 then AcqOwner else Spinning) c)"
| acq_owner: "at c h = AcqOwner \<Longrightarrow>
    lock_step c (goto h (if owner c = Some h then Panicked ''acquire'' else Spinning) c)"
| swap: "at c h = Spinning \<Longrightarrow>
    lock_step c (goto h (if word c = 0 then Swapped else Spinning) (c\<lparr>word := 1\<rparr>))"
| set_owner: "at c h = Swapped \<Longrightarrow> lock_step c (goto h Inside (c\<lparr>owner := Some h\<rparr>))"
| rel_word: "at c h = Inside \<Longrightarrow>
    lock_step c (goto h (if word c \<noteq> 0 then RelOwner else Panicked ''release'') c)"
| rel_owner: "at c h = RelOwner \<Longrightarrow>
    lock_step c (goto h (if owner c = Some h then Leaving else Panicked ''release'') c)"
| clear_owner: "at c h = Leaving \<Longrightarrow> lock_step c (goto h Cleared (c\<lparr>owner := None\<rparr>))"
| clear_word: "at c h = Cleared \<Longrightarrow> lock_step c (goto h Outside (c\<lparr>word := 0\<rparr>))"

definition lock_start :: lock_run where
  "lock_start = \<lparr>word = 0, owner = None, at = \<lambda>_. Outside\<rparr>"

definition has_lock :: "lock_pc \<Rightarrow> bool" where
  "has_lock p \<longleftrightarrow> p \<in> {Swapped, Inside, RelOwner, Leaving, Cleared}"

definition is_owner :: "lock_pc \<Rightarrow> bool" where
  "is_owner p \<longleftrightarrow> p \<in> {Inside, RelOwner, Leaving}"

text \<open>
  \<open>who\<close> is the hart that has the lock: it alone is past the swap, the lock word is set exactly when
  there is one, and \<open>lk->cpu\<close> names a hart exactly while that hart is inside.
\<close>

definition lock_inv :: "hart option \<Rightarrow> lock_run \<Rightarrow> bool" where
  "lock_inv who c \<longleftrightarrow> (\<forall>h. has_lock (at c h) \<longleftrightarrow> who = Some h)
     \<and> (word c \<noteq> 0 \<longleftrightarrow> who \<noteq> None)
     \<and> (\<forall>h. owner c = Some h \<longleftrightarrow> is_owner (at c h))
     \<and> (\<forall>h m. at c h \<noteq> Panicked m)"

lemma lock_inv_start: "lock_inv None lock_start"
  by (simp add: lock_inv_def lock_start_def has_lock_def is_owner_def)

lemma lock_inv_at:
  "lock_inv who c \<Longrightarrow> has_lock (at c h) \<longleftrightarrow> who = Some h"
  "lock_inv who c \<Longrightarrow> is_owner (at c h) \<longleftrightarrow> owner c = Some h"
  by (simp_all add: lock_inv_def)

lemma lock_inv_word: "lock_inv who c \<Longrightarrow> word c \<noteq> 0 \<longleftrightarrow> who \<noteq> None"
  by (simp add: lock_inv_def)

lemma lock_inv_owner: "lock_inv who c \<Longrightarrow> owner c = Some g \<Longrightarrow> who = Some g"
  using lock_inv_at [of who c g] by (auto simp: has_lock_def is_owner_def)

lemma lock_inv_goto:
  assumes "lock_inv who c" "\<And>g. g \<noteq> h \<Longrightarrow> who' = Some g \<longleftrightarrow> who = Some g"
    "has_lock p \<longleftrightarrow> who' = Some h" "w \<noteq> 0 \<longleftrightarrow> who' \<noteq> None"
    "\<And>g. g \<noteq> h \<Longrightarrow> ow = Some g \<longleftrightarrow> owner c = Some g"
    "is_owner p \<longleftrightarrow> ow = Some h" "\<And>m. p \<noteq> Panicked m"
  shows "lock_inv who' (goto h p (c\<lparr>word := w, owner := ow\<rparr>))"
  using assms by (simp add: lock_inv_def goto_def)

lemmas lock_inv_stay = lock_inv_goto [where w = "word c" and ow = "owner c" and c = c for c, simplified]

lemma lock_inv_step: "lock_step c c' \<Longrightarrow> lock_inv who c \<Longrightarrow> \<exists>who. lock_inv who c'"
proof (induction rule: lock_step.induct)
  case (acq_word c h)
  note h = lock_inv_at [OF acq_word.prems, of h, unfolded acq_word.hyps]
    lock_inv_word [OF acq_word.prems]
  have "lock_inv who (goto h (if word c \<noteq> 0 then AcqOwner else Spinning) c)"
    by (rule lock_inv_stay [OF acq_word.prems]) (use h in \<open>auto simp: has_lock_def is_owner_def\<close>)
  then show ?case by blast
next
  case (acq_owner c h)
  note h = lock_inv_at [OF acq_owner.prems, of h, unfolded acq_owner.hyps]
    lock_inv_word [OF acq_owner.prems]
  have "lock_inv who (goto h (if owner c = Some h then Panicked ''acquire'' else Spinning) c)"
    by (rule lock_inv_stay [OF acq_owner.prems]) (use h in \<open>auto simp: has_lock_def is_owner_def\<close>)
  then show ?case by blast
next
  case (swap c h)
  note h = lock_inv_at [OF swap.prems, of h, unfolded swap.hyps]
    lock_inv_word [OF swap.prems]
  have "lock_inv (if word c = 0 then Some h else who)
      (goto h (if word c = 0 then Swapped else Spinning) (c\<lparr>word := 1, owner := owner c\<rparr>))"
    by (rule lock_inv_goto [OF swap.prems]) (use h in \<open>auto simp: has_lock_def is_owner_def\<close>)
  then show ?case by auto
next
  case (set_owner c h)
  note h = lock_inv_at [OF set_owner.prems, of h, unfolded set_owner.hyps]
    lock_inv_word [OF set_owner.prems]
  have "lock_inv who (goto h Inside (c\<lparr>word := word c, owner := Some h\<rparr>))"
    by (rule lock_inv_goto [OF set_owner.prems])
      (use h lock_inv_owner [OF set_owner.prems] in \<open>auto simp: has_lock_def is_owner_def\<close>)
  then show ?case by auto
next
  case (rel_word c h)
  note h = lock_inv_at [OF rel_word.prems, of h, unfolded rel_word.hyps]
    lock_inv_word [OF rel_word.prems]
  have "lock_inv who (goto h (if word c \<noteq> 0 then RelOwner else Panicked ''release'') c)"
    by (rule lock_inv_stay [OF rel_word.prems]) (use h in \<open>auto simp: has_lock_def is_owner_def\<close>)
  then show ?case by blast
next
  case (rel_owner c h)
  note h = lock_inv_at [OF rel_owner.prems, of h, unfolded rel_owner.hyps]
    lock_inv_word [OF rel_owner.prems]
  have "lock_inv who (goto h (if owner c = Some h then Leaving else Panicked ''release'') c)"
    by (rule lock_inv_stay [OF rel_owner.prems]) (use h in \<open>auto simp: has_lock_def is_owner_def\<close>)
  then show ?case by blast
next
  case (clear_owner c h)
  note h = lock_inv_at [OF clear_owner.prems, of h, unfolded clear_owner.hyps]
    lock_inv_word [OF clear_owner.prems]
  have "lock_inv who (goto h Cleared (c\<lparr>word := word c, owner := None\<rparr>))"
    by (rule lock_inv_goto [OF clear_owner.prems])
      (use h in \<open>auto simp: has_lock_def is_owner_def\<close>)
  then show ?case by auto
next
  case (clear_word c h)
  note h = lock_inv_at [OF clear_word.prems, of h, unfolded clear_word.hyps]
    lock_inv_word [OF clear_word.prems]
  have "lock_inv None (goto h Outside (c\<lparr>word := 0, owner := owner c\<rparr>))"
    by (rule lock_inv_goto [OF clear_word.prems]) (use h in \<open>auto simp: has_lock_def is_owner_def\<close>)
  then show ?case by auto
qed

lemma lock_inv_reachable: "lock_step\<^sup>*\<^sup>* lock_start c \<Longrightarrow> \<exists>who. lock_inv who c"
  by (induction rule: rtranclp_induct) (use lock_inv_start lock_inv_step in blast)+

section \<open>Nested interrupt disabling\<close>

primrec pop_offs :: "nat \<Rightarrow> 'z machine_scheme \<Rightarrow> 'z machine_scheme res" where
  "pop_offs 0 s = Ok s"
| "pop_offs (Suc n) s = bnd (pop_off s) (pop_offs n)"

lemma push_off_twice:
  "cpu_ok s \<Longrightarrow> pop_off (push_off (push_off s)) = Ok (push_off s)"
  by (auto simp: cpu_ok_def push_off_def pop_off_def machine_ops Let_def fun_eq_iff
      intro!: machine.equality)

lemma push_off_once: "cpu_ok s \<Longrightarrow> pop_off (push_off s) = Ok (settle s)"
proof -
  assume "cpu_ok s"
  moreover have "sie s (tp s) \<Longrightarrow> (sie s)(tp s := True) = sie s"
    "\<not> sie s (tp s) \<Longrightarrow> (sie s)(tp s := False) = sie s"
    by (auto simp: fun_eq_iff)
  moreover obtain p n e where "cpus s (tp s) = \<lparr>cpu_proc = p, noff = n, intena = e\<rparr>"
    by (cases "cpus s (tp s)")
  ultimately show ?thesis
    by (auto simp: cpu_ok_def push_off_def pop_off_def settle_def machine_ops Let_def
        intro!: machine.equality)
qed

lemma cpu_ok_push_off: "cpu_ok s \<Longrightarrow> cpu_ok (push_off s)"
  by (auto simp: cpu_ok_def push_off_def machine_ops Let_def)

lemma push_offs: "cpu_ok s \<Longrightarrow> cpu_ok ((push_off ^^ n) s)"
  by (induction n) (auto intro: cpu_ok_push_off)

lemma pop_offs_push_offs:
  "cpu_ok s \<Longrightarrow> pop_offs (Suc n) ((push_off ^^ Suc n) s) = Ok (settle s)"
proof (induction n)
  case 0
  then show ?case by (simp add: push_off_once)
next
  case (Suc n)
  have "pop_off ((push_off ^^ Suc (Suc n)) s) = Ok ((push_off ^^ Suc n) s)"
    using push_off_twice [OF push_offs [OF Suc.prems, of n]] by simp
  then show ?case using Suc by simp
qed

lemma push_offs_intr: "\<not> intr_get ((push_off ^^ Suc n) s)"
  by (simp add: push_off_def machine_ops Let_def)

section \<open>Properties\<close>

text \<open>
  C10. Mutual exclusion. Let any number of harts call \<open>acquire\<close> and \<open>release\<close> on one lock, their
  instructions interleaved in any order: two harts never are between the swap of \<open>acquire\<close> and the
  store of \<open>release\<close> at the same time, and although \<open>holding\<close> reads the lock without
  synchronisation, neither of its two callers ever panics.
\<close>

theorem lock_mutual_exclusion:
  assumes "lock_step\<^sup>*\<^sup>* lock_start c"
  shows "(has_lock (at c g) \<and> has_lock (at c h) \<longrightarrow> g = h) \<and> at c g \<noteq> Panicked m"
  using lock_inv_reachable [OF assms] by (auto simp: lock_inv_def)

text \<open>Hart 0 is inside; hart 1 has found the lock word set and looks at the owner.\<close>

definition sample_run :: lock_run where
  "sample_run = goto 1 AcqOwner (goto 0 Inside (lock_start\<lparr>word := 1, owner := Some 0\<rparr>))"

lemma sample_run_reachable: "lock_step\<^sup>*\<^sup>* lock_start sample_run"
proof -
  let ?a = "goto 0 Spinning lock_start"
  let ?b = "goto 0 Swapped (lock_start\<lparr>word := 1\<rparr>)"
  let ?c = "goto 0 Inside (lock_start\<lparr>word := 1, owner := Some 0\<rparr>)"
  have "lock_step lock_start ?a"
    using acq_word [of lock_start 0] by (simp add: lock_start_def)
  moreover have "lock_step ?a ?b"
    using swap [of ?a 0] by (simp add: lock_start_def goto_def)
  moreover have "lock_step ?b ?c"
    using set_owner [of ?b 0] by (simp add: lock_start_def goto_def)
  moreover have "lock_step ?c sample_run"
    using acq_word [of ?c 1] by (simp add: lock_start_def goto_def sample_run_def)
  ultimately show ?thesis
    by (blast intro: converse_rtranclp_into_rtranclp rtranclp.rtrancl_refl)
qed

theorem lock_mutual_exclusion_witness:
  "has_lock (at sample_run 0) \<and> \<not> has_lock (at sample_run 1)"
  using lock_mutual_exclusion [OF sample_run_reachable, of 0 1 "[]"]
  by (simp add: sample_run_def goto_def has_lock_def)

text \<open>
  C11. A matched \<open>acquire\<close> and \<open>release\<close> of a free lock never panics and never spins; in between the
  lock is held with interrupts off, so a second \<open>acquire\<close> by the same hart panics and one by
  another hart spins; afterwards the lock is free again, interrupts are as before, and of the whole
  machine only the remembered interrupt state may differ.
\<close>

theorem acquire_release:
  assumes "lock_free lk s" "cpu_ok s" "h \<noteq> tp s"
  shows "acquire lk s = Ok (locking lk s) \<and> holding lk (locking lk s)
    \<and> \<not> intr_get (locking lk s)
    \<and> acquire lk (locking lk s) = Panic ''acquire''
    \<and> acquire lk ((locking lk s)\<lparr>tp := h\<rparr>) = Hang
    \<and> release lk ((locking lk s)\<lparr>tp := h\<rparr>) = Panic ''release''
    \<and> release lk (locking lk s) = Ok (settle s)"
proof -
  have "release lk (locking lk s) = Ok (settle s)"
    using release_after [of s "locking lk s" lk] assms(1,2) by (simp add: locking_drop settle_cpus)
  then show ?thesis
    using assms by (simp add: acquire_free acquire_held acquire_spins)
      (simp add: locking_def push_off_def holding_def release_def machine_ops Let_def)
qed

definition sample_machine :: machine where
  "sample_machine = \<lparr>mem = (\<lambda>_. 0), tp = 0, cpus = (\<lambda>_. \<lparr>cpu_proc = None, noff = 0, intena = False\<rparr>),
     sie = (\<lambda>_. True), locks = (\<lambda>_. \<lparr>locked = 0, lk_cpu = None\<rparr>)\<rparr>"

lemma sample_machine_ok: "lock_free lk sample_machine" "cpu_ok sample_machine"
  by (simp_all add: lock_free_def cpu_ok_def sample_machine_def machine_ops)

theorem acquire_release_witness:
  "acquire KMEM (locking KMEM sample_machine) = Panic ''acquire''
   \<and> release KMEM (locking KMEM sample_machine) = Ok (settle sample_machine)"
  using acquire_release [OF sample_machine_ok, of 1] by (simp add: sample_machine_def)

text \<open>
  \<open>push_off\<close> and \<open>pop_off\<close> nest: after any number of \<open>push_off\<close> interrupts are off, and as many
  \<open>pop_off\<close> restore the interrupt state, on or off, and the nesting depth, without panicking.
\<close>

theorem push_pop_matched:
  assumes "cpu_ok s"
  shows "\<not> intr_get ((push_off ^^ Suc n) s)
    \<and> pop_offs (Suc n) ((push_off ^^ Suc n) s) = Ok (settle s)
    \<and> intr_get (settle s) = intr_get s \<and> noff (mycpu (settle s)) = noff (mycpu s)"
  using pop_offs_push_offs [OF assms, of n] push_offs_intr [of n s]
  by (simp add: settle_def machine_ops)

theorem push_pop_matched_witness:
  "pop_offs 3 ((push_off ^^ 3) sample_machine) = Ok (settle sample_machine)"
  using push_pop_matched [OF sample_machine_ok(2), of 2] by (simp add: numeral_eq_Suc)

end
