(* ===== verification/Kalloc.thy ===== *)
theory Kalloc
  imports Spinlock
begin

text \<open>
  The physical page allocator, \<open>kernel/kalloc.c\<close>: a list of free pages threaded through the pages
  themselves, in physical memory.
\<close>

section \<open>Model\<close>

abbreviation PGSIZE :: nat where "PGSIZE \<equiv> 4096"

definition KERNBASE :: addr where "KERNBASE = 0x81000000"
definition PHYSTOP :: addr where "PHYSTOP = KERNBASE + 128 * 1024 * 1024"

definition PGROUNDUP :: "uint64 \<Rightarrow> uint64" where
  "PGROUNDUP sz = (sz + 4096 - 1) AND NOT (4096 - 1)"

definition PGROUNDDOWN :: "uint64 \<Rightarrow> uint64" where
  "PGROUNDDOWN a = a AND NOT (4096 - 1)"

text \<open>\<open>kmem\<close>, and the address of the linker's symbol \<open>end\<close>.\<close>

record kmem = machine +
  freelist :: addr
  kernel_end :: addr

definition kfree :: "addr \<Rightarrow> 'z kmem_scheme \<Rightarrow> 'z kmem_scheme res" where
  "kfree pa s =
     (if pa mod 4096 \<noteq> 0 \<or> pa < kernel_end s \<or> pa \<ge> PHYSTOP then Panic ''kfree''
      else let s = s\<lparr>mem := memset (mem s) pa 1 PGSIZE\<rparr>; r = pa
           in bnd (acquire KMEM s) (\<lambda>s.
              let s = s\<lparr>mem := store64 (mem s) r (freelist s)\<rparr>;
                  s = s\<lparr>freelist := r\<rparr>
              in release KMEM s))"

definition kalloc :: "'z kmem_scheme \<Rightarrow> (addr \<times> 'z kmem_scheme) res" where
  "kalloc s =
     bnd (acquire KMEM s) (\<lambda>s.
     let r = freelist s;
         s = (if r \<noteq> 0 then s\<lparr>freelist := load64 (mem s) r\<rparr> else s)
     in bnd (release KMEM s) (\<lambda>s.
        let s = (if r \<noteq> 0 then s\<lparr>mem := memset (mem s) r 5 PGSIZE\<rparr> else s)
        in Ok (r, s)))"

text \<open>The loop of \<open>freerange\<close> ends: \<open>kfree\<close> panics at \<open>PHYSTOP\<close>, long before \<open>p\<close> can wrap.\<close>

lemma kfree_below: "kfree pa s = Ok s' \<Longrightarrow> pa < PHYSTOP"
  by (simp add: kfree_def not_le split: if_splits)

lemma page_step: "p < PHYSTOP \<Longrightarrow> unat (p + 4096) = unat p + 4096"
  by (simp add: word_less_nat_alt PHYSTOP_def KERNBASE_def unat_word_ariths)

function freerange_loop :: "addr \<Rightarrow> addr \<Rightarrow> 'z kmem_scheme \<Rightarrow> 'z kmem_scheme res" where
  "freerange_loop p pa_end s =
     (if p + 4096 \<le> pa_end then bnd (kfree p s) (\<lambda>s. freerange_loop (p + 4096) pa_end s) else Ok s)"
  by pat_completeness auto
termination
proof (relation "measure (\<lambda>(p, e, s). unat PHYSTOP + 4096 - unat p)")
  fix p pa_end and s s' :: "'z kmem_scheme"
  assume "kfree p s = Ok s'"
  then have "p < PHYSTOP" by (rule kfree_below)
  then show "((p + 4096, pa_end, s'), (p, pa_end, s))
      \<in> measure (\<lambda>(p, e, s). unat PHYSTOP + 4096 - unat p)"
    by (simp add: page_step word_less_nat_alt)
qed simp

definition freerange :: "addr \<Rightarrow> addr \<Rightarrow> 'z kmem_scheme \<Rightarrow> 'z kmem_scheme res" where
  "freerange pa_start pa_end s = freerange_loop (PGROUNDUP pa_start) pa_end s"

definition kinit :: "'z kmem_scheme \<Rightarrow> 'z kmem_scheme res" where
  "kinit s = freerange (kernel_end s) PHYSTOP (initlock KMEM s)"

declare freerange_loop.simps [simp del]

section \<open>The free list\<close>

fun free_chain :: "memory \<Rightarrow> addr \<Rightarrow> addr list \<Rightarrow> bool" where
  "free_chain m r [] \<longleftrightarrow> r = 0"
| "free_chain m r (p # ps) \<longleftrightarrow> r = p \<and> p \<noteq> 0 \<and> free_chain m (load64 m p) ps"

definition page_aligned :: "addr \<Rightarrow> bool" where
  "page_aligned p \<longleftrightarrow> p mod 4096 = 0"

definition page_ok :: "addr \<Rightarrow> addr \<Rightarrow> bool" where
  "page_ok e p \<longleftrightarrow> page_aligned p \<and> e \<le> p \<and> p < PHYSTOP"

definition kmem_inv :: "'z kmem_scheme \<Rightarrow> addr list \<Rightarrow> bool" where
  "kmem_inv s ps \<longleftrightarrow> free_chain (mem s) (freelist s) ps \<and> distinct ps
     \<and> (\<forall>p\<in>set ps. page_ok (kernel_end s) p)
     \<and> 0 < kernel_end s \<and> lock_free KMEM s \<and> cpu_ok s"

text \<open>Two different pages do not overlap.\<close>

lemma aligned_unat: "page_aligned p \<longleftrightarrow> 4096 dvd unat p"
proof -
  have "unat (p mod 4096) = unat p mod 4096" by (simp add: unat_mod)
  then show ?thesis unfolding page_aligned_def by (metis dvd_eq_mod_eq_0 unat_0 unat_eq_zero)
qed

lemma pages_disjoint_less:
  assumes "page_aligned p" "page_aligned q" "unat p < unat q"
  shows "disjoint_ranges p PGSIZE q PGSIZE"
proof (rule disjoint_ranges_apart)
  obtain i j where ij: "unat p = 4096 * i" "unat q = 4096 * j"
    using assms(1,2) by (auto simp: aligned_unat elim!: dvdE)
  then show "unat p + PGSIZE \<le> unat q" using assms(3) by auto
  have "unat q < 2 ^ 64" using unsigned_less [of q] by simp
  then have "4096 * j < 4096 * 2 ^ 52" using ij by simp
  then have "Suc j \<le> 2 ^ 52" by simp
  then show "unat q + PGSIZE \<le> 2 ^ 64" using ij by simp
qed

lemma pages_disjoint:
  "page_aligned p \<Longrightarrow> page_aligned q \<Longrightarrow> p \<noteq> q \<Longrightarrow> disjoint_ranges p PGSIZE q PGSIZE"
  using pages_disjoint_less [of p q] pages_disjoint_less [of q p]
  by (metis disjoint_ranges_sym linorder_neqE_nat unsigned_word_eqI)

text \<open>Memory that is only changed inside one page.\<close>

definition same_outside :: "addr \<Rightarrow> memory \<Rightarrow> memory \<Rightarrow> bool" where
  "same_outside p m m' \<longleftrightarrow> (\<forall>x. \<not> within p PGSIZE x \<longrightarrow> m' x = m x)"

lemma same_outside_refl [simp]: "same_outside p m m"
  by (simp add: same_outside_def)

lemma same_outside_store:
  "same_outside p m m' \<Longrightarrow> length bs \<le> PGSIZE \<Longrightarrow> same_outside p m (store_bytes m' p bs)"
  by (auto simp: same_outside_def store_bytes_apply within_def)

lemma load64_other_page:
  assumes "same_outside p m m'" "disjoint_ranges q PGSIZE p PGSIZE"
  shows "load64 m' q = load64 m q"
proof -
  have "load_bytes m' q 8 = load_bytes m q 8"
    using assms by (intro load_bytes_cong) (auto simp: same_outside_def disjoint_ranges_def within_def)
  then show ?thesis by (simp add: load64_def)
qed

lemma free_chain_other_page:
  assumes "same_outside p m m'" "page_aligned p" "p \<notin> set ps" "\<forall>q\<in>set ps. page_ok e q"
  shows "free_chain m' r ps \<longleftrightarrow> free_chain m r ps"
  using assms(3,4)
proof (induction ps arbitrary: r)
  case (Cons q ps)
  then have "disjoint_ranges q PGSIZE p PGSIZE"
    using assms(2) by (intro pages_disjoint) (auto simp: page_ok_def)
  then have "load64 m' q = load64 m q" using assms(1) by (intro load64_other_page)
  then show ?case using Cons by simp
qed simp

section \<open>Allocating and freeing\<close>

text \<open>The state each operation leaves, written out.\<close>

definition allocated :: "addr \<Rightarrow> 'z kmem_scheme \<Rightarrow> 'z kmem_scheme" where
  "allocated p s = (settle s)\<lparr>freelist := load64 (mem s) p,
     mem := store_bytes (mem s) p (replicate PGSIZE 5)\<rparr>"

definition freed :: "addr \<Rightarrow> 'z kmem_scheme \<Rightarrow> 'z kmem_scheme" where
  "freed p s = (settle s)\<lparr>freelist := p,
     mem := store64 (store_bytes (mem s) p (replicate PGSIZE 1)) p (freelist s)\<rparr>"

lemma kalloc_nonempty:
  assumes "kmem_inv s (p # ps)"
  shows "kalloc s = Ok (p, allocated p s)"
proof -
  have free: "lock_free KMEM s" and ok: "cpu_ok s" and p: "freelist s = p" "p \<noteq> 0"
    using assms by (auto simp: kmem_inv_def)
  have fl: "freelist (locking KMEM s) = p"
    using p by (simp add: locking_def push_off_def machine_ops Let_def)
  let ?t = "(locking KMEM s)\<lparr>freelist := load64 (mem s) p\<rparr>"
  have "release KMEM ?t = Ok (?t\<lparr>cpus := cpus (settle s), sie := sie s, locks := locks s\<rparr>)"
    using free ok by (intro release_after) simp_all
  moreover have "?t\<lparr>cpus := cpus (settle s), sie := sie s, locks := locks s\<rparr>
      = (settle s)\<lparr>freelist := load64 (mem s) p\<rparr>"
    by (simp add: locking_def settle_def push_off_def machine_ops Let_def)
  ultimately show ?thesis
    using p fl by (simp add: kalloc_def acquire_free [OF free] Let_def memset_store allocated_def)
qed

lemma kalloc_empty:
  assumes "kmem_inv s []"
  shows "kalloc s = Ok (0, settle s)"
proof -
  have free: "lock_free KMEM s" and ok: "cpu_ok s" and p: "freelist s = 0"
    using assms by (auto simp: kmem_inv_def)
  have fl: "freelist (locking KMEM s) = 0"
    using p by (simp add: locking_def push_off_def machine_ops Let_def)
  have "release KMEM (locking KMEM s) = Ok (settle s)"
    using release_after [of s "locking KMEM s" KMEM] free ok
    by (simp add: locking_drop settle_cpus)
  then show ?thesis
    using p fl by (simp add: kalloc_def acquire_free [OF free] Let_def)
qed

lemma kfree_ok:
  assumes "lock_free KMEM s" "cpu_ok s" "page_ok (kernel_end s) p"
  shows "kfree p s = Ok (freed p s)"
proof -
  let ?m = "store_bytes (mem s) p (replicate PGSIZE 1)"
  let ?s = "s\<lparr>mem := ?m\<rparr>"
  have free: "lock_free KMEM ?s" and ok: "cpu_ok ?s"
    using assms(1,2) by (simp_all add: lock_free_def cpu_ok_def machine_ops)
  have fl: "freelist (locking KMEM ?s) = freelist s"
    by (simp add: locking_def push_off_def machine_ops Let_def)
  let ?t = "(locking KMEM ?s)\<lparr>mem := store64 ?m p (freelist s), freelist := p\<rparr>"
  have "release KMEM ?t = Ok (?t\<lparr>cpus := cpus (settle ?s), sie := sie ?s, locks := locks ?s\<rparr>)"
    using free ok by (intro release_after) simp_all
  moreover have "?t\<lparr>cpus := cpus (settle ?s), sie := sie ?s, locks := locks ?s\<rparr> = freed p s"
    by (simp add: locking_def settle_def push_off_def machine_ops Let_def freed_def)
  ultimately show ?thesis
    using assms(3) fl
    by (simp add: kfree_def page_ok_def page_aligned_def not_le not_less acquire_free [OF free] Let_def memset_store)
qed

lemma kfree_bad: "\<not> page_ok (kernel_end s) p \<Longrightarrow> kfree p s = Panic ''kfree''"
  unfolding page_ok_def page_aligned_def kfree_def by (simp only: de_Morgan_conj not_le not_less if_True)

lemma allocated_simps [simp]:
  "freelist (allocated p s) = load64 (mem s) p" "kernel_end (allocated p s) = kernel_end s"
  "mem (allocated p s) = store_bytes (mem s) p (replicate PGSIZE 5)"
  "lock_free lk (allocated p s) = lock_free lk s" "cpu_ok (allocated p s) = cpu_ok s"
  by (simp_all add: allocated_def settle_def lock_free_def cpu_ok_def machine_ops)

lemma freed_simps [simp]:
  "freelist (freed p s) = p" "kernel_end (freed p s) = kernel_end s"
  "mem (freed p s) = store64 (store_bytes (mem s) p (replicate PGSIZE 1)) p (freelist s)"
  "lock_free lk (freed p s) = lock_free lk s" "cpu_ok (freed p s) = cpu_ok s"
  by (simp_all add: freed_def settle_def lock_free_def cpu_ok_def machine_ops)

lemma settle_kmem [simp]:
  "freelist (settle s) = freelist s" "kernel_end (settle s) = kernel_end s"
  by (simp_all add: settle_def machine_ops)

lemma kmem_inv_settle [simp]: "kmem_inv (settle s) ps = kmem_inv s ps"
  by (simp add: kmem_inv_def)

lemma kmem_inv_allocated: "kmem_inv s (p # ps) \<Longrightarrow> kmem_inv (allocated p s) ps"
proof -
  assume inv: "kmem_inv s (p # ps)"
  have "same_outside p (mem s) (store_bytes (mem s) p (replicate PGSIZE 5))"
    by (intro same_outside_store) simp_all
  then have "free_chain (store_bytes (mem s) p (replicate PGSIZE 5)) (load64 (mem s) p) ps
      = free_chain (mem s) (load64 (mem s) p) ps"
    using inv by (intro free_chain_other_page) (auto simp: kmem_inv_def page_ok_def)
  then show ?thesis using inv by (simp add: kmem_inv_def)
qed

lemma kmem_inv_freed:
  assumes inv: "kmem_inv s ps" and p: "page_ok (kernel_end s) p" "p \<notin> set ps"
  shows "kmem_inv (freed p s) (p # ps)"
proof -
  have "same_outside p (mem s) (mem (freed p s))"
    unfolding freed_simps store64_def by (intro same_outside_store) simp_all
  then have "free_chain (mem (freed p s)) (freelist s) ps = free_chain (mem s) (freelist s) ps"
    using inv p by (intro free_chain_other_page) (auto simp: kmem_inv_def page_ok_def)
  moreover have "p \<noteq> 0" using inv p by (auto simp: kmem_inv_def page_ok_def)
  ultimately show ?thesis using inv p by (simp add: kmem_inv_def)
qed

section \<open>The allocator's contract\<close>

text \<open>Allocating \<open>n\<close> pages in a row.\<close>

primrec alloc_many :: "('s \<Rightarrow> (addr \<times> 's) res) \<Rightarrow> nat \<Rightarrow> 's \<Rightarrow> (addr list \<times> 's) res" where
  "alloc_many alloc 0 s = Ok ([], s)"
| "alloc_many alloc (Suc n) s =
     bnd (alloc s) (\<lambda>(p, s). bnd (alloc_many alloc n s) (\<lambda>(ps, s). Ok (p # ps, s)))"

text \<open>
  What every client of the allocator relies on: \<open>avail s ps\<close> says that \<open>ps\<close> are the free pages of
  \<open>s\<close>, \<open>valid s p\<close> that \<open>p\<close> is a page the allocator manages.
\<close>

locale page_allocator =
  fixes alloc :: "'s \<Rightarrow> (addr \<times> 's) res"
    and dealloc :: "addr \<Rightarrow> 's \<Rightarrow> 's res"
    and avail :: "'s \<Rightarrow> addr list \<Rightarrow> bool"
    and valid :: "'s \<Rightarrow> addr \<Rightarrow> bool"
  assumes alloc_some: "avail s (p # ps) \<Longrightarrow> \<exists>s'. alloc s = Ok (p, s') \<and> avail s' ps \<and> valid s' = valid s"
    and alloc_none: "avail s [] \<Longrightarrow> \<exists>s'. alloc s = Ok (0, s') \<and> avail s' [] \<and> valid s' = valid s"
    and dealloc_ok: "avail s ps \<Longrightarrow> valid s p \<Longrightarrow> p \<notin> set ps \<Longrightarrow>
      \<exists>s'. dealloc p s = Ok s' \<and> avail s' (p # ps) \<and> valid s' = valid s"
    and dealloc_bad: "\<not> valid s p \<Longrightarrow> \<exists>m. dealloc p s = Panic m"
    and avail_valid: "avail s ps \<Longrightarrow> distinct ps \<and> (\<forall>p\<in>set ps. valid s p \<and> p \<noteq> 0)"
begin

lemma alloc_many_take:
  "avail s ps \<Longrightarrow> n \<le> length ps \<Longrightarrow>
   \<exists>s'. alloc_many alloc n s = Ok (take n ps, s') \<and> avail s' (drop n ps)"
proof (induction n arbitrary: s ps)
  case (Suc n)
  then obtain p qs where ps: "ps = p # qs" by (cases ps) auto
  then obtain s1 where "alloc s = Ok (p, s1)" "avail s1 qs" using alloc_some Suc.prems by blast
  then show ?case using Suc.IH [of s1 qs] Suc.prems ps by auto
qed simp

lemma alloc_dealloc:
  assumes "avail s (p # ps)"
  shows "\<exists>s1 s2. alloc s = Ok (p, s1) \<and> dealloc p s1 = Ok s2 \<and> avail s2 (p # ps)"
proof -
  from alloc_some [OF assms] obtain s1 where s1: "alloc s = Ok (p, s1)" "avail s1 ps" "valid s1 = valid s"
    by blast
  moreover have "valid s p" "p \<notin> set ps" using avail_valid [OF assms] by auto
  ultimately show ?thesis using dealloc_ok [of s1 ps p] by auto
qed

end

definition page_valid :: "'z kmem_scheme \<Rightarrow> addr \<Rightarrow> bool" where
  "page_valid s p \<longleftrightarrow> page_ok (kernel_end s) p"

interpretation pages: page_allocator kalloc kfree kmem_inv page_valid
proof
  fix s :: "'z kmem_scheme" and p ps
  assume inv: "kmem_inv s (p # ps)"
  show "\<exists>s'. kalloc s = Ok (p, s') \<and> kmem_inv s' ps \<and> page_valid s' = page_valid s"
    using kalloc_nonempty [OF inv] kmem_inv_allocated [OF inv] by (simp add: page_valid_def fun_eq_iff)
next
  fix s :: "'z kmem_scheme"
  assume inv: "kmem_inv s []"
  show "\<exists>s'. kalloc s = Ok (0, s') \<and> kmem_inv s' [] \<and> page_valid s' = page_valid s"
    using kalloc_empty [OF inv] inv by (simp add: page_valid_def fun_eq_iff)
next
  fix s :: "'z kmem_scheme" and p ps
  assume "kmem_inv s ps" "page_valid s p" "p \<notin> set ps"
  then show "\<exists>s'. kfree p s = Ok s' \<and> kmem_inv s' (p # ps) \<and> page_valid s' = page_valid s"
    using kfree_ok [of s p] kmem_inv_freed [of s ps p]
    by (auto simp: page_valid_def fun_eq_iff kmem_inv_def)
next
  fix s :: "'z kmem_scheme" and p
  assume "\<not> page_valid s p"
  then show "\<exists>m. kfree p s = Panic m"
    using kfree_bad by (auto simp: page_valid_def)
next
  fix s :: "'z kmem_scheme" and ps
  assume "kmem_inv s ps"
  then show "distinct ps \<and> (\<forall>p\<in>set ps. page_valid s p \<and> p \<noteq> 0)"
    by (auto simp: kmem_inv_def page_valid_def page_ok_def)
qed

section \<open>Initialisation\<close>

lemma aligned_less:
  assumes "page_aligned p" "page_aligned q" "unat q < unat p + 4096"
  shows "q < p \<or> q = p"
proof -
  obtain i j where "unat p = 4096 * i" "unat q = 4096 * j"
    using assms(1,2) by (auto simp: aligned_unat elim!: dvdE)
  then have "unat q \<le> unat p" using assms(3) by auto
  then show ?thesis by (metis le_neq_implies_less unsigned_word_eqI word_less_nat_alt)
qed

lemma PHYSTOP_unat: "unat PHYSTOP = 0x89000000"
  by (simp add: PHYSTOP_def KERNBASE_def)

lemma aligned_PHYSTOP: "page_aligned PHYSTOP"
  by (simp add: page_aligned_def PHYSTOP_def KERNBASE_def)

lemma below_PHYSTOP:
  "page_aligned p \<Longrightarrow> p < PHYSTOP \<Longrightarrow> p + 4096 \<le> PHYSTOP \<and> page_aligned (p + 4096)"
proof -
  assume p: "page_aligned p" "p < PHYSTOP"
  then obtain i where i: "unat p = 4096 * i" by (auto simp: aligned_unat elim!: dvdE)
  have "unat (p + 4096) = 4096 * Suc i" using i page_step [OF p(2)] by simp
  moreover have "4096 * i < 4096 * 0x89000" using p(2) i by (simp add: word_less_nat_alt PHYSTOP_unat)
  ultimately show ?thesis
    by (simp add: word_le_nat_alt PHYSTOP_unat aligned_unat)
qed

lemma freerange_loop_spec:
  assumes "kmem_inv s ps" "page_aligned p" "kernel_end s \<le> p" "p \<le> PHYSTOP"
    "set ps = {q. page_ok (kernel_end s) q \<and> q < p}"
  shows "\<exists>s' ps'. freerange_loop p PHYSTOP s = Ok s' \<and> kmem_inv s' ps'
    \<and> kernel_end s' = kernel_end s \<and> set ps' = {q. page_ok (kernel_end s) q}"
  using assms
proof (induction "unat PHYSTOP - unat p" arbitrary: p s ps rule: less_induct)
  case less
  show ?case
  proof (cases "p < PHYSTOP")
    case False
    then have "p = PHYSTOP" using less.prems(4) by simp
    moreover have "\<not> PHYSTOP + 4096 \<le> PHYSTOP" by (simp add: PHYSTOP_def KERNBASE_def)
    ultimately show ?thesis
      using less.prems by (subst freerange_loop.simps) (auto simp: page_ok_def)
  next
    case True
    note up = below_PHYSTOP [OF less.prems(2) True]
    have p: "page_ok (kernel_end s) p" "p \<notin> set ps"
      using True less.prems by (auto simp: page_ok_def)
    have step: "kfree p s = Ok (freed p s)"
      using kfree_ok less.prems(1) p by (auto simp: kmem_inv_def)
    have "q < p + 4096 \<longleftrightarrow> q < p \<or> q = p" if "page_ok (kernel_end s) q" for q
      using that less.prems(2) aligned_less [of p q] page_step [OF True]
      by (auto simp: page_ok_def word_less_nat_alt)
    then have "set (p # ps) = {q. page_ok (kernel_end s) q \<and> q < p + 4096}"
      using less.prems(5) p by auto
    moreover have "unat PHYSTOP - unat (p + 4096) < unat PHYSTOP - unat p"
      using True page_step [OF True] by (simp add: word_less_nat_alt)
    moreover have "kernel_end s \<le> p + 4096"
      using less.prems(3) page_step [OF True] by (simp add: word_le_nat_alt)
    ultimately show ?thesis
      using less.hyps [of "p + 4096" "freed p s" "p # ps"] kmem_inv_freed [OF less.prems(1) p] up
      by (subst freerange_loop.simps) (simp add: step)
  qed
qed

lemma and_not_low: "(a :: addr) AND NOT (4096 - 1) = push_bit 12 (drop_bit 12 a)"
proof -
  have m: "(4096 - 1 :: addr) = mask 12" by (simp add: mask_eq_exp_minus_1)
  show ?thesis unfolding m by (rule bit_eqI) (auto simp: bit_simps)
qed
lemma PGROUNDDOWN_unat: "unat (PGROUNDDOWN a) = 4096 * (unat a div 4096)"
proof -
  have "unat (drop_bit 12 a) = unat a div 4096" by (simp add: drop_bit_eq_div unat_div)
  moreover have "unat a < 2 ^ 64" using unsigned_less [of a] by simp
  then have "unat a div 4096 * 4096 < 2 ^ 64"
    using div_times_less_eq_dividend [of "unat a" 4096] by simp
  ultimately show ?thesis
    unfolding PGROUNDDOWN_def and_not_low by (simp add: push_bit_eq_mult unat_word_ariths)
qed
lemma PGROUNDUP_eq: "PGROUNDUP a = PGROUNDDOWN (a + 4095)"
  by (simp add: PGROUNDUP_def PGROUNDDOWN_def algebra_simps)

lemma PGROUNDUP_bounds:
  assumes "a \<le> PHYSTOP"
  shows "page_aligned (PGROUNDUP a)" "a \<le> PGROUNDUP a" "PGROUNDUP a \<le> PHYSTOP"
    "unat (PGROUNDUP a) < unat a + 4096"
proof -
  have a: "unat a \<le> 0x89000000" using assms by (simp add: word_le_nat_alt PHYSTOP_unat)
  then have u: "unat (a + 4095) = unat a + 4095" by (simp add: unat_word_ariths)
  define k where "k = (unat a + 4095) div 4096"
  have up: "unat (PGROUNDUP a) = 4096 * k"
    by (simp add: PGROUNDUP_eq PGROUNDDOWN_unat u k_def)
  have k: "4096 * k \<le> unat a + 4095" "unat a + 4095 < 4096 * k + 4096"
    using div_times_less_eq_dividend [of "unat a + 4095" 4096]
      dividend_less_div_times [of 4096 "unat a + 4095"] by (simp_all add: k_def)
  show "page_aligned (PGROUNDUP a)" using up by (simp add: aligned_unat)
  show "a \<le> PGROUNDUP a" using up k by (simp add: word_le_nat_alt)
  show "unat (PGROUNDUP a) < unat a + 4096" using up k by simp
  have "4096 * k < 4096 * 0x89001" using k a by simp
  then have "4096 * k \<le> 4096 * 0x89000" by simp
  then show "PGROUNDUP a \<le> PHYSTOP" using up by (simp add: word_le_nat_alt PHYSTOP_unat)
qed

lemma kinit_spec:
  assumes "cpu_ok s" "freelist s = 0" "0 < kernel_end s" "kernel_end s \<le> PHYSTOP"
  shows "\<exists>s' ps. kinit s = Ok s' \<and> kmem_inv s' ps \<and> set ps = {p. page_ok (kernel_end s) p}"
proof -
  let ?s = "initlock KMEM s" and ?p = "PGROUNDUP (kernel_end s)"
  have same: "kernel_end ?s = kernel_end s" by (simp add: initlock_def)
  have inv: "kmem_inv ?s []"
    using assms by (simp add: kmem_inv_def initlock_def lock_free_def cpu_ok_def machine_ops)
  note up = PGROUNDUP_bounds [OF assms(4)]
  have "\<not> q < ?p" if "page_ok (kernel_end s) q" for q
  proof
    assume "q < ?p"
    moreover have "unat (kernel_end s) \<le> unat q" using that by (simp add: page_ok_def word_le_nat_alt)
    ultimately have "unat ?p < unat q + 4096" "unat q < unat ?p"
      using up(4) by (simp_all add: word_less_nat_alt)
    then show False using aligned_less [of q ?p] that up(1)
      by (auto simp: page_ok_def word_less_nat_alt)
  qed
  then have "set [] = {q. page_ok (kernel_end ?s) q \<and> q < ?p}" by (auto simp: same)
  from freerange_loop_spec [OF inv up(1) _ up(3) this] up(2) show ?thesis
    by (auto simp: kinit_def freerange_def same)
qed

section \<open>Properties\<close>

text \<open>
  C12. Initialisation: from a zeroed \<open>kmem\<close>, \<open>kinit\<close> returns with every page between \<open>end\<close> and
  \<open>PHYSTOP\<close> on the free list, each exactly once, and with the lock free.
\<close>

theorem kinit_frees_all_pages:
  assumes "cpu_ok s" "freelist s = 0" "0 < kernel_end s" "kernel_end s \<le> PHYSTOP"
  shows "\<exists>s' ps. kinit s = Ok s' \<and> kmem_inv s' ps \<and> set ps = {p. page_ok (kernel_end s) p}"
  using kinit_spec [OF assms] .

definition sample_kmem :: kmem where
  "sample_kmem = machine.extend sample_machine \<lparr>freelist = 0, kernel_end = 0x88ffd123\<rparr>"

lemma sample_kmem_ok: "lock_free lk sample_kmem" "cpu_ok sample_kmem" "freelist sample_kmem = 0"
  "kernel_end sample_kmem = 0x88ffd123"
  by (simp_all add: sample_kmem_def sample_machine_def machine.defs lock_free_def cpu_ok_def machine_ops)

theorem kinit_frees_all_pages_witness:
  "\<exists>s' ps. kinit sample_kmem = Ok s' \<and> kmem_inv s' ps \<and> 0x88ffe000 \<in> set ps \<and> 0x88ffd000 \<notin> set ps"
proof -
  have "page_ok (kernel_end sample_kmem) 0x88ffe000" "\<not> page_ok (kernel_end sample_kmem) 0x88ffd000"
    by (simp_all add: sample_kmem_ok PHYSTOP_def KERNBASE_def page_ok_def page_aligned_def)
  moreover have "0 < kernel_end sample_kmem" "kernel_end sample_kmem \<le> PHYSTOP"
    by (simp_all add: sample_kmem_ok PHYSTOP_def KERNBASE_def)
  ultimately show ?thesis
    using kinit_frees_all_pages [OF sample_kmem_ok(2,3)] by blast
qed

text \<open>
  C13. \<open>kalloc\<close> returns the first free page, filled with 5, and takes it off the list; with no page
  left it returns 0. No byte outside the page changes, the lock is released, and it never panics.
\<close>

theorem kalloc_correct:
  assumes "kmem_inv s ps"
  shows "\<exists>s'. kalloc s = Ok (case ps of [] \<Rightarrow> 0 | p # _ \<Rightarrow> p, s') \<and> kmem_inv s' (tl ps)
    \<and> mem s' = (case ps of [] \<Rightarrow> mem s | p # _ \<Rightarrow> store_bytes (mem s) p (replicate PGSIZE 5))"
  using assms kalloc_empty [of s] kalloc_nonempty [of s] kmem_inv_allocated [of s]
  by (cases ps) simp_all

text \<open>Two pages on the free list.\<close>

definition sample_free :: kmem where
  "sample_free = freed 0x88fff000 (freed 0x88ffe000 sample_kmem)"

lemma sample_free_inv: "kmem_inv sample_free [0x88fff000, 0x88ffe000]"
proof -
  have "kmem_inv sample_kmem []" by (simp add: kmem_inv_def sample_kmem_ok)
  then have "kmem_inv (freed 0x88ffe000 sample_kmem) [0x88ffe000]"
    by (rule kmem_inv_freed)
      (simp_all add: page_ok_def page_aligned_def sample_kmem_ok PHYSTOP_def KERNBASE_def)
  then show ?thesis unfolding sample_free_def
    by (rule kmem_inv_freed)
      (simp_all add: page_ok_def page_aligned_def sample_kmem_ok PHYSTOP_def KERNBASE_def)
qed

theorem kalloc_correct_witness:
  "\<exists>s'. kalloc sample_free = Ok (0x88fff000, s') \<and> kmem_inv s' [0x88ffe000]"
  using kalloc_correct [OF sample_free_inv] by auto

text \<open>
  C14. Allocating \<open>n\<close> times in a row gives \<open>n\<close> different pages, none of them 0, when so many are free:
  no page is handed out twice.
\<close>

theorem kalloc_distinct:
  assumes "kmem_inv s ps" "n \<le> length ps"
  shows "\<exists>qs s'. alloc_many kalloc n s = Ok (qs, s') \<and> length qs = n \<and> distinct qs \<and> 0 \<notin> set qs
    \<and> set qs \<subseteq> set ps \<and> kmem_inv s' (drop n ps)"
proof -
  obtain s' where "alloc_many kalloc n s = Ok (take n ps, s')" "kmem_inv s' (drop n ps)"
    using pages.alloc_many_take [OF assms] by blast
  moreover have "distinct ps" "0 \<notin> set ps"
    using pages.avail_valid [OF assms(1)] by auto
  ultimately show ?thesis
    using assms(2) by (auto dest: in_set_takeD)
qed

theorem kalloc_distinct_witness:
  "\<exists>qs s'. alloc_many kalloc 2 sample_free = Ok (qs, s') \<and> length qs = 2 \<and> distinct qs"
  using kalloc_distinct [OF sample_free_inv, of 2] by auto

text \<open>
  C15. \<open>kfree\<close> of an address that is not a page between \<open>end\<close> and \<open>PHYSTOP\<close> panics; of a page that is
  not free already it succeeds, puts the page first on the list, and changes no byte outside it, so
  that the next \<open>kalloc\<close> returns it.
\<close>

theorem kfree_correct:
  assumes "kmem_inv s ps" "p \<notin> set ps"
  shows "if page_ok (kernel_end s) p
    then \<exists>s' s''. kfree p s = Ok s' \<and> kmem_inv s' (p # ps) \<and> same_outside p (mem s) (mem s')
           \<and> kalloc s' = Ok (p, s'') \<and> kmem_inv s'' ps
    else kfree p s = Panic ''kfree''"
proof (cases "page_ok (kernel_end s) p")
  case True
  have inv: "kmem_inv (freed p s) (p # ps)" using assms True by (intro kmem_inv_freed)
  have "same_outside p (mem s) (mem (freed p s))"
    unfolding freed_simps store64_def by (intro same_outside_store) simp_all
  then show ?thesis
    using True inv assms(1) kfree_ok [of s p] kalloc_nonempty [OF inv] kmem_inv_allocated [OF inv]
    by (simp add: kmem_inv_def)
qed (simp add: kfree_bad)

theorem kfree_correct_witness:
  "kfree 0x88ffd000 sample_free = Panic ''kfree''"
  using kfree_correct [OF sample_free_inv, of "0x88ffd000"]
  by (simp add: sample_free_def page_ok_def page_aligned_def sample_kmem_ok)

end
