(* ===== verification/Vm.thy ===== *)
theory Vm
  imports Kalloc
begin

text \<open>
  Page tables and user memory, \<open>kernel/vm.c\<close> (with \<open>proc_mapstacks\<close> of \<open>kernel/proc.c\<close>): Sv39 tables
  of three levels, stored in pages of physical memory. A kernel object that \<open>copyin\<close> or
  \<open>copyout\<close> moves bytes to or from is given by its bytes: it is never part of a user page.
\<close>

section \<open>Model\<close>

definition PTE_V :: uint64 where "PTE_V = 1"
definition PTE_R :: uint64 where "PTE_R = 2"
definition PTE_W :: uint64 where "PTE_W = 4"
definition PTE_X :: uint64 where "PTE_X = 8"
definition PTE_U :: uint64 where "PTE_U = 16"

definition PA2PTE :: "uint64 \<Rightarrow> uint64" where
  "PA2PTE pa = push_bit 10 (drop_bit 12 pa)"

definition PTE2PA :: "uint64 \<Rightarrow> uint64" where
  "PTE2PA pte = push_bit 12 (drop_bit 10 pte)"

definition PTE_FLAGS :: "uint64 \<Rightarrow> uint64" where
  "PTE_FLAGS pte = pte AND 0x3FF"

definition PX :: "nat \<Rightarrow> uint64 \<Rightarrow> uint64" where
  "PX level va = drop_bit (12 + 9 * level) va AND 0x1FF"

definition MAXVA :: uint64 where "MAXVA = 0x4000000000"
definition TRAMPOLINE :: uint64 where "TRAMPOLINE = MAXVA - 4096"
definition TRAPFRAME :: uint64 where "TRAPFRAME = TRAMPOLINE - 4096"
definition KSTACK :: "nat \<Rightarrow> uint64" where
  "KSTACK p = TRAMPOLINE - (of_nat p + 1) * 2 * 4096"

definition UART0 :: addr where "UART0 = 0x10000000"
definition VIRTIO0 :: addr where "VIRTIO0 = 0x10001000"
definition PLIC :: addr where "PLIC = 0x0c000000"

abbreviation NPROC :: nat where "NPROC \<equiv> 64"

definition MAKE_SATP :: "addr \<Rightarrow> uint64" where
  "MAKE_SATP pagetable = push_bit 63 1 OR drop_bit 12 pagetable"

text \<open>
  The kernel's own page table, the address of the linker's symbols \<open>etext\<close> and \<open>trampoline\<close>, and
  each hart's page-table register.
\<close>

record vm = kmem +
  kernel_pagetable :: addr
  etext :: addr
  trampoline :: addr
  satp :: "hart \<Rightarrow> uint64"

text \<open>\<open>&pagetable[i]\<close>.\<close>

definition pte_addr :: "addr \<Rightarrow> uint64 \<Rightarrow> addr" where
  "pte_addr pagetable i = pagetable + 8 * i"

text \<open>
  The loop of \<open>walk\<close> from \<open>level\<close> down to 1; the result is the level-0 table, or
  \<open>None\<close> where the code returns 0.
\<close>

primrec walk_levels :: "nat \<Rightarrow> addr \<Rightarrow> uint64 \<Rightarrow> bool \<Rightarrow> 'z kmem_scheme \<Rightarrow>
    (addr option \<times> 'z kmem_scheme) res" where
  "walk_levels 0 pagetable va alloc s = Ok (Some pagetable, s)"
| "walk_levels (Suc l) pagetable va alloc s =
     (let pte = pte_addr pagetable (PX (Suc l) va)
      in if load64 (mem s) pte AND PTE_V \<noteq> 0
         then walk_levels l (PTE2PA (load64 (mem s) pte)) va alloc s
         else if \<not> alloc then Ok (None, s)
         else bnd (kalloc s) (\<lambda>(pagetable, s).
           if pagetable = 0 then Ok (None, s)
           else let s = s\<lparr>mem := memset (mem s) pagetable 0 PGSIZE\<rparr>;
                    s = s\<lparr>mem := store64 (mem s) pte (PA2PTE pagetable OR PTE_V)\<rparr>
                in walk_levels l pagetable va alloc s))"

definition walk :: "addr \<Rightarrow> uint64 \<Rightarrow> bool \<Rightarrow> 'z kmem_scheme \<Rightarrow> (addr \<times> 'z kmem_scheme) res" where
  "walk pagetable va alloc s =
     (if va \<ge> MAXVA then Panic ''walk''
      else bnd (walk_levels 2 pagetable va alloc s) (\<lambda>(pagetable, s).
        Ok (case pagetable of None \<Rightarrow> 0 | Some pagetable \<Rightarrow> pte_addr pagetable (PX 0 va), s)))"

definition walkaddr :: "addr \<Rightarrow> uint64 \<Rightarrow> 'z kmem_scheme \<Rightarrow> (uint64 \<times> 'z kmem_scheme) res" where
  "walkaddr pagetable va s =
     (if va \<ge> MAXVA then Ok (0, s)
      else bnd (walk pagetable va False s) (\<lambda>(pte, s).
        if pte = 0 then Ok (0, s)
        else if load64 (mem s) pte AND PTE_V = 0 then Ok (0, s)
        else if load64 (mem s) pte AND PTE_U = 0 then Ok (0, s)
        else Ok (PTE2PA (load64 (mem s) pte), s)))"

text \<open>The loops below end because \<open>walk\<close> panics on an address of \<open>MAXVA\<close> or more.\<close>

lemma walk_below: "walk pagetable va alloc s = Ok r \<Longrightarrow> va < MAXVA"
  by (simp add: walk_def not_le split: if_splits)

lemma va_step: "va < MAXVA \<Longrightarrow> unat (va + 4096) = unat va + 4096"
  by (simp add: word_less_nat_alt MAXVA_def unat_word_ariths)

lemma va_measure:
  "va < MAXVA \<Longrightarrow> unat MAXVA + 4096 - unat (va + 4096) < unat MAXVA + 4096 - unat va"
  by (simp add: va_step word_less_nat_alt)

function mappages_loop ::
  "addr \<Rightarrow> uint64 \<Rightarrow> uint64 \<Rightarrow> uint64 \<Rightarrow> uint64 \<Rightarrow> 'z kmem_scheme \<Rightarrow> (int \<times> 'z kmem_scheme) res" where
  "mappages_loop pagetable a lst pa perm s =
     bnd (walk pagetable a True s) (\<lambda>(pte, s).
       if pte = 0 then Ok (-1, s)
       else if load64 (mem s) pte AND PTE_V \<noteq> 0 then Panic ''mappages: remap''
       else let s = s\<lparr>mem := store64 (mem s) pte (PA2PTE pa OR perm OR PTE_V)\<rparr>
            in if a = lst then Ok (0, s)
               else mappages_loop pagetable (a + 4096) lst (pa + 4096) perm s)"
  by pat_completeness auto
termination
  by (relation "measure (\<lambda>(pt, a, lst, pa, perm, s). unat MAXVA + 4096 - unat a)")
    (auto dest!: walk_below intro: va_measure)

declare mappages_loop.simps [simp del]

definition mappages ::
  "addr \<Rightarrow> uint64 \<Rightarrow> uint64 \<Rightarrow> uint64 \<Rightarrow> uint64 \<Rightarrow> 'z kmem_scheme \<Rightarrow> (int \<times> 'z kmem_scheme) res" where
  "mappages pagetable va sz pa perm s =
     (if va mod 4096 \<noteq> 0 then Panic ''mappages: va not aligned''
      else if sz mod 4096 \<noteq> 0 then Panic ''mappages: size not aligned''
      else if sz = 0 then Panic ''mappages: size''
      else mappages_loop pagetable va (va + sz - 4096) pa perm s)"

definition kvmmap :: "addr \<Rightarrow> uint64 \<Rightarrow> uint64 \<Rightarrow> uint64 \<Rightarrow> uint64 \<Rightarrow> 'z kmem_scheme \<Rightarrow> 'z kmem_scheme res" where
  "kvmmap kpgtbl va pa sz perm s =
     bnd (mappages kpgtbl va sz pa perm s) (\<lambda>(r, s).
       if r \<noteq> 0 then Panic ''kvmmap'' else Ok s)"

function uvmunmap_loop ::
  "addr \<Rightarrow> uint64 \<Rightarrow> uint64 \<Rightarrow> bool \<Rightarrow> 'z kmem_scheme \<Rightarrow> 'z kmem_scheme res" where
  "uvmunmap_loop pagetable a stop do_free s =
     (if a < stop
      then bnd (walk pagetable a False s) (\<lambda>(pte, s).
        if pte = 0 then Panic ''uvmunmap: walk''
        else if load64 (mem s) pte AND PTE_V = 0 then Panic ''uvmunmap: not mapped''
        else if PTE_FLAGS (load64 (mem s) pte) = PTE_V then Panic ''uvmunmap: not a leaf''
        else bnd (if do_free then kfree (PTE2PA (load64 (mem s) pte)) s else Ok s) (\<lambda>s.
          let s = s\<lparr>mem := store64 (mem s) pte 0\<rparr>
          in uvmunmap_loop pagetable (a + 4096) stop do_free s))
      else Ok s)"
  by pat_completeness auto
termination
  by (relation "measure (\<lambda>(pt, a, stop, f, s). unat MAXVA + 4096 - unat a)")
    (auto dest!: walk_below intro: va_measure)

declare uvmunmap_loop.simps [simp del]

definition uvmunmap :: "addr \<Rightarrow> uint64 \<Rightarrow> uint64 \<Rightarrow> bool \<Rightarrow> 'z kmem_scheme \<Rightarrow> 'z kmem_scheme res" where
  "uvmunmap pagetable va npages do_free s =
     (if va mod 4096 \<noteq> 0 then Panic ''uvmunmap: not aligned''
      else uvmunmap_loop pagetable va (va + npages * 4096) do_free s)"

definition uvmcreate :: "'z kmem_scheme \<Rightarrow> (addr \<times> 'z kmem_scheme) res" where
  "uvmcreate s =
     bnd (kalloc s) (\<lambda>(pagetable, s).
       if pagetable = 0 then Ok (0, s)
       else Ok (pagetable, s\<lparr>mem := memset (mem s) pagetable 0 PGSIZE\<rparr>))"

definition uvmfirst :: "addr \<Rightarrow> uint8 list \<Rightarrow> uint32 \<Rightarrow> 'z kmem_scheme \<Rightarrow> 'z kmem_scheme res" where
  "uvmfirst pagetable src sz s =
     (if sz \<ge> 4096 then Panic ''uvmfirst: more than a page''
      else bnd (kalloc s) (\<lambda>(pg, s).
        let s = s\<lparr>mem := memset (mem s) pg 0 PGSIZE\<rparr>
        in bnd (mappages pagetable 0 4096 pg (PTE_W OR PTE_R OR PTE_X OR PTE_U) s) (\<lambda>(r, s).
           Ok (s\<lparr>mem := store_bytes (mem s) pg (take (unat sz) src)\<rparr>))))"

definition uvmdealloc ::
  "addr \<Rightarrow> uint64 \<Rightarrow> uint64 \<Rightarrow> 'z kmem_scheme \<Rightarrow> (uint64 \<times> 'z kmem_scheme) res" where
  "uvmdealloc pagetable oldsz newsz s =
     (if newsz \<ge> oldsz then Ok (oldsz, s)
      else if PGROUNDUP newsz < PGROUNDUP oldsz
      then let npages = (PGROUNDUP oldsz - PGROUNDUP newsz) div 4096
           in bnd (uvmunmap pagetable (PGROUNDUP newsz) (scast (ucast npages :: uint32)) True s)
                (\<lambda>s. Ok (newsz, s))
      else Ok (newsz, s))"

lemma mappages_below: "mappages pagetable va sz pa perm s = Ok r \<Longrightarrow> va < MAXVA"
  by (subst (asm) mappages_def, subst (asm) mappages_loop.simps)
    (auto dest: walk_below split: if_splits)

function uvmalloc_loop ::
  "addr \<Rightarrow> uint64 \<Rightarrow> uint64 \<Rightarrow> uint64 \<Rightarrow> uint64 \<Rightarrow> 'z kmem_scheme \<Rightarrow> (uint64 \<times> 'z kmem_scheme) res" where
  "uvmalloc_loop pagetable a oldsz newsz xperm s =
     (if a < newsz
      then bnd (kalloc s) (\<lambda>(pg, s).
        if pg = 0 then bnd (uvmdealloc pagetable a oldsz s) (\<lambda>(r, s). Ok (0, s))
        else let s = s\<lparr>mem := memset (mem s) pg 0 PGSIZE\<rparr>
             in bnd (mappages pagetable a 4096 pg (PTE_R OR PTE_U OR xperm) s) (\<lambda>(r, s).
               if r \<noteq> 0
               then bnd (kfree pg s) (\<lambda>s.
                    bnd (uvmdealloc pagetable a oldsz s) (\<lambda>(r, s). Ok (0, s)))
               else uvmalloc_loop pagetable (a + 4096) oldsz newsz xperm s))
      else Ok (newsz, s))"
  by pat_completeness auto
termination
  by (relation "measure (\<lambda>(pt, a, oldsz, newsz, xperm, s). unat MAXVA + 4096 - unat a)")
    (auto dest!: mappages_below intro: va_measure)

declare uvmalloc_loop.simps [simp del]

definition uvmalloc ::
  "addr \<Rightarrow> uint64 \<Rightarrow> uint64 \<Rightarrow> uint64 \<Rightarrow> 'z kmem_scheme \<Rightarrow> (uint64 \<times> 'z kmem_scheme) res" where
  "uvmalloc pagetable oldsz newsz xperm s =
     (if newsz < oldsz then Ok (oldsz, s)
      else uvmalloc_loop pagetable (PGROUNDUP oldsz) (PGROUNDUP oldsz) newsz xperm s)"

text \<open>
  \<open>freewalk\<close> recurses into every entry that points to a lower table. \<open>depth\<close> bounds the nesting of
  calls; tables have three levels, so that 3 is enough (a deeper nesting is \<open>Hang\<close>).
\<close>

primrec freewalk_depth :: "nat \<Rightarrow> addr \<Rightarrow> 'z kmem_scheme \<Rightarrow> 'z kmem_scheme res" where
  "freewalk_depth 0 pagetable s = Hang"
| "freewalk_depth (Suc depth) pagetable s =
     bnd (for_upto 0 512 (\<lambda>i s.
       let pte = load64 (mem s) (pte_addr pagetable (of_nat i))
       in if pte AND PTE_V \<noteq> 0 \<and> pte AND (PTE_R OR PTE_W OR PTE_X) = 0
          then let child = PTE2PA pte
               in bnd (freewalk_depth depth child s) (\<lambda>s.
                  Ok (s\<lparr>mem := store64 (mem s) (pte_addr pagetable (of_nat i)) 0\<rparr>))
          else if pte AND PTE_V \<noteq> 0 then Panic ''freewalk: leaf''
          else Ok s) s) (\<lambda>s.
     kfree pagetable s)"

definition freewalk :: "addr \<Rightarrow> 'z kmem_scheme \<Rightarrow> 'z kmem_scheme res" where
  "freewalk pagetable s = freewalk_depth 3 pagetable s"

definition uvmfree :: "addr \<Rightarrow> uint64 \<Rightarrow> 'z kmem_scheme \<Rightarrow> 'z kmem_scheme res" where
  "uvmfree pagetable sz s =
     bnd (if sz > 0 then uvmunmap pagetable 0 (PGROUNDUP sz div 4096) True s else Ok s)
       (\<lambda>s. freewalk pagetable s)"

definition uvmcopy_err :: "addr \<Rightarrow> uint64 \<Rightarrow> 'z kmem_scheme \<Rightarrow> (int \<times> 'z kmem_scheme) res" where
  "uvmcopy_err new i s = bnd (uvmunmap new 0 (i div 4096) True s) (\<lambda>s. Ok (-1, s))"

function uvmcopy_loop ::
  "addr \<Rightarrow> addr \<Rightarrow> uint64 \<Rightarrow> uint64 \<Rightarrow> 'z kmem_scheme \<Rightarrow> (int \<times> 'z kmem_scheme) res" where
  "uvmcopy_loop old new i sz s =
     (if i < sz
      then bnd (walk old i False s) (\<lambda>(pte, s).
        if pte = 0 then Panic ''uvmcopy: pte should exist''
        else if load64 (mem s) pte AND PTE_V = 0 then Panic ''uvmcopy: page not present''
        else let pa = PTE2PA (load64 (mem s) pte);
                 flags = PTE_FLAGS (load64 (mem s) pte)
             in bnd (kalloc s) (\<lambda>(pg, s).
               if pg = 0 then uvmcopy_err new i s
               else let s = s\<lparr>mem := memmove (mem s) pg pa PGSIZE\<rparr>
                    in bnd (mappages new i 4096 pg flags s) (\<lambda>(r, s).
                      if r \<noteq> 0 then bnd (kfree pg s) (\<lambda>s. uvmcopy_err new i s)
                      else uvmcopy_loop old new (i + 4096) sz s)))
      else Ok (0, s))"
  by pat_completeness auto
termination
  by (relation "measure (\<lambda>(old, new, i, sz, s). unat MAXVA + 4096 - unat i)")
    (auto dest!: mappages_below intro: va_measure)

declare uvmcopy_loop.simps [simp del]

definition uvmcopy :: "addr \<Rightarrow> addr \<Rightarrow> uint64 \<Rightarrow> 'z kmem_scheme \<Rightarrow> (int \<times> 'z kmem_scheme) res" where
  "uvmcopy old new sz s = uvmcopy_loop old new 0 sz s"

definition uvmclear :: "addr \<Rightarrow> uint64 \<Rightarrow> 'z kmem_scheme \<Rightarrow> 'z kmem_scheme res" where
  "uvmclear pagetable va s =
     bnd (walk pagetable va False s) (\<lambda>(pte, s).
       if pte = 0 then Panic ''uvmclear''
       else Ok (s\<lparr>mem := store64 (mem s) pte (load64 (mem s) pte AND NOT PTE_U)\<rparr>))"

text \<open>\<open>copyout\<close>, \<open>copyin\<close> and \<open>copyinstr\<close> go page by page: every pass moves at least one byte.\<close>

lemma page_offset: "unat (a - PGROUNDDOWN a) = unat a mod 4096"
proof -
  have "PGROUNDDOWN a \<le> a"
    using div_times_less_eq_dividend [of "unat a" 4096]
    by (simp add: word_le_nat_alt PGROUNDDOWN_unat mult.commute)
  then have "unat (a - PGROUNDDOWN a) = unat a - 4096 * (unat a div 4096)"
    by (simp add: unat_sub PGROUNDDOWN_unat)
  then show ?thesis by (simp add: minus_mult_div_eq_mod)
qed

definition page_rest :: "uint64 \<Rightarrow> uint64 \<Rightarrow> uint64" where
  "page_rest va len =
     (let n = 4096 - (va - PGROUNDDOWN va) in if n > len then len else n)"

lemma page_rest_unat: "unat (page_rest va len) = min (unat len) (4096 - unat va mod 4096)"
proof -
  have "va - PGROUNDDOWN va \<le> 4096"
    by (simp add: word_le_nat_alt page_offset)
  then have "unat (4096 - (va - PGROUNDDOWN va)) = 4096 - unat va mod 4096"
    by (simp add: unat_sub page_offset)
  then show ?thesis by (simp add: page_rest_def Let_def word_less_nat_alt)
qed

lemma page_rest_measure: "0 < len \<Longrightarrow> unat (len - page_rest va len) < unat len"
proof -
  assume "0 < len"
  then have "0 < unat (page_rest va len)" "unat (page_rest va len) \<le> unat len"
    by (simp_all add: page_rest_unat word_less_nat_alt)
  then show ?thesis by (simp add: unat_sub word_le_nat_alt)
qed

function copyout ::
  "addr \<Rightarrow> uint64 \<Rightarrow> uint8 list \<Rightarrow> uint64 \<Rightarrow> 'z kmem_scheme \<Rightarrow> (int \<times> 'z kmem_scheme) res" where
  "copyout pagetable dstva src len s =
     (if len > 0
      then let va0 = PGROUNDDOWN dstva
           in if va0 \<ge> MAXVA then Ok (-1, s)
              else bnd (walk pagetable va0 False s) (\<lambda>(pte, s).
                if pte = 0 \<or> load64 (mem s) pte AND PTE_V = 0 \<or> load64 (mem s) pte AND PTE_U = 0
                   \<or> load64 (mem s) pte AND PTE_W = 0
                then Ok (-1, s)
                else let pa0 = PTE2PA (load64 (mem s) pte);
                         n = page_rest dstva len;
                         s = s\<lparr>mem := store_bytes (mem s) (pa0 + (dstva - va0)) (take (unat n) src)\<rparr>
                     in copyout pagetable (va0 + 4096) (drop (unat n) src) (len - n) s)
      else Ok (0, s))"
  by pat_completeness auto
termination
  by (relation "measure (\<lambda>(pt, va, src, len, s). unat len)") (auto intro: page_rest_measure)

text \<open>
  \<open>copyin\<close> and \<open>copyinstr\<close> change the kernel's buffer only: their result has the bytes that were
  written to it, also when they fail half-way.
\<close>

function copyin ::
  "addr \<Rightarrow> uint64 \<Rightarrow> uint64 \<Rightarrow> 'z kmem_scheme \<Rightarrow> (int \<times> uint8 list) res" where
  "copyin pagetable srcva len s =
     (if len > 0
      then let va0 = PGROUNDDOWN srcva
           in bnd (walkaddr pagetable va0 s) (\<lambda>(pa0, s).
              if pa0 = 0 then Ok (-1, [])
              else let n = page_rest srcva len;
                       bs = load_bytes (mem s) (pa0 + (srcva - va0)) (unat n)
                   in bnd (copyin pagetable (va0 + 4096) (len - n) s) (\<lambda>(r, cs). Ok (r, bs @ cs)))
      else Ok (0, []))"
  by pat_completeness auto
termination
  by (relation "measure (\<lambda>(pt, va, len, s). unat len)") (auto intro: page_rest_measure)

primrec copyinstr_page :: "memory \<Rightarrow> addr \<Rightarrow> nat \<Rightarrow> uint8 list \<times> bool" where
  "copyinstr_page m p 0 = ([], False)"
| "copyinstr_page m p (Suc n) =
     (if m p = 0 then ([0], True)
      else let (bs, got_null) = copyinstr_page m (p + 1) n in (m p # bs, got_null))"

function copyinstr ::
  "addr \<Rightarrow> uint64 \<Rightarrow> uint64 \<Rightarrow> 'z kmem_scheme \<Rightarrow> (int \<times> uint8 list) res" where
  "copyinstr pagetable srcva mx s =
     (if mx > 0
      then let va0 = PGROUNDDOWN srcva
           in bnd (walkaddr pagetable va0 s) (\<lambda>(pa0, s).
              if pa0 = 0 then Ok (-1, [])
              else let n = page_rest srcva mx;
                       (bs, got_null) = copyinstr_page (mem s) (pa0 + (srcva - va0)) (unat n)
                   in if got_null then Ok (0, bs)
                      else bnd (copyinstr pagetable (va0 + 4096) (mx - n) s)
                             (\<lambda>(r, cs). Ok (r, bs @ cs)))
      else Ok (-1, []))"
  by pat_completeness auto
termination
  by (relation "measure (\<lambda>(pt, va, mx, s). unat mx)") (auto intro: page_rest_measure)

declare copyout.simps [simp del] copyin.simps [simp del] copyinstr.simps [simp del]

definition proc_mapstacks :: "addr \<Rightarrow> 'z kmem_scheme \<Rightarrow> 'z kmem_scheme res" where
  "proc_mapstacks kpgtbl s =
     for_upto 0 NPROC (\<lambda>p s.
       bnd (kalloc s) (\<lambda>(pa, s).
       if pa = 0 then Panic ''kalloc''
       else kvmmap kpgtbl (KSTACK p) pa 4096 (PTE_R OR PTE_W) s)) s"

definition kvmmake :: "'z vm_scheme \<Rightarrow> (addr \<times> 'z vm_scheme) res" where
  "kvmmake s =
     bnd (kalloc s) (\<lambda>(kpgtbl, s).
     let s = s\<lparr>mem := memset (mem s) kpgtbl 0 PGSIZE\<rparr> in
     bnd (kvmmap kpgtbl UART0 UART0 4096 (PTE_R OR PTE_W) s) (\<lambda>s.
     bnd (kvmmap kpgtbl VIRTIO0 VIRTIO0 4096 (PTE_R OR PTE_W) s) (\<lambda>s.
     bnd (kvmmap kpgtbl PLIC PLIC 0x4000000 (PTE_R OR PTE_W) s) (\<lambda>s.
     bnd (kvmmap kpgtbl KERNBASE KERNBASE (etext s - KERNBASE) (PTE_R OR PTE_X) s) (\<lambda>s.
     bnd (kvmmap kpgtbl (etext s) (etext s) (PHYSTOP - etext s) (PTE_R OR PTE_W) s) (\<lambda>s.
     bnd (kvmmap kpgtbl TRAMPOLINE (trampoline s) 4096 (PTE_R OR PTE_X) s) (\<lambda>s.
     bnd (proc_mapstacks kpgtbl s) (\<lambda>s.
     Ok (kpgtbl, s)))))))))"

definition kvminit :: "'z vm_scheme \<Rightarrow> 'z vm_scheme res" where
  "kvminit s = bnd (kvmmake s) (\<lambda>(kpgtbl, s). Ok (s\<lparr>kernel_pagetable := kpgtbl\<rparr>))"

definition kvminithart :: "'z vm_scheme \<Rightarrow> 'z vm_scheme" where
  "kvminithart s = s\<lparr>satp := (satp s)(tp s := MAKE_SATP (kernel_pagetable s))\<rparr>"

end
