(* ===== verification/Pagetable.thy ===== *)
theory Pagetable
  imports Vm
begin

text \<open>
  Page tables as trees: the level-1 and level-0 pages of a table, the entry a lookup finds, and how
  \<open>walk\<close> and \<open>mappages\<close> of \<open>kernel/vm.c\<close> read and change them.
\<close>

section \<open>Entries\<close>

lemma PTE2PA_PA2PTE:
  assumes "page_aligned p" "f < 1024"
  shows "PTE2PA (PA2PTE p OR f) = p"
proof -
  have "take_bit 12 p = 0" using assms(1) by (simp add: take_bit_eq_mod page_aligned_def)
  then have lo: "12 \<le> n" if "bit p n" for n
    using that by (metis bit_0_eq bit_take_bit_iff bot_apply bot_bool_def not_le)
  then have lo': "bit p (12 + (n - 12))" if "bit p n" for n using that by fastforce
  have "f = take_bit 10 f" using assms(2) by (simp add: take_bit_eq_mod word_less_nat_alt unat_mod word_unat_eq_iff)
  then have hi: "\<not> bit f n" if "10 \<le> n" for n using that by (metis bit_take_bit_iff not_le)
  show ?thesis
    by (rule bit_eqI) (auto simp: PTE2PA_def PA2PTE_def bit_simps hi lo' dest: lo)
qed

lemma and_PTE_V: "x AND PTE_V = 0 \<longleftrightarrow> even x" for x :: uint64
  by (simp add: PTE_V_def and_one_eq even_iff_mod_2_eq_zero)

definition px :: "nat \<Rightarrow> uint64 \<Rightarrow> nat" where
  "px l va = unat (PX l va)"

lemma px_less: "px l va < 512"
proof -
  have "PX l va = take_bit 9 (drop_bit (12 + 9 * l) va)"
    by (simp add: PX_def take_bit_eq_mask mask_eq_exp_minus_1)
  then show ?thesis using take_bit_nat_less_exp [of 9] by (simp add: px_def unsigned_take_bit_eq)
qed

definition entry :: "memory \<Rightarrow> addr \<Rightarrow> nat \<Rightarrow> uint64" where
  "entry m p i = load64 m (pte_addr p (of_nat i))"

lemma pte_addr_px: "pte_addr p (PX l va) = pte_addr p (of_nat (px l va))"
  by (simp add: px_def)

lemma pte_addr_offset: "pte_addr p (of_nat i) = p + of_nat (8 * i)"
  by (simp add: pte_addr_def)

text \<open>Bytes that differ only inside the pages of \<open>P\<close>.\<close>

definition same_outside_pages :: "addr set \<Rightarrow> memory \<Rightarrow> memory \<Rightarrow> bool" where
  "same_outside_pages P m m' \<longleftrightarrow> (\<forall>x. (\<forall>p\<in>P. \<not> within p PGSIZE x) \<longrightarrow> m' x = m x)"

lemma same_outside_pages_refl [simp]: "same_outside_pages P m m"
  by (simp add: same_outside_pages_def)

lemma same_outside_pages_trans:
  "same_outside_pages P m m' \<Longrightarrow> same_outside_pages Q m' m'' \<Longrightarrow> same_outside_pages (P \<union> Q) m m''"
  by (simp add: same_outside_pages_def)

lemma same_outside_pages_mono:
  "same_outside_pages P m m' \<Longrightarrow> P \<subseteq> Q \<Longrightarrow> same_outside_pages Q m m'"
  by (auto simp: same_outside_pages_def)

lemma entry_within: "i < 512 \<Longrightarrow> within (pte_addr p (of_nat i)) 8 x \<Longrightarrow> within p PGSIZE x"
  unfolding pte_addr_offset by (erule within_sub_range) simp_all

lemma entry_other_page:
  assumes "same_outside_pages P m m'" "page_aligned p" "\<forall>q\<in>P. page_aligned q" "p \<notin> P" "i < 512"
  shows "entry m' p i = entry m p i"
proof -
  have "load_bytes m' (pte_addr p (of_nat i)) 8 = load_bytes m (pte_addr p (of_nat i)) 8"
  proof (rule load_bytes_cong)
    fix x assume "within (pte_addr p (of_nat i)) 8 x"
    then have "within p PGSIZE x" using assms(5) by (rule entry_within [rotated])
    then have "\<forall>q\<in>P. \<not> within q PGSIZE x"
      using pages_disjoint [of p] assms(2-4) by (auto simp: disjoint_ranges_def)
    then show "m' x = m x" using assms(1) by (simp add: same_outside_pages_def)
  qed simp
  then show ?thesis by (simp add: entry_def load64_def)
qed

lemma entry_store_same [simp]: "entry (store64 m (pte_addr p (of_nat i)) v) p i = v"
  by (simp add: entry_def)

lemma slots_disjoint:
  assumes "i < i'" "i' < 512"
  shows "disjoint_ranges (pte_addr p (of_nat i')) 8 (pte_addr p (of_nat i)) 8"
    "disjoint_ranges (pte_addr p (of_nat i)) 8 (pte_addr p (of_nat i')) 8"
proof -
  show "disjoint_ranges (pte_addr p (of_nat i')) 8 (pte_addr p (of_nat i)) 8"
    unfolding pte_addr_offset using assms by (intro disjoint_offsets) auto
  then show "disjoint_ranges (pte_addr p (of_nat i)) 8 (pte_addr p (of_nat i')) 8"
    by (simp only: disjoint_ranges_sym)
qed

lemma entry_store_other:
  assumes "page_aligned p" "page_aligned p'" "(p, i) \<noteq> (p', i')" "i < 512" "i' < 512"
  shows "entry (store64 m (pte_addr p (of_nat i)) v) p' i' = entry m p' i'"
proof -
  have "disjoint_ranges (pte_addr p' (of_nat i')) 8 (pte_addr p (of_nat i)) 8"
  proof (cases "p = p'")
    case False
    then have "disjoint_ranges p' PGSIZE p PGSIZE" using assms(1,2) by (intro pages_disjoint) auto
    then show ?thesis
      using assms(4,5) entry_within unfolding disjoint_ranges_def by blast
  next
    case True
    then have "i < i' \<or> i' < i" using assms(3) by auto
    then show ?thesis
      using True slots_disjoint [of i i' p] slots_disjoint [of i' i p] assms(4,5) by auto
  qed
  then show ?thesis by (simp add: entry_def load64_def store64_def load_store_disjoint)
qed

lemma le_nat_zeros: "le_nat (replicate n 0) = 0"
  by (induction n) simp_all

lemma entry_zero_page:
  assumes "i < 512"
  shows "entry (store_bytes m q (replicate PGSIZE 0)) q i = 0"
proof -
  have "load_bytes (store_bytes m q (replicate PGSIZE 0)) (pte_addr q (of_nat i)) 8 = replicate 8 0"
  proof (rule nth_equalityI)
    fix j assume "j < length (load_bytes (store_bytes m q (replicate PGSIZE 0)) (pte_addr q (of_nat i)) 8)"
    then have j: "j < 8" by simp
    have "unat (of_nat (8 * i + j) :: addr) = 8 * i + j"
      using assms j by (simp only: unat_of_nat) simp
    then have "within q PGSIZE (pte_addr q (of_nat i) + of_nat j)"
      "unat (pte_addr q (of_nat i) + of_nat j - q) < PGSIZE"
      using assms j by (simp_all add: within_def pte_addr_def)
    then show "load_bytes (store_bytes m q (replicate PGSIZE 0)) (pte_addr q (of_nat i)) 8 ! j
        = replicate 8 0 ! j"
      using j by (simp add: store_bytes_apply)
  qed simp
  then show ?thesis by (simp only: entry_def load64_def le_nat_zeros) simp
qed

section \<open>The tree of table pages\<close>

text \<open>
  A page table seen as a tree: the root page, the level-1 page under each root entry and the
  level-0 page under each pair of entries.
\<close>

record ptree =
  proot :: addr
  pmid :: "nat \<Rightarrow> addr option"
  plow :: "nat \<times> nat \<Rightarrow> addr option"

definition table_ok :: "memory \<Rightarrow> addr \<Rightarrow> (nat \<Rightarrow> addr option) \<Rightarrow> bool" where
  "table_ok m p c \<longleftrightarrow> (\<forall>i<512. case c i of
     None \<Rightarrow> entry m p i AND PTE_V = 0
   | Some q \<Rightarrow> entry m p i AND PTE_V \<noteq> 0 \<and> PTE2PA (entry m p i) = q)"

definition pt_pages :: "ptree \<Rightarrow> addr set" where
  "pt_pages T = insert (proot T) (ran (pmid T) \<union> ran (plow T))"

definition pt_rep :: "memory \<Rightarrow> ptree \<Rightarrow> bool" where
  "pt_rep m T \<longleftrightarrow> table_ok m (proot T) (pmid T)
     \<and> (\<forall>i p. pmid T i = Some p \<longrightarrow> table_ok m p (\<lambda>j. plow T (i, j)))"

definition pt_shape :: "ptree \<Rightarrow> bool" where
  "pt_shape T \<longleftrightarrow> proot T \<notin> ran (pmid T) \<and> proot T \<notin> ran (plow T)
     \<and> ran (pmid T) \<inter> ran (plow T) = {}
     \<and> (\<forall>i i' p. pmid T i = Some p \<longrightarrow> pmid T i' = Some p \<longrightarrow> i = i')
     \<and> (\<forall>x x' p. plow T x = Some p \<longrightarrow> plow T x' = Some p \<longrightarrow> x = x')
     \<and> (\<forall>i p. pmid T i = Some p \<longrightarrow> i < 512)
     \<and> (\<forall>i j p. plow T (i, j) = Some p \<longrightarrow> (\<exists>q. pmid T i = Some q) \<and> j < 512)"

definition pt_inv :: "'z kmem_scheme \<Rightarrow> ptree \<Rightarrow> addr list \<Rightarrow> bool" where
  "pt_inv s T ps \<longleftrightarrow> pt_rep (mem s) T \<and> pt_shape T \<and> kmem_inv s ps \<and> pt_pages T \<inter> set ps = {}
     \<and> (\<forall>p\<in>pt_pages T. page_ok (kernel_end s) p)"

text \<open>The level-0 entry for an address, 0 where there is no level-0 page.\<close>

definition lookup :: "memory \<Rightarrow> ptree \<Rightarrow> uint64 \<Rightarrow> uint64" where
  "lookup m T va = (case plow T (px 2 va, px 1 va) of None \<Rightarrow> 0 | Some q \<Rightarrow> entry m q (px 0 va))"

lemma pt_pages_nonzero: "pt_inv s T ps \<Longrightarrow> p \<in> pt_pages T \<Longrightarrow> p \<noteq> 0 \<and> page_aligned p"
  by (fastforce simp: pt_inv_def kmem_inv_def page_ok_def)

lemma pt_pagesI: "proot T \<in> pt_pages T" "pmid T i = Some p \<Longrightarrow> p \<in> pt_pages T"
  "plow T x = Some p \<Longrightarrow> p \<in> pt_pages T"
  by (auto simp: pt_pages_def intro: ranI)

section \<open>Looking up\<close>

text \<open>Without allocation \<open>walk\<close> reads the tree and changes nothing.\<close>

lemma walk_levels_known:
  assumes "pt_rep (mem s) T" "plow T (px 2 va, px 1 va) = Some q" "pmid T (px 2 va) = Some p"
  shows "walk_levels 2 (proot T) va alloc s = Ok (Some q, s)"
proof -
  have "entry (mem s) (proot T) (px 2 va) AND PTE_V \<noteq> 0" "PTE2PA (entry (mem s) (proot T) (px 2 va)) = p"
    "entry (mem s) p (px 1 va) AND PTE_V \<noteq> 0" "PTE2PA (entry (mem s) p (px 1 va)) = q"
    using assms px_less [of 2 va] px_less [of 1 va] unfolding pt_rep_def table_ok_def
    by (fastforce split: option.splits)+
  then show ?thesis
    by (simp add: numeral_2_eq_2 Let_def pte_addr_px entry_def)
qed

lemma walk_levels_missing:
  assumes "pt_rep (mem s) T" "plow T (px 2 va, px 1 va) = None"
  shows "walk_levels 2 (proot T) va False s = Ok (None, s)"
proof (cases "pmid T (px 2 va)")
  case None
  then have "entry (mem s) (proot T) (px 2 va) AND PTE_V = 0"
    using assms px_less [of 2 va] unfolding pt_rep_def table_ok_def by (fastforce split: option.splits)
  then show ?thesis by (simp add: numeral_2_eq_2 Let_def pte_addr_px entry_def)
next
  case (Some p)
  then have "entry (mem s) (proot T) (px 2 va) AND PTE_V \<noteq> 0" "PTE2PA (entry (mem s) (proot T) (px 2 va)) = p"
    "entry (mem s) p (px 1 va) AND PTE_V = 0"
    using assms px_less [of 2 va] px_less [of 1 va] unfolding pt_rep_def table_ok_def
    by (fastforce split: option.splits)+
  then show ?thesis
    by (simp add: numeral_2_eq_2 Let_def pte_addr_px entry_def)
qed

lemma pte_addr_nonzero:
  assumes "page_ok e q" "0 < e" "i < 512"
  shows "pte_addr q (of_nat i) \<noteq> 0"
proof
  assume z: "pte_addr q (of_nat i) = 0"
  have "unat q + 8 * i < 2 ^ 64"
    using assms(1,3) by (auto simp: page_ok_def word_less_nat_alt PHYSTOP_unat)
  then have "unat (q + of_nat (8 * i)) = unat q + 8 * i"
    using assms(3) by (simp add: unat_word_ariths unat_of_nat)
  then have "unat q = 0" using z by (simp add: pte_addr_offset)
  then show False using assms(1,2) by (auto simp: page_ok_def word_less_nat_alt word_le_nat_alt)
qed

lemma plow_pmid:
  assumes "pt_shape T" "plow T (i, j) = Some q"
  obtains p where "pmid T i = Some p" "i < 512" "j < 512"
proof -
  have "\<exists>p. pmid T i = Some p" "j < 512" using assms unfolding pt_shape_def by blast+
  moreover from this(1) have "i < 512" using assms(1) unfolding pt_shape_def by blast
  ultimately show ?thesis using that by blast
qed

lemma walk_lookup:
  assumes "pt_inv s T ps" "va < MAXVA"
  shows "walk (proot T) va False s = Ok (case plow T (px 2 va, px 1 va) of
    None \<Rightarrow> 0 | Some q \<Rightarrow> pte_addr q (of_nat (px 0 va)), s)"
proof (cases "plow T (px 2 va, px 1 va)")
  case None
  then show ?thesis using assms walk_levels_missing [of s T va]
    by (simp add: walk_def not_le pt_inv_def)
next
  case (Some q)
  then obtain p where "pmid T (px 2 va) = Some p" using assms(1) plow_pmid [of T] unfolding pt_inv_def by blast
  then show ?thesis using assms Some walk_levels_known [of s T va q p False]
    by (simp add: walk_def not_le pt_inv_def pte_addr_px)
qed

lemma walk_pte:
  assumes "pt_inv s T ps" "va < MAXVA" "walk (proot T) va False s = Ok (pte, s')"
  shows "s' = s" "pte \<noteq> 0 \<Longrightarrow> load64 (mem s) pte = lookup (mem s) T va"
    "pte = 0 \<Longrightarrow> lookup (mem s) T va = 0"
proof -
  note w = walk_lookup [OF assms(1,2)]
  show "s' = s" using w assms(3) by simp
  show "pte \<noteq> 0 \<Longrightarrow> load64 (mem s) pte = lookup (mem s) T va"
    using w assms(3) by (auto simp: lookup_def entry_def split: option.splits)
  show "lookup (mem s) T va = 0" if "pte = 0"
  proof (cases "plow T (px 2 va, px 1 va)")
    case (Some q)
    then have "page_ok (kernel_end s) q" "0 < kernel_end s"
      using assms(1) pt_pagesI(3) [OF Some] by (auto simp: pt_inv_def kmem_inv_def)
    then have "pte_addr q (of_nat (px 0 va)) \<noteq> 0" by (rule pte_addr_nonzero) (rule px_less)
    then show ?thesis using w assms(3) that Some by simp
  qed (simp add: lookup_def)
qed

section \<open>Adding table pages\<close>

lemma entry_0: "entry m q 0 = load64 m q"
  by (simp add: entry_def pte_addr_def)

lemma free_chain_other_pages:
  assumes "same_outside_pages P m m'" "\<forall>p\<in>P. page_aligned p" "P \<inter> set ps = {}"
    "\<forall>q\<in>set ps. page_ok e q"
  shows "free_chain m' r ps \<longleftrightarrow> free_chain m r ps"
  using assms(3,4)
proof (induction ps arbitrary: r)
  case (Cons q ps)
  then have "entry m' q 0 = entry m q 0"
    using assms(1,2) by (intro entry_other_page) (auto simp: page_ok_def)
  then show ?case using Cons by (simp add: entry_0)
qed simp

lemma kmem_inv_mem:
  assumes "kmem_inv s ps" "same_outside_pages P (mem s) m'" "\<forall>p\<in>P. page_aligned p" "P \<inter> set ps = {}"
  shows "kmem_inv (s\<lparr>mem := m'\<rparr>) ps"
  using assms free_chain_other_pages [OF assms(2-4), of "kernel_end s" "freelist s"]
  by (simp add: kmem_inv_def lock_free_def cpu_ok_def machine_ops)

text \<open>What the kernel's memory operations leave alone.\<close>

definition vm_frame :: "'z kmem_scheme \<Rightarrow> 'z kmem_scheme \<Rightarrow> bool" where
  "vm_frame s s' \<longleftrightarrow> locks s' = locks s \<and> tp s' = tp s \<and> sie s' = sie s
     \<and> cpu_proc (mycpu s') = cpu_proc (mycpu s) \<and> noff (mycpu s') = noff (mycpu s)
     \<and> kernel_end s' = kernel_end s \<and> kmem.more s' = kmem.more s"

lemma vm_frame_refl [simp]: "vm_frame s s"
  by (simp add: vm_frame_def)

lemma vm_frame_trans: "vm_frame s s' \<Longrightarrow> vm_frame s' s'' \<Longrightarrow> vm_frame s s''"
  by (simp add: vm_frame_def)

lemma vm_frame_mem [simp]: "vm_frame s (s'\<lparr>mem := m\<rparr>) = vm_frame s s'"
  by (simp add: vm_frame_def machine_ops)

lemma vm_frame_allocated: "vm_frame s (allocated q s)"
  by (simp add: vm_frame_def allocated_def settle_def machine_ops)

lemma vm_frame_freed: "vm_frame s (freed q s)"
  by (simp add: vm_frame_def freed_def settle_def machine_ops)

lemma vm_frame_settle: "vm_frame s (settle s)"
  by (simp add: vm_frame_def settle_def machine_ops)

definition grown :: "addr \<Rightarrow> nat \<Rightarrow> addr \<Rightarrow> 'z kmem_scheme \<Rightarrow> 'z kmem_scheme" where
  "grown t i q s = (allocated q s)\<lparr>mem :=
     store64 (store_bytes (store_bytes (mem s) q (replicate PGSIZE 5)) q (replicate PGSIZE 0))
       (pte_addr t (of_nat i)) (PA2PTE q OR PTE_V)\<rparr>"

lemma same_outside_pages_store:
  "same_outside_pages P m m' \<Longrightarrow> q \<in> P \<Longrightarrow> length bs \<le> PGSIZE \<Longrightarrow>
   same_outside_pages P m (store_bytes m' q bs)"
  by (auto simp: same_outside_pages_def store_bytes_apply within_def)

lemma same_outside_pages_store64:
  assumes "same_outside_pages P m m'" "q \<in> P" "i < 512"
  shows "same_outside_pages P m (store64 m' (pte_addr q (of_nat i)) v)"
  unfolding same_outside_pages_def
proof (intro allI impI)
  fix x assume x: "\<forall>p\<in>P. \<not> within p PGSIZE x"
  then have "\<not> within (pte_addr q (of_nat i)) 8 x" using entry_within [OF assms(3)] assms(2) by blast
  then show "store64 m' (pte_addr q (of_nat i)) v x = m x"
    using assms(1) x by (simp add: store64_def store_bytes_apply same_outside_pages_def)
qed

lemma grown_new_page:
  assumes "pt_inv s T (q # ps)"
  shows "q \<notin> pt_pages T" "page_ok (kernel_end s) q" "page_aligned q" "q \<noteq> 0" "q \<notin> set ps"
  using assms by (auto simp: pt_inv_def kmem_inv_def page_ok_def)

lemma grown_outside:
  "i < 512 \<Longrightarrow> same_outside_pages {t, q} (mem s) (mem (grown t i q s))"
  unfolding grown_def by (simp add: same_outside_pages_store64 same_outside_pages_store)

lemma grown_entry: "entry (mem (grown t i q s)) t i = PA2PTE q OR PTE_V"
  by (simp add: grown_def)

lemma grown_entry_new:
  assumes "pt_inv s T (q # ps)" "t \<in> pt_pages T" "i < 512" "j < 512"
  shows "entry (mem (grown t i q s)) q j = 0"
proof -
  note q = grown_new_page [OF assms(1)]
  have "entry (mem (grown t i q s)) q j
      = entry (store_bytes (store_bytes (mem s) q (replicate PGSIZE 5)) q (replicate PGSIZE 0)) q j"
    unfolding grown_def using q assms pt_pages_nonzero [OF assms(1,2)]
    by (auto intro!: entry_store_other)
  also have "\<dots> = 0" using assms(4) by (rule entry_zero_page)
  finally show ?thesis .
qed

lemma grown_entry_old:
  assumes "pt_inv s T (q # ps)" "t \<in> pt_pages T" "i < 512" "p \<in> pt_pages T" "j < 512" "(p, j) \<noteq> (t, i)"
  shows "entry (mem (grown t i q s)) p j = entry (mem s) p j"
proof -
  note q = grown_new_page [OF assms(1)]
  let ?m = "store_bytes (store_bytes (mem s) q (replicate PGSIZE 5)) q (replicate PGSIZE 0)"
  have p: "page_aligned p" "page_aligned t" "p \<noteq> q"
    using pt_pages_nonzero [OF assms(1)] assms(2,4) q(1) by auto
  have "entry (mem (grown t i q s)) p j = entry ?m p j"
    unfolding grown_def using p assms by (auto intro!: entry_store_other)
  also have "\<dots> = entry (mem s) p j"
    using p q assms(5)
    by (intro entry_other_page [where P = "{q}"]) (simp_all add: same_outside_pages_store)
  finally show ?thesis .
qed

lemma grown_kmem:
  assumes "pt_inv s T (q # ps)" "t \<in> pt_pages T" "i < 512"
  shows "kmem_inv (grown t i q s) ps"
proof -
  have inv: "kmem_inv (allocated q s) ps"
    using assms(1) by (intro kmem_inv_allocated) (simp add: pt_inv_def)
  have "same_outside_pages {t, q} (mem (allocated q s)) (mem (grown t i q s))"
    unfolding grown_def using assms(3)
    by (simp add: same_outside_pages_store64 same_outside_pages_store)
  moreover have "{t, q} \<inter> set ps = {}" "\<forall>p\<in>{t, q}. page_aligned p"
    using assms(1,2) grown_new_page [OF assms(1)] pt_pages_nonzero [OF assms(1,2)]
    by (auto simp: pt_inv_def)
  ultimately have "kmem_inv ((allocated q s)\<lparr>mem := mem (grown t i q s)\<rparr>) ps"
    using kmem_inv_mem [OF inv] by blast
  then show ?thesis by (simp add: grown_def)
qed

lemma grown_frame: "vm_frame s (grown t i q s)" "kernel_end (grown t i q s) = kernel_end s"
  by (simp_all add: grown_def vm_frame_allocated)

lemma PA2PTE_valid:
  "page_aligned q \<Longrightarrow> PTE2PA (PA2PTE q OR PTE_V) = q \<and> (PA2PTE q OR PTE_V) AND PTE_V \<noteq> 0"
  using PTE2PA_PA2PTE [of q PTE_V] by (simp add: PTE_V_def and_PTE_V [unfolded PTE_V_def] even_or_iff)

lemma table_ok_cong:
  "(\<And>i. i < 512 \<Longrightarrow> entry m' p i = entry m p i) \<Longrightarrow> table_ok m p c \<Longrightarrow> table_ok m' p c"
  by (auto simp: table_ok_def split: option.splits)

lemma table_ok_upd:
  "table_ok m p c \<Longrightarrow> (\<And>k. k < 512 \<Longrightarrow> k \<noteq> i \<Longrightarrow> entry m' p k = entry m p k) \<Longrightarrow>
   entry m' p i AND PTE_V \<noteq> 0 \<Longrightarrow> PTE2PA (entry m' p i) = q \<Longrightarrow> table_ok m' p (c(i := Some q))"
  by (auto simp: table_ok_def split: option.splits)

text \<open>A new level-1 page under root entry \<open>i\<close>.\<close>

definition add_mid :: "nat \<Rightarrow> addr \<Rightarrow> ptree \<Rightarrow> ptree" where
  "add_mid i q T = T\<lparr>pmid := (pmid T)(i := Some q)\<rparr>"

lemma pages_add_mid: "pmid T i = None \<Longrightarrow> pt_pages (add_mid i q T) = insert q (pt_pages T)"
  by (auto simp: pt_pages_def add_mid_def ran_map_upd)

lemma low_none: "pt_shape T \<Longrightarrow> pmid T i = None \<Longrightarrow> plow T (i, j) = None"
  by (rule ccontr) (auto elim: plow_pmid)

lemma shape_add_mid:
  assumes "pt_shape T" "pmid T i = None" "i < 512" "q \<notin> pt_pages T"
  shows "pt_shape (add_mid i q T)"
proof -
  have "ran ((pmid T)(i := Some q)) = insert q (ran (pmid T))"
    using assms(2) by (rule ran_map_upd)
  moreover have "q \<noteq> proot T" "q \<notin> ran (pmid T)" "q \<notin> ran (plow T)"
    using assms(4) by (auto simp: pt_pages_def)
  ultimately show ?thesis
    using assms(1-3) unfolding pt_shape_def add_mid_def
    by (auto simp: ranI split: if_splits) (metis option.distinct(1))+
qed

lemma rep_add_mid:
  assumes "pt_inv s T (q # ps)" "pmid T i = None" "i < 512"
  shows "pt_rep (mem (grown (proot T) i q s)) (add_mid i q T)"
proof -
  note q = grown_new_page [OF assms(1)]
  have rep: "pt_rep (mem s) T" and shape: "pt_shape T" using assms(1) by (auto simp: pt_inv_def)
  have same: "entry (mem (grown (proot T) i q s)) p j = entry (mem s) p j"
    if "p \<in> pt_pages T" "j < 512" "(p, j) \<noteq> (proot T, i)" for p j
    using grown_entry_old [OF assms(1) pt_pagesI(1) assms(3) that] .
  have new: "entry (mem (grown (proot T) i q s)) q j = 0" if "j < 512" for j
    using grown_entry_new [OF assms(1) pt_pagesI(1) assms(3) that] .
  have "table_ok (mem (grown (proot T) i q s)) (proot T) ((pmid T)(i := Some q))"
    using rep same [OF pt_pagesI(1)] grown_entry [of "proot T" i q s] PA2PTE_valid [OF q(3)]
    by (intro table_ok_upd [of "mem s"]) (auto simp: pt_rep_def)
  moreover have "table_ok (mem (grown (proot T) i q s)) q (\<lambda>j. plow T (i, j))"
    using new low_none [OF shape assms(2)] by (simp add: table_ok_def)
  moreover have "table_ok (mem (grown (proot T) i q s)) p (\<lambda>j. plow T (k, j))"
    if "pmid T k = Some p" for k p
  proof (rule table_ok_cong)
    show "table_ok (mem s) p (\<lambda>j. plow T (k, j))" using rep that by (simp add: pt_rep_def)
    have "p \<noteq> proot T" using shape ranI [of "pmid T"] that unfolding pt_shape_def by blast
    then show "entry (mem (grown (proot T) i q s)) p j = entry (mem s) p j" if "j < 512" for j
      using same [OF pt_pagesI(2) [OF \<open>pmid T k = Some p\<close>] that] by simp
  qed
  ultimately show ?thesis
    using assms(2) by (auto simp: pt_rep_def add_mid_def)
qed

text \<open>A new level-0 page under entry \<open>j\<close> of the level-1 page of root entry \<open>i\<close>.\<close>

definition add_low :: "nat \<times> nat \<Rightarrow> addr \<Rightarrow> ptree \<Rightarrow> ptree" where
  "add_low x q T = T\<lparr>plow := (plow T)(x := Some q)\<rparr>"

lemma pages_add_low: "plow T x = None \<Longrightarrow> pt_pages (add_low x q T) = insert q (pt_pages T)"
  by (auto simp: pt_pages_def add_low_def ran_map_upd)

lemma shape_add_low:
  assumes "pt_shape T" "plow T (i, j) = None" "pmid T i = Some p" "j < 512" "q \<notin> pt_pages T"
  shows "pt_shape (add_low (i, j) q T)"
proof -
  have "ran ((plow T)((i, j) := Some q)) = insert q (ran (plow T))"
    using assms(2) by (rule ran_map_upd)
  moreover have "q \<noteq> proot T" "q \<notin> ran (pmid T)" "q \<notin> ran (plow T)"
    using assms(5) by (auto simp: pt_pages_def)
  ultimately show ?thesis
    using assms(1-4) unfolding pt_shape_def add_low_def
    by (auto simp: ranI split: if_splits)
qed

lemma rep_add_low:
  assumes "pt_inv s T (q # ps)" "plow T (i, j) = None" "pmid T i = Some t" "j < 512"
  shows "pt_rep (mem (grown t j q s)) (add_low (i, j) q T)"
proof -
  note q = grown_new_page [OF assms(1)]
  have rep: "pt_rep (mem s) T" and shape: "pt_shape T" using assms(1) by (auto simp: pt_inv_def)
  have t: "t \<in> pt_pages T" using pt_pagesI(2) [OF assms(3)] .
  note same = grown_entry_old [OF assms(1) t assms(4)]
  have "proot T \<noteq> t" using shape ranI [of "pmid T" i t] assms(3) unfolding pt_shape_def by blast
  then have "table_ok (mem (grown t j q s)) (proot T) (pmid T)"
    using rep same [OF pt_pagesI(1)]
    by (intro table_ok_cong [of "mem (grown t j q s)" "proot T" "mem s"]) (auto simp: pt_rep_def)
  moreover have "table_ok (mem (grown t j q s)) t ((\<lambda>k. plow T (i, k))(j := Some q))"
    using rep assms(3) same [OF t] grown_entry [of t j q s] PA2PTE_valid [OF q(3)]
    by (intro table_ok_upd [of "mem s"]) (auto simp: pt_rep_def)
  moreover have "(\<lambda>k. plow T (i, k))(j := Some q) = (\<lambda>k. ((plow T)((i, j) := Some q)) (i, k))"
    by auto
  moreover have "table_ok (mem (grown t j q s)) p (\<lambda>l. ((plow T)((i, j) := Some q)) (k, l))"
    if k: "pmid T k = Some p" "k \<noteq> i" for k p
  proof (rule table_ok_cong)
    show "table_ok (mem s) p (\<lambda>l. ((plow T)((i, j) := Some q)) (k, l))"
      using rep k by (simp add: pt_rep_def)
    have "p \<noteq> t" using shape k assms(3) unfolding pt_shape_def by blast
    then show "entry (mem (grown t j q s)) p l = entry (mem s) p l" if "l < 512" for l
      using same [OF pt_pagesI(2) [OF k(1)] that] by simp
  qed
  ultimately have root: "table_ok (mem (grown t j q s)) (proot T) (pmid T)"
    and low: "table_ok (mem (grown t j q s)) p (\<lambda>l. ((plow T)((i, j) := Some q)) (k, l))"
      if "pmid T k = Some p" for k p
    using that assms(3) by (cases "k = i"; simp)+
  then show ?thesis using assms(3) by (simp add: pt_rep_def add_low_def)
qed

lemma inv_add_mid:
  assumes "pt_inv s T (q # ps)" "pmid T i = None" "i < 512"
  shows "pt_inv (grown (proot T) i q s) (add_mid i q T) ps"
  using rep_add_mid [OF assms] shape_add_mid [of T i q] grown_kmem [OF assms(1) pt_pagesI(1) assms(3)]
    grown_new_page [OF assms(1)] assms
  by (auto simp: pt_inv_def pages_add_mid grown_frame)

lemma inv_add_low:
  assumes "pt_inv s T (q # ps)" "plow T (i, j) = None" "pmid T i = Some t" "j < 512"
  shows "pt_inv (grown t j q s) (add_low (i, j) q T) ps"
  using rep_add_low [OF assms] shape_add_low [of T i j t q] grown_kmem [OF assms(1) pt_pagesI(2) assms(4)]
    grown_new_page [OF assms(1)] assms
  by (auto simp: pt_inv_def pages_add_low grown_frame)

text \<open>
  A step that only adds table pages: the pages come from the free list, no entry seen by a lookup
  changes, and no byte outside the table pages.
\<close>

definition pt_grow :: "'z kmem_scheme \<Rightarrow> ptree \<Rightarrow> addr list \<Rightarrow> 'z kmem_scheme \<Rightarrow> ptree \<Rightarrow> addr list \<Rightarrow> bool" where
  "pt_grow s T ps s' T' ps' \<longleftrightarrow> pt_inv s' T' ps' \<and> proot T' = proot T \<and> vm_frame s s'
     \<and> (\<forall>va. lookup (mem s') T' va = lookup (mem s) T va)
     \<and> pt_pages T \<subseteq> pt_pages T' \<and> pt_pages T' \<union> set ps' = pt_pages T \<union> set ps
     \<and> same_outside_pages (pt_pages T') (mem s) (mem s')"

lemma pt_grow_trans:
  "pt_grow s T ps s' T' ps' \<Longrightarrow> pt_grow s' T' ps' s'' T'' ps'' \<Longrightarrow> pt_grow s T ps s'' T'' ps''"
  unfolding pt_grow_def
  using same_outside_pages_trans [of "pt_pages T'" "mem s" "mem s'" "pt_pages T''" "mem s''"]
  by (auto intro: vm_frame_trans simp: Un_absorb1)

lemma pt_grow_settle:
  "pt_inv s T ps \<Longrightarrow> pt_grow s T ps (settle s) T ps"
  by (simp add: pt_grow_def pt_inv_def vm_frame_settle)

lemma low_page_distinct:
  assumes "pt_shape T" "plow T x = Some p"
  shows "p \<noteq> proot T" "pmid T i = Some t \<Longrightarrow> p \<noteq> t"
proof -
  have "p \<in> ran (plow T)" using assms(2) by (rule ranI)
  then show "p \<noteq> proot T" "pmid T i = Some t \<Longrightarrow> p \<noteq> t"
    using assms(1) ranI [of "pmid T" i t] unfolding pt_shape_def by blast+
qed

lemma grow_mid:
  assumes "pt_inv s T (q # ps)" "pmid T i = None" "i < 512"
  shows "pt_grow s T (q # ps) (grown (proot T) i q s) (add_mid i q T) ps"
proof -
  have shape: "pt_shape T" using assms(1) by (simp add: pt_inv_def)
  have "lookup (mem (grown (proot T) i q s)) (add_mid i q T) va = lookup (mem s) T va" for va
  proof (cases "plow T (px 2 va, px 1 va)")
    case (Some p)
    moreover have "p \<noteq> proot T" using low_page_distinct [OF shape Some] by simp
    ultimately show ?thesis
      using grown_entry_old [OF assms(1) pt_pagesI(1) assms(3) pt_pagesI(3) px_less] Some
      by (simp add: lookup_def add_mid_def)
  qed (simp add: lookup_def add_mid_def)
  moreover have "same_outside_pages (insert q (pt_pages T)) (mem s) (mem (grown (proot T) i q s))"
    by (rule same_outside_pages_mono [OF grown_outside [OF assms(3)]]) (simp add: pt_pagesI)
  ultimately show ?thesis
    using inv_add_mid [OF assms] assms(2)
    by (auto simp: pt_grow_def grown_frame pages_add_mid) (simp_all add: add_mid_def)
qed

lemma grow_low:
  assumes "pt_inv s T (q # ps)" "plow T (i, j) = None" "pmid T i = Some t" "i < 512" "j < 512"
  shows "pt_grow s T (q # ps) (grown t j q s) (add_low (i, j) q T) ps"
proof -
  have shape: "pt_shape T" using assms(1) by (simp add: pt_inv_def)
  note t = pt_pagesI(2) [OF assms(3)]
  have "lookup (mem (grown t j q s)) (add_low (i, j) q T) va = lookup (mem s) T va" for va
  proof (cases "plow T (px 2 va, px 1 va)")
    case (Some p)
    moreover have "p \<noteq> t" using low_page_distinct [OF shape Some] assms(3) by blast
    ultimately show ?thesis
      using grown_entry_old [OF assms(1) t assms(5) pt_pagesI(3) px_less] Some assms(2)
      by (auto simp: lookup_def add_low_def)
  next
    case None
    then show ?thesis
      using grown_entry_new [OF assms(1) t assms(5) px_less] by (simp add: lookup_def add_low_def)
  qed
  moreover have "same_outside_pages (insert q (pt_pages T)) (mem s) (mem (grown t j q s))"
    by (rule same_outside_pages_mono [OF grown_outside [OF assms(5)]]) (simp add: t)
  ultimately show ?thesis
    using inv_add_low [OF assms(1-3,5)] assms(2)
    by (auto simp: pt_grow_def grown_frame pages_add_low) (simp_all add: add_low_def)
qed

text \<open>One level of \<open>walk\<close> that finds no table below entry \<open>i\<close> of \<open>t\<close>.\<close>

lemma walk_level_alloc:
  assumes "pt_inv s T (q # ps)" "entry (mem s) t (px (Suc l) va) AND PTE_V = 0"
  shows "walk_levels (Suc l) t va True s = walk_levels l q va True (grown t (px (Suc l) va) q s)"
proof -
  have "kalloc s = Ok (q, allocated q s)" "q \<noteq> 0"
    using kalloc_nonempty [of s q ps] assms(1) grown_new_page [OF assms(1)] by (auto simp: pt_inv_def)
  then show ?thesis
    using assms(2) by (simp add: Let_def pte_addr_px entry_def grown_def memset_store)
qed

lemma walk_level_full:
  assumes "pt_inv s T []" "entry (mem s) t (px (Suc l) va) AND PTE_V = 0"
  shows "walk_levels (Suc l) t va True s = Ok (None, settle s)"
  using kalloc_empty [of s] assms by (simp add: Let_def pte_addr_px entry_def pt_inv_def)

lemma walk_level_down:
  assumes "entry (mem s) t (px (Suc l) va) AND PTE_V \<noteq> 0"
  shows "walk_levels (Suc l) t va alloc s = walk_levels l (PTE2PA (entry (mem s) t (px (Suc l) va))) va alloc s"
  using assms by (simp add: Let_def pte_addr_px entry_def)

text \<open>The last level: the level-1 page is there.\<close>

lemma walk_low_alloc:
  assumes "pt_inv s T ps" "pmid T (px 2 va) = Some t"
  shows "\<exists>r s' T' ps'. walk_levels 1 t va True s = Ok (r, s') \<and> pt_grow s T ps s' T' ps'
    \<and> plow T' (px 2 va, px 1 va) = r \<and> (r = None \<longrightarrow> ps' = []) \<and> length ps \<le> Suc (length ps')"
proof (cases "plow T (px 2 va, px 1 va)")
  case (Some q)
  then have "entry (mem s) t (px 1 va) AND PTE_V \<noteq> 0" "PTE2PA (entry (mem s) t (px 1 va)) = q"
    using assms px_less [of 1 va] unfolding pt_inv_def pt_rep_def table_ok_def
    by (fastforce split: option.splits)+
  then have "walk_levels 1 t va True s = Ok (Some q, s)" using walk_level_down [of s t 0 va] by simp
  moreover have "pt_grow s T ps s T ps" using assms(1) by (simp add: pt_grow_def)
  ultimately show ?thesis using Some by (intro exI conjI) (assumption | simp)+
next
  case None
  then have inval: "entry (mem s) t (px (Suc 0) va) AND PTE_V = 0"
    using assms px_less [of 1 va] unfolding pt_inv_def pt_rep_def table_ok_def
    by (fastforce split: option.splits)
  show ?thesis
  proof (cases ps)
    case Nil
    then have "walk_levels 1 t va True s = Ok (None, settle s)"
      using walk_level_full [of s T t 0 va] assms(1) inval by simp
    then show ?thesis
      using pt_grow_settle [OF assms(1)] None Nil by (intro exI conjI) (assumption | simp)+
  next
    case (Cons q qs)
    then have w: "walk_levels 1 t va True s = Ok (Some q, grown t (px 1 va) q s)"
      using walk_level_alloc [of s T q qs t 0 va] assms(1) inval by simp
    have "pt_grow s T ps (grown t (px 1 va) q s) (add_low (px 2 va, px 1 va) q T) qs"
      using grow_low [of s T q qs] assms Cons None px_less by blast
    with w show ?thesis
      using Cons by (intro exI conjI) (assumption | simp add: add_low_def)+
  qed
qed

lemma walk_alloc:
  assumes "pt_inv s T ps" "va < MAXVA"
  shows "\<exists>r s' T' ps'. walk (proot T) va True s =
      Ok (case r of None \<Rightarrow> 0 | Some q \<Rightarrow> pte_addr q (of_nat (px 0 va)), s')
    \<and> pt_grow s T ps s' T' ps' \<and> plow T' (px 2 va, px 1 va) = r \<and> (r = None \<longrightarrow> ps' = [])
    \<and> length ps \<le> 2 + length ps'"
proof -
  have "\<exists>r s' T' ps'. walk_levels 2 (proot T) va True s = Ok (r, s')
    \<and> pt_grow s T ps s' T' ps' \<and> plow T' (px 2 va, px 1 va) = r \<and> (r = None \<longrightarrow> ps' = [])
    \<and> length ps \<le> 2 + length ps'"
  proof (cases "pmid T (px 2 va)")
    case (Some t)
    then have "entry (mem s) (proot T) (px 2 va) AND PTE_V \<noteq> 0" "PTE2PA (entry (mem s) (proot T) (px 2 va)) = t"
      using assms px_less [of 2 va] unfolding pt_inv_def pt_rep_def table_ok_def
      by (fastforce split: option.splits)+
    then have "walk_levels 2 (proot T) va True s = walk_levels 1 t va True s"
      using walk_level_down [of s "proot T" 1 va] by (simp add: numeral_2_eq_2)
    moreover obtain r s' T' ps' where w: "walk_levels 1 t va True s = Ok (r, s')"
      "pt_grow s T ps s' T' ps'" "plow T' (px 2 va, px 1 va) = r" "r = None \<longrightarrow> ps' = []"
      and le: "length ps \<le> Suc (length ps')"
      using walk_low_alloc [OF assms(1) Some] by (elim exE conjE) simp
    moreover have "length ps \<le> 2 + length ps'" using le by simp
    ultimately show ?thesis by (intro exI conjI) (assumption | simp)+
  next
    case None
    then have inval: "entry (mem s) (proot T) (px (Suc 1) va) AND PTE_V = 0"
      using assms px_less [of 2 va] unfolding pt_inv_def pt_rep_def table_ok_def
      by (fastforce split: option.splits simp: numeral_2_eq_2)
    have low: "plow T (px 2 va, px 1 va) = None"
      using low_none None assms(1) by (auto simp: pt_inv_def)
    show ?thesis
    proof (cases ps)
      case Nil
      then have "walk_levels 2 (proot T) va True s = Ok (None, settle s)"
        using walk_level_full [of s T "proot T" 1 va] assms(1) inval by (simp add: numeral_2_eq_2)
      then show ?thesis
        using pt_grow_settle [OF assms(1)] low Nil by (intro exI conjI) (assumption | simp)+
    next
      case (Cons q qs)
      let ?s = "grown (proot T) (px 2 va) q s" and ?T = "add_mid (px 2 va) q T"
      have w: "walk_levels 2 (proot T) va True s = walk_levels 1 q va True ?s"
        using walk_level_alloc [of s T q qs "proot T" 1 va] assms(1) inval Cons by (simp add: numeral_2_eq_2)
      have g: "pt_grow s T ps ?s ?T qs"
        using grow_mid [of s T q qs "px 2 va"] assms(1) Cons None px_less by blast
      then have inv: "pt_inv ?s ?T qs" by (simp add: pt_grow_def)
      have mid: "pmid ?T (px 2 va) = Some q" by (simp add: add_mid_def)
      obtain r s' T' ps' where "walk_levels 1 q va True ?s = Ok (r, s')"
        "pt_grow ?s ?T qs s' T' ps'" "plow T' (px 2 va, px 1 va) = r" "r = None \<longrightarrow> ps' = []"
        "length qs \<le> Suc (length ps')"
        using walk_low_alloc [OF inv mid] by (elim exE conjE) simp
      moreover from this(5) have "length ps \<le> 2 + length ps'" using Cons by simp
      ultimately show ?thesis
        using w pt_grow_trans [OF g] by (intro exI conjI) (assumption | simp)+
    qed
  qed
  then obtain r s' T' ps' where w: "walk_levels 2 (proot T) va True s = Ok (r, s')"
    and r: "pt_grow s T ps s' T' ps'" "plow T' (px 2 va, px 1 va) = r" "r = None \<longrightarrow> ps' = []"
    "length ps \<le> 2 + length ps'"
    by (elim exE conjE) simp
  have "walk (proot T) va True s = Ok (case r of None \<Rightarrow> 0 | Some q \<Rightarrow> pte_addr q (of_nat (px 0 va)), s')"
    using assms(2) by (simp add: walk_def not_le w pte_addr_px split: option.split)
  with r show ?thesis by (intro exI conjI)
qed

section \<open>Page numbers\<close>

definition vpn :: "uint64 \<Rightarrow> nat" where
  "vpn va = unat va div 4096"

lemma px_vpn: "px l va = vpn va div 512 ^ l mod 512"
proof -
  have "PX l va = take_bit 9 (drop_bit (12 + 9 * l) va)"
    by (simp add: PX_def take_bit_eq_mask mask_eq_exp_minus_1)
  then have "px l va = unat va div 2 ^ (12 + 9 * l) mod 512"
    by (simp only: px_def unsigned_take_bit_eq unat_drop_bit_eq) (simp add: take_bit_eq_mod drop_bit_eq_div)
  also have "\<dots> = unat va div 4096 div 512 ^ l mod 512"
    by (simp add: power_add power_mult div_mult2_eq)
  finally show ?thesis by (simp add: vpn_def)
qed

lemma vpn_less: "va < MAXVA \<Longrightarrow> vpn va < 67108864"
  by (simp add: vpn_def word_less_nat_alt MAXVA_def div_less_iff_less_mult)

definition same_page :: "uint64 \<Rightarrow> uint64 \<Rightarrow> bool" where
  "same_page va va' \<longleftrightarrow> px 2 va = px 2 va' \<and> px 1 va = px 1 va' \<and> px 0 va = px 0 va'"

lemma digits_512:
  assumes "(x :: nat) < 67108864"
  shows "x = (x div 262144 mod 512) * 262144 + (x div 512 mod 512) * 512 + x mod 512"
proof -
  have "x div 262144 < 512" using assms by (simp add: div_less_iff_less_mult)
  moreover have "x div 262144 = x div 512 div 512" using div_mult2_eq [of x 512 512] by simp
  ultimately have "x div 262144 mod 512 = x div 512 div 512" by simp
  then show ?thesis
    using mult_div_mod_eq [of 512 x] mult_div_mod_eq [of 512 "x div 512"] by linarith
qed

lemma same_page_vpn:
  assumes "va < MAXVA" "va' < MAXVA"
  shows "same_page va va' \<longleftrightarrow> vpn va = vpn va'"
  using digits_512 [OF vpn_less [OF assms(1)]] digits_512 [OF vpn_less [OF assms(2)]]
  by (auto simp: same_page_def px_vpn power2_eq_square)

section \<open>Leaf entries\<close>

definition set_leaf :: "addr \<Rightarrow> uint64 \<Rightarrow> uint64 \<Rightarrow> 'z kmem_scheme \<Rightarrow> 'z kmem_scheme" where
  "set_leaf q va v s = s\<lparr>mem := store64 (mem s) (pte_addr q (of_nat (px 0 va))) v\<rparr>"

lemma set_leaf_inv:
  assumes "pt_inv s T ps" "plow T (px 2 va, px 1 va) = Some q"
  shows "pt_inv (set_leaf q va v s) T ps"
    "lookup (mem (set_leaf q va v s)) T va' = (if same_page va va' then v else lookup (mem s) T va')"
    "vm_frame s (set_leaf q va v s)"
    "same_outside_pages (pt_pages T) (mem s) (mem (set_leaf q va v s))"
proof -
  let ?m = "store64 (mem s) (pte_addr q (of_nat (px 0 va))) v"
  have shape: "pt_shape T" and rep: "pt_rep (mem s) T" and km: "kmem_inv s ps"
    and sep: "pt_pages T \<inter> set ps = {}"
    using assms(1) by (auto simp: pt_inv_def)
  note q = pt_pagesI(3) [OF assms(2)]
  note al = pt_pages_nonzero [OF assms(1)]
  have other: "entry ?m p j = entry (mem s) p j" if "p \<in> pt_pages T" "j < 512" "(p, j) \<noteq> (q, px 0 va)" for p j
    using that al [OF q] al [OF that(1)] px_less [of 0 va] by (intro entry_store_other) auto
  show out: "same_outside_pages (pt_pages T) (mem s) (mem (set_leaf q va v s))"
    unfolding set_leaf_def using same_outside_pages_store64 [of "pt_pages T" "mem s" "mem s" q "px 0 va"] q
    by (simp add: px_less)
  have km': "kmem_inv (set_leaf q va v s) ps"
    using kmem_inv_mem [OF km out] al sep by (simp add: set_leaf_def)
  have "table_ok ?m (proot T) (pmid T)"
    using rep other [OF pt_pagesI(1)] low_page_distinct [OF shape assms(2)]
    by (intro table_ok_cong [of ?m "proot T" "mem s"]) (auto simp: pt_rep_def)
  moreover have "table_ok ?m p (\<lambda>j. plow T (i, j))" if "pmid T i = Some p" for i p
    using rep other [OF pt_pagesI(2) [OF that]] low_page_distinct(2) [OF shape assms(2) that] that
    by (intro table_ok_cong [of ?m p "mem s"]) (auto simp: pt_rep_def)
  ultimately show "pt_inv (set_leaf q va v s) T ps"
    using assms(1) km' by (simp add: pt_inv_def pt_rep_def set_leaf_def)
  show "vm_frame s (set_leaf q va v s)" by (simp add: set_leaf_def)
  show "lookup (mem (set_leaf q va v s)) T va' = (if same_page va va' then v else lookup (mem s) T va')"
  proof (cases "plow T (px 2 va', px 1 va')")
    case None
    then show ?thesis using assms(2) by (auto simp: lookup_def same_page_def)
  next
    case (Some p)
    have inj: "p = q \<Longrightarrow> (px 2 va', px 1 va') = (px 2 va, px 1 va)"
      using shape Some assms(2) unfolding pt_shape_def by blast
    show ?thesis
    proof (cases "(p, px 0 va') = (q, px 0 va)")
      case True
      then show ?thesis using inj Some by (auto simp: lookup_def set_leaf_def same_page_def)
    next
      case False
      then have "\<not> same_page va va'" using Some assms(2) by (auto simp: same_page_def)
      then show ?thesis
        using other [OF pt_pagesI(3) [OF Some] px_less False] Some by (simp add: lookup_def set_leaf_def)
    qed
  qed
qed

section \<open>Mapping\<close>

text \<open>A step after which the entries are those of \<open>f\<close>.\<close>

definition pt_change ::
  "'z kmem_scheme \<Rightarrow> ptree \<Rightarrow> addr list \<Rightarrow> (uint64 \<Rightarrow> uint64) \<Rightarrow> 'z kmem_scheme \<Rightarrow> ptree \<Rightarrow> addr list \<Rightarrow> bool" where
  "pt_change s T ps f s' T' ps' \<longleftrightarrow> pt_inv s' T' ps' \<and> proot T' = proot T \<and> vm_frame s s'
     \<and> (\<forall>va. va < MAXVA \<longrightarrow> lookup (mem s') T' va = f va)
     \<and> pt_pages T \<subseteq> pt_pages T' \<and> pt_pages T' \<union> set ps' = pt_pages T \<union> set ps
     \<and> same_outside_pages (pt_pages T') (mem s) (mem s')"

lemma pt_change_grow: "pt_grow s T ps s' T' ps' \<Longrightarrow> pt_change s T ps (lookup (mem s) T) s' T' ps'"
  by (simp add: pt_grow_def pt_change_def)

lemma pt_change_trans:
  "pt_change s T ps f s' T' ps' \<Longrightarrow> pt_change s' T' ps' g s'' T'' ps'' \<Longrightarrow> pt_change s T ps g s'' T'' ps''"
  unfolding pt_change_def
  using same_outside_pages_trans [of "pt_pages T'" "mem s" "mem s'" "pt_pages T''" "mem s''"]
  by (auto intro: vm_frame_trans simp: Un_absorb1)

lemma pt_change_cong:
  "pt_change s T ps f s' T' ps' \<Longrightarrow> (\<And>va. va < MAXVA \<Longrightarrow> f va = g va) \<Longrightarrow> pt_change s T ps g s' T' ps'"
  by (simp add: pt_change_def)

lemma pt_change_leaf:
  assumes "pt_inv s T ps" "plow T (px 2 va, px 1 va) = Some q"
  shows "pt_change s T ps (\<lambda>va'. if same_page va va' then v else lookup (mem s) T va')
    (set_leaf q va v s) T ps"
  using set_leaf_inv [OF assms] by (simp add: pt_change_def)

text \<open>\<open>k\<close> pages from \<open>a\<close> on mapped to the pages from \<open>pa\<close> on, over the entries \<open>g\<close>.\<close>

definition map_range :: "uint64 \<Rightarrow> nat \<Rightarrow> uint64 \<Rightarrow> uint64 \<Rightarrow> (uint64 \<Rightarrow> uint64) \<Rightarrow> uint64 \<Rightarrow> uint64" where
  "map_range a k pa perm g va =
     (if vpn a \<le> vpn va \<and> vpn va < vpn a + k
      then PA2PTE (pa + of_nat (4096 * (vpn va - vpn a))) OR perm OR PTE_V else g va)"

lemma vpn_step: "a < MAXVA \<Longrightarrow> vpn (a + 4096) = Suc (vpn a)"
  by (simp add: vpn_def va_step)

lemma map_range_Suc:
  assumes "a < MAXVA" "va < MAXVA"
    "\<And>va. va < MAXVA \<Longrightarrow> g' va = (if same_page a va then PA2PTE pa OR perm OR PTE_V else g va)"
  shows "map_range (a + 4096) k (pa + 4096) perm g' va = map_range a (Suc k) pa perm g va"
proof -
  have "vpn a < vpn va \<Longrightarrow> pa + 4096 + of_nat (4096 * (vpn va - Suc (vpn a))) = pa + of_nat (4096 * (vpn va - vpn a))"
    by (simp add: of_nat_diff algebra_simps)
  then show ?thesis
    using assms(3) [OF assms(2)] same_page_vpn [OF assms(1,2)]
    by (auto simp: map_range_def vpn_step [OF assms(1)] not_less_eq_eq)
qed

lemma aligned_step: "page_aligned a \<Longrightarrow> a < MAXVA \<Longrightarrow> page_aligned (a + 4096)"
  by (simp add: aligned_unat va_step)

text \<open>One pass of \<open>mappages\<close>: either no page is left for a table, or the entry is there to be set.\<close>

lemma mappages_pass:
  assumes "pt_inv s T ps" "a < MAXVA" "lookup (mem s) T a AND PTE_V = 0"
  shows "(\<exists>s' T'. walk (proot T) a True s = Ok (0, s') \<and> pt_change s T ps (lookup (mem s) T) s' T' []
         \<and> length ps \<le> 2)
    \<or> (\<exists>pte s1 T' ps'. walk (proot T) a True s = Ok (pte, s1) \<and> pte \<noteq> 0
         \<and> load64 (mem s1) pte AND PTE_V = 0
         \<and> pt_change s T ps (\<lambda>va. if same_page a va then v else lookup (mem s) T va)
              (s1\<lparr>mem := store64 (mem s1) pte v\<rparr>) T' ps' \<and> length ps \<le> 2 + length ps')"
proof -
  obtain r s1 T' ps' where w: "walk (proot T) a True s =
      Ok (case r of None \<Rightarrow> 0 | Some q \<Rightarrow> pte_addr q (of_nat (px 0 a)), s1)"
    and g: "pt_grow s T ps s1 T' ps'" and r: "plow T' (px 2 a, px 1 a) = r" "r = None \<longrightarrow> ps' = []"
      "length ps \<le> 2 + length ps'"
    using walk_alloc [OF assms(1,2)] by (elim exE conjE) simp
  show ?thesis
  proof (cases r)
    case None
    then show ?thesis using w pt_change_grow [OF g] r by auto
  next
    case (Some q)
    have inv: "pt_inv s1 T' ps'" and same: "\<And>va. lookup (mem s1) T' va = lookup (mem s) T va"
      using g by (auto simp: pt_grow_def)
    let ?pte = "pte_addr q (of_nat (px 0 a))"
    have "page_ok (kernel_end s1) q" "0 < kernel_end s1"
      using inv pt_pagesI(3) [of T'] r Some by (auto simp: pt_inv_def kmem_inv_def)
    then have "?pte \<noteq> 0" by (rule pte_addr_nonzero) (rule px_less)
    moreover have "load64 (mem s1) ?pte AND PTE_V = 0"
      using same [of a] r Some assms(3) by (simp add: lookup_def entry_def)
    moreover have "pt_change s T ps (\<lambda>va. if same_page a va then v else lookup (mem s) T va)
        (s1\<lparr>mem := store64 (mem s1) ?pte v\<rparr>) T' ps'"
      using pt_change_trans [OF pt_change_grow [OF g]
          pt_change_leaf [OF inv, where va = a and q = q and v = v]] r Some
      by (simp add: same set_leaf_def cong: if_cong)
    ultimately show ?thesis using w Some r(3) by (intro disjI2 exI conjI) simp_all
  qed
qed

lemma map_range_0 [simp]: "map_range a 0 pa perm g = g"
  by (auto simp: map_range_def fun_eq_iff)

lemma map_range_1:
  "a < MAXVA \<Longrightarrow> va < MAXVA \<Longrightarrow>
   map_range a (Suc 0) pa perm g va = (if same_page a va then PA2PTE pa OR perm OR PTE_V else g va)"
  by (auto simp: map_range_def same_page_vpn)

lemma mappages_loop_full:
  "walk pt a True s = Ok (0, s') \<Longrightarrow> mappages_loop pt a lst pa perm s = Ok (-1, s')"
  by (subst mappages_loop.simps) simp

lemma mappages_loop_set:
  "walk pt a True s = Ok (pte, s1) \<Longrightarrow> pte \<noteq> 0 \<Longrightarrow> load64 (mem s1) pte AND PTE_V = 0 \<Longrightarrow>
   mappages_loop pt a lst pa perm s =
     (let s = s1\<lparr>mem := store64 (mem s1) pte (PA2PTE pa OR perm OR PTE_V)\<rparr>
      in if a = lst then Ok (0, s) else mappages_loop pt (a + 4096) lst (pa + 4096) perm s)"
  by (subst mappages_loop.simps) simp

lemma mappages_loop_spec:
  fixes s :: "'z kmem_scheme"
  assumes "pt_inv s T ps" "unat a + 4096 * Suc n \<le> unat MAXVA" "lst = a + of_nat (4096 * n)"
    "\<And>va. va < MAXVA \<Longrightarrow> vpn a \<le> vpn va \<Longrightarrow> vpn va \<le> vpn a + n \<Longrightarrow> lookup (mem s) T va AND PTE_V = 0"
  shows "\<exists>r s' T' ps' k. mappages_loop (proot T) a lst pa perm s = Ok (r, s')
    \<and> pt_change s T ps (map_range a k pa perm (lookup (mem s) T)) s' T' ps'
    \<and> (r = 0 \<and> k = Suc n \<or> r = -1 \<and> k \<le> n \<and> ps' = [] \<and> length ps \<le> 2 * Suc n)"
  using assms
proof (induction n arbitrary: a pa s T ps)
  case (0 a pa s T ps)
  have a: "a < MAXVA" using "0.prems"(2) by (simp add: word_less_nat_alt)
  have l: "lookup (mem s) T a AND PTE_V = 0" using "0.prems"(4) [OF a] by simp
  have "lst = a" using "0.prems"(3) by simp
  from mappages_pass [OF "0.prems"(1) a l, of "PA2PTE pa OR perm OR PTE_V"] show ?case
  proof (elim disjE exE conjE)
    fix T' and s' :: "'z kmem_scheme"
    assume "walk (proot T) a True s = Ok (0, s')" "pt_change s T ps (lookup (mem s) T) s' T' []"
      "length ps \<le> 2"
    then show ?thesis
      by (intro exI [of _ "-1"] exI [of _ s'] exI [of _ T'] exI [of _ "[]"] exI [of _ 0])
        (simp add: mappages_loop_full)
  next
    fix pte T' ps' and s1 :: "'z kmem_scheme"
    let ?v = "PA2PTE pa OR perm OR PTE_V"
    let ?s = "s1\<lparr>mem := store64 (mem s1) pte ?v\<rparr>"
    assume "walk (proot T) a True s = Ok (pte, s1)" "pte \<noteq> 0" "load64 (mem s1) pte AND PTE_V = 0"
      and c: "pt_change s T ps (\<lambda>va. if same_page a va then ?v else lookup (mem s) T va) ?s T' ps'"
    then have "mappages_loop (proot T) a lst pa perm s = Ok (0, ?s)"
      using \<open>lst = a\<close> by (simp add: mappages_loop_set)
    moreover have "pt_change s T ps (map_range a (Suc 0) pa perm (lookup (mem s) T)) ?s T' ps'"
      using c by (rule pt_change_cong) (simp add: map_range_1 [OF a])
    ultimately show ?thesis
      by (intro exI [of _ 0] exI [of _ ?s] exI [of _ T'] exI [of _ ps'] exI [of _ "Suc 0"]) simp
  qed
next
  case (Suc n a pa s T ps)
  have a: "a < MAXVA" using Suc.prems(2) by (simp add: word_less_nat_alt)
  have l: "lookup (mem s) T a AND PTE_V = 0" using Suc.prems(4) [OF a] by simp
  have up: "unat (a + 4096) + 4096 * Suc n \<le> unat MAXVA" "lst = a + 4096 + of_nat (4096 * n)"
    using Suc.prems(2,3) va_step [OF a] by (simp_all add: algebra_simps)
  have "unat (of_nat (4096 * Suc n) :: uint64) = 4096 * Suc n"
    using Suc.prems(2) by (simp only: unat_of_nat) (simp add: MAXVA_def)
  then have ne: "a \<noteq> lst" unfolding Suc.prems(3) by auto
  let ?v = "PA2PTE pa OR perm OR PTE_V"
  from mappages_pass [OF Suc.prems(1) a l, of ?v] show ?case
  proof (elim disjE exE conjE)
    fix T' and s' :: "'z kmem_scheme"
    assume "walk (proot T) a True s = Ok (0, s')" "pt_change s T ps (lookup (mem s) T) s' T' []"
      "length ps \<le> 2"
    then show ?thesis
      by (intro exI [of _ "-1"] exI [of _ s'] exI [of _ T'] exI [of _ "[]"] exI [of _ 0])
        (simp add: mappages_loop_full)
  next
    fix pte T1 ps1 and s1 :: "'z kmem_scheme"
    let ?s = "s1\<lparr>mem := store64 (mem s1) pte ?v\<rparr>"
    assume w: "walk (proot T) a True s = Ok (pte, s1)" "pte \<noteq> 0" "load64 (mem s1) pte AND PTE_V = 0"
      and c: "pt_change s T ps (\<lambda>va. if same_page a va then ?v else lookup (mem s) T va) ?s T1 ps1"
      and l1: "length ps \<le> 2 + length ps1"
    have inv: "pt_inv ?s T1 ps1" and root: "proot T1 = proot T"
      and g: "\<And>va. va < MAXVA \<Longrightarrow> lookup (mem ?s) T1 va = (if same_page a va then ?v else lookup (mem s) T va)"
      using c unfolding pt_change_def by auto
    have "lookup (mem ?s) T1 va AND PTE_V = 0"
      if "va < MAXVA" "vpn (a + 4096) \<le> vpn va" "vpn va \<le> vpn (a + 4096) + n" for va
      using that g [of va] Suc.prems(4) [of va] by (simp add: same_page_vpn a vpn_step)
    from Suc.IH [OF inv up this] obtain r s' T' ps' k where
      "mappages_loop (proot T) (a + 4096) lst (pa + 4096) perm ?s = Ok (r, s')"
      and ch: "pt_change ?s T1 ps1 (map_range (a + 4096) k (pa + 4096) perm (lookup (mem ?s) T1)) s' T' ps'"
      and r: "r = 0 \<and> k = Suc n \<or> r = -1 \<and> k \<le> n \<and> ps' = [] \<and> length ps1 \<le> 2 * Suc n"
      unfolding root by blast
    moreover have "pt_change s T ps (map_range a (Suc k) pa perm (lookup (mem s) T)) s' T' ps'"
      using pt_change_cong [OF pt_change_trans [OF c ch] map_range_Suc [OF a _ g]] .
    ultimately show ?thesis using ne l1
      by (intro exI [of _ r] exI [of _ s'] exI [of _ T'] exI [of _ ps'] exI [of _ "Suc k"])
        (auto simp: mappages_loop_set [OF w])
  qed
qed

end
