(* ===== verification/Usermem.thy ===== *)
theory Usermem
  imports Pagetable
begin

text \<open>
  User memory through a page table: what \<open>copyin\<close> and \<open>copyout\<close> of \<open>kernel/vm.c\<close> read and write, in
  terms of the bytes a user program sees.
\<close>

section \<open>User memory\<close>

text \<open>
  The byte a user program sees at \<open>va\<close>, where the entry of its page is valid and open to the user.
\<close>

definition user_pte :: "uint64 \<Rightarrow> bool" where
  "user_pte pte \<longleftrightarrow> pte AND PTE_V \<noteq> 0 \<and> pte AND PTE_U \<noteq> 0"

definition readable :: "memory \<Rightarrow> ptree \<Rightarrow> uint64 \<Rightarrow> bool" where
  "readable m T va \<longleftrightarrow> va < MAXVA \<and> user_pte (lookup m T va) \<and> PTE2PA (lookup m T va) \<noteq> 0"

definition paddr :: "memory \<Rightarrow> ptree \<Rightarrow> uint64 \<Rightarrow> addr" where
  "paddr m T va = PTE2PA (lookup m T va) + (va - PGROUNDDOWN va)"

definition ubyte :: "memory \<Rightarrow> ptree \<Rightarrow> uint64 \<Rightarrow> uint8" where
  "ubyte m T va = m (paddr m T va)"

lemma walkaddr_lookup:
  assumes "pt_inv s T ps"
  shows "walkaddr (proot T) va s = Ok (if va < MAXVA \<and> user_pte (lookup (mem s) T va)
    then PTE2PA (lookup (mem s) T va) else 0, s)"
proof (cases "va < MAXVA")
  case True
  then obtain pte where "walk (proot T) va False s = Ok (pte, s)"
    using walk_lookup [OF assms] by blast
  then show ?thesis
    using True walk_pte [OF assms True] by (auto simp: walkaddr_def not_le user_pte_def)
qed (auto simp: walkaddr_def not_less)

text \<open>Addresses in one page.\<close>

lemma unat_in_page:
  fixes va :: uint64
  assumes "i < 4096 - unat va mod 4096"
  shows "unat (va + of_nat i) = unat va + i"
proof -
  have "unat va < 2 ^ 64" using unsigned_less [of va] by simp
  also have "(2 :: nat) ^ 64 = 2 ^ 52 * 4096" by simp
  finally have "unat va div 4096 < 2 ^ 52" by (rule less_mult_imp_div_less)
  moreover have "unat va = 4096 * (unat va div 4096) + unat va mod 4096" by simp
  ultimately have "unat va + i < 4096 * (2 ^ 52)" using assms by linarith
  then show ?thesis by (simp add: unat_word_ariths unat_of_nat)
qed

lemma in_page:
  assumes "i < 4096 - unat va mod 4096"
  shows "vpn (va + of_nat i) = vpn va" "PGROUNDDOWN (va + of_nat i) = PGROUNDDOWN va"
    "(va + of_nat i) - PGROUNDDOWN (va + of_nat i) = va - PGROUNDDOWN va + of_nat i"
proof -
  have "unat va = 4096 * (unat va div 4096) + unat va mod 4096" by simp
  then have "(unat va + i) div 4096 = unat va div 4096"
    using assms by (intro div_nat_eqI, linarith, unfold mult_Suc_right, linarith)
  then show v: "vpn (va + of_nat i) = vpn va" using unat_in_page [OF assms] by (simp add: vpn_def)
  show d: "PGROUNDDOWN (va + of_nat i) = PGROUNDDOWN va"
    using v by (simp add: word_unat_eq_iff PGROUNDDOWN_unat vpn_def)
  show "(va + of_nat i) - PGROUNDDOWN (va + of_nat i) = va - PGROUNDDOWN va + of_nat i"
    by (simp add: d)
qed

lemma lookup_vpn: "vpn va' = vpn va \<Longrightarrow> lookup m T va' = lookup m T va"
  unfolding lookup_def px_vpn by (simp only:)

lemma below_MAXVA_vpn: "va < MAXVA \<longleftrightarrow> vpn va < 67108864"
  by (simp add: vpn_def word_less_nat_alt MAXVA_def div_less_iff_less_mult)

lemma readable_vpn: "vpn va' = vpn va \<Longrightarrow> readable m T va' = readable m T va"
  using lookup_vpn [of va' va m T] by (simp add: readable_def below_MAXVA_vpn)

lemma vpn_PGROUNDDOWN: "vpn (PGROUNDDOWN va) = vpn va"
  by (simp add: vpn_def PGROUNDDOWN_unat)

lemma paddr_in_page:
  "i < 4096 - unat va mod 4096 \<Longrightarrow> paddr m T (va + of_nat i) = paddr m T va + of_nat i"
  by (simp add: paddr_def in_page(3) lookup_vpn [OF in_page(1)])

text \<open>The last page of a copy, or the start of the next one.\<close>

lemma next_page:
  assumes "page_rest va len < len"
  shows "PGROUNDDOWN va + 4096 = va + page_rest va len"
    "unat (page_rest va len) = 4096 - unat va mod 4096"
proof -
  have n: "unat (page_rest va len) < unat len" using assms by (simp add: word_less_nat_alt)
  then show r: "unat (page_rest va len) = 4096 - unat va mod 4096" by (simp add: page_rest_unat min_def split: if_splits)
  have "unat (va - PGROUNDDOWN va) + unat (page_rest va len) = 4096"
    using r by (simp add: page_offset)
  then have "of_nat (unat (va - PGROUNDDOWN va)) + of_nat (unat (page_rest va len)) = (4096 :: uint64)"
    by (metis of_nat_add of_nat_numeral)
  then have "va - PGROUNDDOWN va + page_rest va len = 4096" by simp
  then show "PGROUNDDOWN va + 4096 = va + page_rest va len" by (simp add: algebra_simps)
qed

lemma walkaddr_page:
  assumes "pt_inv s T ps"
  shows "walkaddr (proot T) (PGROUNDDOWN va) s = Ok (if va < MAXVA \<and> user_pte (lookup (mem s) T va)
    then PTE2PA (lookup (mem s) T va) else 0, s)"
  using walkaddr_lookup [OF assms, of "PGROUNDDOWN va"]
  by (simp add: below_MAXVA_vpn vpn_PGROUNDDOWN lookup_vpn [OF vpn_PGROUNDDOWN])

text \<open>The bytes a user program sees from \<open>va\<close> on.\<close>

definition uview :: "memory \<Rightarrow> ptree \<Rightarrow> uint64 \<Rightarrow> nat \<Rightarrow> uint8 list" where
  "uview m T va k = map (\<lambda>i. ubyte m T (va + of_nat i)) [0..<k]"

lemma map_upt_add: "map f [0..<a + k] = map f [0..<a] @ map (\<lambda>i. f (a + i)) [0..<k]"
  by (induction k) simp_all

lemma uview_add: "uview m T va (unat n + k) = uview m T va (unat n) @ uview m T (va + n) k"
  by (simp add: uview_def map_upt_add add.assoc)

lemma uview_page:
  assumes "unat n \<le> 4096 - unat va mod 4096"
  shows "load_bytes m (paddr m T va) (unat n) = uview m T va (unat n)"
  using assms by (simp add: load_bytes_eq_map uview_def ubyte_def paddr_in_page)

lemma copyin_unreadable:
  assumes "pt_inv s T ps" "len > 0" "\<not> readable (mem s) T va"
  shows "copyin (proot T) va len s = Ok (-1, [])"
  using assms(2,3) by (subst copyin.simps) (auto simp: readable_def Let_def walkaddr_page [OF assms(1)])

lemma copyin_page:
  assumes "pt_inv s T ps" "len > 0" "readable (mem s) T va"
  shows "copyin (proot T) va len s =
    bnd (copyin (proot T) (PGROUNDDOWN va + 4096) (len - page_rest va len) s)
      (\<lambda>(r, cs). Ok (r, uview (mem s) T va (unat (page_rest va len)) @ cs))"
proof -
  have "load_bytes (mem s) (paddr (mem s) T va) (unat (page_rest va len))
      = uview (mem s) T va (unat (page_rest va len))"
    by (rule uview_page) (simp add: page_rest_unat)
  then show ?thesis
    using assms(2,3) walkaddr_page [OF assms(1), of va]
    by (subst copyin.simps) (simp add: readable_def Let_def paddr_def)
qed

lemma holds_shift:
  assumes "\<forall>i<unat n. P (va + of_nat i)" "\<forall>i<k. P (va + n + of_nat i)"
  shows "\<forall>i<unat n + k. P (va + of_nat i)"
proof (intro allI impI)
  fix i assume i: "i < unat n + k"
  show "P (va + of_nat i)"
  proof (cases "i < unat n")
    case False
    then have "va + of_nat i = va + n + of_nat (i - unat n)" by (simp add: of_nat_diff)
    moreover have "i - unat n < k" using i False by simp
    ultimately show ?thesis using assms(2) by metis
  qed (simp add: assms(1))
qed

text \<open>\<open>k\<close> is the number of bytes before the first one that is not readable.\<close>

lemma copyin_spec:
  assumes "pt_inv s T ps"
  shows "\<exists>k\<le>unat len. copyin (proot T) va len s =
      Ok (if k = unat len then 0 else -1, uview (mem s) T va k)
    \<and> (\<forall>i<k. readable (mem s) T (va + of_nat i))
    \<and> (k < unat len \<longrightarrow> \<not> readable (mem s) T (va + of_nat k))"
proof (induction "unat len" arbitrary: va len rule: less_induct)
  case less
  let ?m = "mem s" and ?n = "page_rest va len"
  consider "len = 0" | "len > 0" "\<not> readable ?m T va" | "len > 0" "readable ?m T va"
    by (cases "len = 0") (auto simp: word_neq_0_conv)
  then show ?case
  proof cases
    case 1
    then show ?thesis by (subst copyin.simps) (simp add: uview_def)
  next
    case 2
    then show ?thesis using copyin_unreadable [OF assms]
      by (intro exI [of _ 0]) (simp add: word_less_nat_alt uview_def)
  next
    case 3
    have page: "\<forall>i<unat ?n. readable ?m T (va + of_nat i)"
      using 3(2) readable_vpn [OF in_page(1)] by (simp add: page_rest_unat)
    have le: "?n \<le> len" by (simp add: word_le_nat_alt page_rest_unat)
    then have len: "unat len = unat ?n + unat (len - ?n)" by (simp add: unat_sub word_le_nat_alt)
    show ?thesis
    proof (cases "?n = len")
      case True
      have "copyin (proot T) (PGROUNDDOWN va + 4096) 0 s = Ok (0, [])" by (subst copyin.simps) simp
      then show ?thesis using copyin_page [OF assms 3] True page
        by (intro exI [of _ "unat len"]) simp
    next
      case False
      then have nx: "PGROUNDDOWN va + 4096 = va + ?n" using le next_page by simp
      obtain k where k: "k \<le> unat (len - ?n)" "\<forall>i<k. readable ?m T (va + ?n + of_nat i)"
        "copyin (proot T) (va + ?n) (len - ?n) s =
          Ok (if k = unat (len - ?n) then 0 else -1, uview ?m T (va + ?n) k)"
        "k < unat (len - ?n) \<longrightarrow> \<not> readable ?m T (va + ?n + of_nat k)"
        using less [OF page_rest_measure [OF 3(1)], of va "va + ?n"] by blast
      have "copyin (proot T) va len s = Ok (if unat ?n + k = unat len then 0 else -1, uview ?m T va (unat ?n + k))"
        using copyin_page [OF assms 3] k(3) len unfolding nx uview_add by simp
      then show ?thesis
        using holds_shift [OF page k(2)] k(1,4) len by (intro exI [of _ "unat ?n + k"]) (simp add: add.assoc)
    qed
  qed
qed

text \<open>
  User pages are not page 0, not table pages and not free, and two user addresses in different pages are in
  different physical pages.
\<close>

definition user_sep :: "memory \<Rightarrow> ptree \<Rightarrow> addr list \<Rightarrow> bool" where
  "user_sep m T ps \<longleftrightarrow> (\<forall>va. va < MAXVA \<longrightarrow> user_pte (lookup m T va) \<longrightarrow>
     PTE2PA (lookup m T va) \<noteq> 0 \<and> PTE2PA (lookup m T va) \<notin> pt_pages T \<union> set ps)"

definition user_inj :: "memory \<Rightarrow> ptree \<Rightarrow> bool" where
  "user_inj m T \<longleftrightarrow> (\<forall>va va'. va < MAXVA \<longrightarrow> va' < MAXVA \<longrightarrow> user_pte (lookup m T va) \<longrightarrow>
     user_pte (lookup m T va') \<longrightarrow> PTE2PA (lookup m T va) = PTE2PA (lookup m T va') \<longrightarrow> vpn va = vpn va')"

definition writable :: "memory \<Rightarrow> ptree \<Rightarrow> uint64 \<Rightarrow> bool" where
  "writable m T va \<longleftrightarrow> va < MAXVA \<and> user_pte (lookup m T va) \<and> lookup m T va AND PTE_W \<noteq> 0"

lemma aligned_PTE2PA: "page_aligned (PTE2PA x)"
proof -
  have "take_bit 12 (PTE2PA x) = 0"
    by (rule bit_eqI) (auto simp: PTE2PA_def bit_simps)
  then show ?thesis by (simp add: page_aligned_def take_bit_eq_mod)
qed

lemma pt_inv_user_page:
  assumes "pt_inv s T ps" "same_outside_pages {p} (mem s) m'" "page_aligned p" "p \<notin> pt_pages T \<union> set ps"
  shows "pt_inv (s\<lparr>mem := m'\<rparr>) T ps" "lookup m' T va = lookup (mem s) T va"
proof -
  have same: "entry m' q i = entry (mem s) q i" if "q \<in> pt_pages T" "i < 512" for q i
    using that assms pt_pages_nonzero [OF assms(1)] by (intro entry_other_page [OF assms(2)]) auto
  show "lookup m' T va = lookup (mem s) T va"
    using same [OF pt_pagesI(3) px_less] by (auto simp: lookup_def split: option.split)
  have rep: "pt_rep (mem s) T" using assms(1) by (simp add: pt_inv_def)
  have "table_ok m' (proot T) (pmid T)"
    using rep same [OF pt_pagesI(1)] by (intro table_ok_cong [of m' _ "mem s"]) (auto simp: pt_rep_def)
  moreover have "table_ok m' q (\<lambda>j. plow T (i, j))" if "pmid T i = Some q" for i q
    using rep that same [OF pt_pagesI(2) [OF that]]
    by (intro table_ok_cong [of m' _ "mem s"]) (auto simp: pt_rep_def)
  moreover have "kmem_inv (s\<lparr>mem := m'\<rparr>) ps"
    using assms by (intro kmem_inv_mem [where P = "{p}"]) (auto simp: pt_inv_def)
  ultimately show "pt_inv (s\<lparr>mem := m'\<rparr>) T ps"
    using assms(1) by (simp add: pt_inv_def pt_rep_def)
qed

text \<open>Storing inside the page of a user address.\<close>

lemma page_store_outside:
  assumes "n + unat va mod 4096 \<le> 4096" "length bs \<le> n"
  shows "same_outside_pages {PTE2PA (lookup m T va)} m (store_bytes m (paddr m T va) bs)"
  unfolding same_outside_pages_def
proof (intro allI impI)
  fix x assume x: "\<forall>p\<in>{PTE2PA (lookup m T va)}. \<not> within p PGSIZE x"
  have "paddr m T va = PTE2PA (lookup m T va) + of_nat (unat va mod 4096)"
    by (simp add: paddr_def flip: page_offset)
  then have "\<not> within (paddr m T va) (length bs) x"
    using x within_sub_range [of "PTE2PA (lookup m T va)" "unat va mod 4096" "length bs" x PGSIZE] assms by auto
  then show "store_bytes m (paddr m T va) bs x = m x"
    using assms by (subst store_bytes_apply) auto
qed

lemma offset_split: "va = PGROUNDDOWN va + of_nat (unat va mod 4096)"
  by (simp flip: page_offset)

lemma paddr_offset: "paddr m T va = PTE2PA (lookup m T va) + of_nat (unat va mod 4096)"
  by (simp add: paddr_def flip: page_offset)

lemma ubyte_store:
  assumes inj: "user_inj m T" and va: "va < MAXVA" "user_pte (lookup m T va)"
    and va': "va' < MAXVA" "user_pte (lookup m T va')"
    and n: "length bs + unat va mod 4096 \<le> 4096"
  shows "store_bytes m (paddr m T va) bs (paddr m T va') =
    (if unat (va' - va) < length bs then bs ! unat (va' - va) else ubyte m T va')"
proof (cases "vpn va = vpn va'")
  case True
  then have l: "lookup m T va' = lookup m T va" using lookup_vpn [of va' va] by simp
  have "PGROUNDDOWN va' = PGROUNDDOWN va"
    using True by (simp add: word_unat_eq_iff PGROUNDDOWN_unat vpn_def)
  then have "paddr m T va' - paddr m T va = va' - va" by (simp add: paddr_def l)
  then show ?thesis using n by (simp add: store_bytes_apply within_def ubyte_def)
next
  case False
  then have "PTE2PA (lookup m T va) \<noteq> PTE2PA (lookup m T va')"
    using inj va va' unfolding user_inj_def by blast
  then have "disjoint_ranges (PTE2PA (lookup m T va)) PGSIZE (PTE2PA (lookup m T va')) PGSIZE"
    by (intro pages_disjoint aligned_PTE2PA)
  moreover have "within (PTE2PA (lookup m T va')) PGSIZE (paddr m T va')"
    by (simp add: within_def paddr_def page_offset)
  ultimately have "\<not> within (PTE2PA (lookup m T va)) PGSIZE (paddr m T va')"
    by (auto simp: disjoint_ranges_def)
  then have "store_bytes m (paddr m T va) bs (paddr m T va') = m (paddr m T va')"
    using page_store_outside [of "length bs" va bs m T] n by (simp add: same_outside_pages_def)
  moreover have "\<not> unat (va' - va) < length bs"
  proof
    assume "unat (va' - va) < length bs"
    then have "unat (va' - va) < 4096 - unat va mod 4096" using n by linarith
    then show False using in_page(1) [of "unat (va' - va)" va] False by simp
  qed
  ultimately show ?thesis by (simp add: ubyte_def)
qed

lemma window_split:
  fixes x n :: uint64
  assumes "unat n + k < 2 ^ 64"
  shows "unat x < unat n \<Longrightarrow> \<not> unat (x - n) < k"
    "\<not> unat x < unat n \<Longrightarrow> unat (x - n) = unat x - unat n"
proof -
  assume x: "unat x < unat n"
  show "\<not> unat (x - n) < k"
  proof
    assume k: "unat (x - n) < k"
    then have "unat (n + (x - n)) = unat n + unat (x - n)" using assms by (subst unat_word_ariths(1)) simp
    then show False using x by simp
  qed
next
  assume "\<not> unat x < unat n"
  then show "unat (x - n) = unat x - unat n" by (simp add: unat_sub word_le_nat_alt)
qed

lemma copyout_unwritable:
  assumes "pt_inv s T ps" "len > 0" "\<not> writable (mem s) T va"
  shows "copyout (proot T) va src len s = Ok (-1, s)"
proof (cases "va < MAXVA")
  case False
  then have "\<not> PGROUNDDOWN va < MAXVA" by (simp add: below_MAXVA_vpn vpn_PGROUNDDOWN)
  then show ?thesis using assms(2) by (subst copyout.simps) (simp add: Let_def not_less)
next
  case True
  then have lt: "PGROUNDDOWN va < MAXVA" by (simp add: below_MAXVA_vpn vpn_PGROUNDDOWN)
  then obtain pte where w: "walk (proot T) (PGROUNDDOWN va) False s = Ok (pte, s)"
    using walk_lookup [OF assms(1)] by blast
  have "pte \<noteq> 0 \<Longrightarrow> load64 (mem s) pte = lookup (mem s) T va"
    using walk_pte(2) [OF assms(1) lt w] lookup_vpn [OF vpn_PGROUNDDOWN] by simp
  then show ?thesis
    using True w lt assms(2,3) by (subst copyout.simps) (auto simp: Let_def not_le writable_def user_pte_def)
qed

lemma copyout_page:
  assumes "pt_inv s T ps" "len > 0" "writable (mem s) T va"
  shows "copyout (proot T) va src len s =
    copyout (proot T) (PGROUNDDOWN va + 4096) (drop (unat (page_rest va len)) src) (len - page_rest va len)
      (s\<lparr>mem := store_bytes (mem s) (paddr (mem s) T va) (take (unat (page_rest va len)) src)\<rparr>)"
proof -
  have lt: "PGROUNDDOWN va < MAXVA" using assms(3) by (simp add: writable_def below_MAXVA_vpn vpn_PGROUNDDOWN)
  then obtain pte where w: "walk (proot T) (PGROUNDDOWN va) False s = Ok (pte, s)"
    using walk_lookup [OF assms(1)] by blast
  have "lookup (mem s) T (PGROUNDDOWN va) = lookup (mem s) T va" by (rule lookup_vpn [OF vpn_PGROUNDDOWN])
  moreover have "lookup (mem s) T va \<noteq> 0" using assms(3) by (auto simp: writable_def)
  ultimately have "pte \<noteq> 0" "load64 (mem s) pte = lookup (mem s) T va"
    using walk_pte(2,3) [OF assms(1) lt w] by auto
  then show ?thesis
    using w not_le [THEN iffD2, OF lt] assms(2,3)
    by (subst copyout.simps) (simp add: Let_def writable_def user_pte_def paddr_def)
qed

lemma writable_page:
  "i < 4096 - unat va mod 4096 \<Longrightarrow> writable m T (va + of_nat i) = writable m T va"
  using lookup_vpn [OF in_page(1), of i va m T] in_page(1) [of i va] by (simp add: writable_def below_MAXVA_vpn)

text \<open>The physical pages a user program can reach.\<close>

definition user_pages :: "memory \<Rightarrow> ptree \<Rightarrow> addr set" where
  "user_pages m T = {PTE2PA (lookup m T va) | va. va < MAXVA \<and> user_pte (lookup m T va)}"

lemma user_pages_cong: "(\<And>x. lookup m' T x = lookup m T x) \<Longrightarrow> user_pages m' T = user_pages m T"
  by (simp add: user_pages_def)

text \<open>
  What a copy of \<open>k\<close> bytes to \<open>va\<close> leaves: the user's view with those bytes replaced, and all memory
  outside the pages of the user as it was.
\<close>

definition copied :: "'z kmem_scheme \<Rightarrow> ptree \<Rightarrow> addr list \<Rightarrow> uint64 \<Rightarrow> uint8 list \<Rightarrow> nat \<Rightarrow> 'z kmem_scheme \<Rightarrow> bool" where
  "copied s T ps va src k s' \<longleftrightarrow> s' = s\<lparr>mem := mem s'\<rparr> \<and> pt_inv s' T ps
     \<and> (\<forall>x. lookup (mem s') T x = lookup (mem s) T x)
     \<and> (\<forall>x. x < MAXVA \<longrightarrow> user_pte (lookup (mem s) T x) \<longrightarrow> ubyte (mem s') T x =
          (if unat (x - va) < k then src ! unat (x - va) else ubyte (mem s) T x))
     \<and> same_outside_pages (user_pages (mem s) T) (mem s) (mem s')"

lemma copied_page:
  assumes "pt_inv s T ps" "user_sep (mem s) T ps" "user_inj (mem s) T" "writable (mem s) T va"
    "length bs + unat va mod 4096 \<le> 4096"
  shows "copied s T ps va bs (length bs) (s\<lparr>mem := store_bytes (mem s) (paddr (mem s) T va) bs\<rparr>)"
proof -
  let ?m = "store_bytes (mem s) (paddr (mem s) T va) bs"
  let ?p = "PTE2PA (lookup (mem s) T va)"
  have u: "va < MAXVA" "user_pte (lookup (mem s) T va)" using assms(4) by (auto simp: writable_def)
  have p: "?p \<notin> pt_pages T \<union> set ps" using assms(2) u by (simp add: user_sep_def)
  have out: "same_outside_pages {?p} (mem s) ?m" using assms(5) by (intro page_store_outside) auto
  note inv = pt_inv_user_page [OF assms(1) out aligned_PTE2PA p]
  have "paddr ?m T x = paddr (mem s) T x" for x unfolding paddr_def [of _ _ x] inv(2) ..
  then have "ubyte ?m T x = ?m (paddr (mem s) T x)" for x by (simp add: ubyte_def)
  moreover have "?p \<in> user_pages (mem s) T" using u by (auto simp: user_pages_def)
  then have "same_outside_pages (user_pages (mem s) T) (mem s) ?m"
    using out by (simp add: same_outside_pages_def)
  ultimately show ?thesis
    using inv ubyte_store [OF assms(3) u _ _ assms(5)] by (simp add: copied_def)
qed

lemma copied_trans:
  assumes "copied s T ps va (take (unat n) src) (unat n) s1" "copied s1 T ps (va + n) (drop (unat n) src) k s2"
    "unat n + k < 2 ^ 64" "unat n + k \<le> length src"
  shows "copied s T ps va src (unat n + k) s2"
proof -
  have "s2 = s\<lparr>mem := mem s2\<rparr>"
    using assms(1,2) unfolding copied_def by (metis machine.update_convs(1) machine.surjective)
  moreover have "ubyte (mem s2) T x = (if unat (x - va) < unat n + k then src ! unat (x - va) else ubyte (mem s) T x)"
    if x: "x < MAXVA" "user_pte (lookup (mem s) T x)" for x
  proof -
    have "ubyte (mem s1) T x = (if unat (x - va) < unat n then take (unat n) src ! unat (x - va) else ubyte (mem s) T x)"
      "ubyte (mem s2) T x = (if unat (x - va - n) < k then drop (unat n) src ! unat (x - va - n) else ubyte (mem s1) T x)"
      using assms(1,2) x by (auto simp: copied_def diff_diff_eq)
    then show ?thesis
      using window_split [OF assms(3), of "x - va"] assms(4) by auto
  qed
  moreover have "user_pages (mem s1) T = user_pages (mem s) T"
    using assms(1) by (intro user_pages_cong) (simp add: copied_def)
  then have "same_outside_pages (user_pages (mem s) T) (mem s) (mem s2)"
    using assms(1,2) same_outside_pages_trans [of "user_pages (mem s) T" "mem s" "mem s1" "user_pages (mem s) T" "mem s2"]
    by (simp add: copied_def)
  ultimately show ?thesis using assms(1,2) by (simp add: copied_def)
qed

lemma copied_refl: "pt_inv s T ps \<Longrightarrow> copied s T ps va src 0 s"
  by (simp add: copied_def)

lemma copied_view:
  assumes "copied s T ps va src k s'"
  shows "pt_inv s' T ps" "writable (mem s') T = writable (mem s) T"
    "user_sep (mem s') T ps = user_sep (mem s) T ps" "user_inj (mem s') T = user_inj (mem s) T"
  using assms by (simp_all add: copied_def writable_def user_sep_def user_inj_def fun_eq_iff)

lemma copyout_spec:
  assumes "pt_inv s T ps" "user_sep (mem s) T ps" "user_inj (mem s) T" "length src = unat len"
  shows "\<exists>k s'. k \<le> unat len \<and> copyout (proot T) va src len s = Ok (if k = unat len then 0 else -1, s')
    \<and> copied s T ps va src k s' \<and> (\<forall>i<k. writable (mem s) T (va + of_nat i))
    \<and> (k < unat len \<longrightarrow> \<not> writable (mem s) T (va + of_nat k))"
  using assms
proof (induction "unat len" arbitrary: va len src s rule: less_induct)
  case less
  let ?n = "page_rest va len"
  consider "len = 0" | "len > 0" "\<not> writable (mem s) T va" | "len > 0" "writable (mem s) T va"
    by (cases "len = 0") (auto simp: word_neq_0_conv)
  then show ?case
  proof cases
    case 1
    then show ?thesis using copied_refl [OF less.prems(1)] by (subst copyout.simps) (simp add: exI [of _ 0])
  next
    case 2
    then show ?thesis using copyout_unwritable [OF less.prems(1) 2] copied_refl [OF less.prems(1)]
      by (intro exI [of _ 0]) (simp add: word_less_nat_alt)
  next
    case 3
    let ?s = "s\<lparr>mem := store_bytes (mem s) (paddr (mem s) T va) (take (unat ?n) src)\<rparr>"
    have le: "unat ?n \<le> unat len" by (simp add: page_rest_unat)
    then have len: "unat len = unat ?n + unat (len - ?n)" by (simp add: unat_sub word_le_nat_alt)
    have tk: "length (take (unat ?n) src) = unat ?n" using le less.prems(4) by simp
    have "unat va mod 4096 < 4096" by simp
    then have fit: "unat ?n + unat va mod 4096 \<le> 4096" unfolding page_rest_unat by linarith
    have c1: "copied s T ps va (take (unat ?n) src) (unat ?n) ?s"
      using copied_page [OF less.prems(1-3) 3(2), of "take (unat ?n) src"] tk fit by simp
    have pg: "\<forall>i<unat ?n. writable (mem s) T (va + of_nat i)"
      using 3(2) writable_page by (simp add: page_rest_unat)
    note step = copyout_page [OF less.prems(1) 3, of src]
    show ?thesis
    proof (cases "?n = len")
      case True
      have "copyout (proot T) (PGROUNDDOWN va + 4096) [] 0 ?s = Ok (0, ?s)" by (subst copyout.simps) simp
      then show ?thesis using step True c1 pg less.prems(4)
        by (intro exI [of _ "unat len"] exI [of _ ?s]) simp
    next
      case False
      then have nx: "PGROUNDDOWN va + 4096 = va + ?n" using le next_page by (simp add: word_less_nat_alt word_unat_eq_iff)
      note v = copied_view [OF c1]
      obtain k s' where k: "k \<le> unat (len - ?n)"
        "copyout (proot T) (va + ?n) (drop (unat ?n) src) (len - ?n) ?s = Ok (if k = unat (len - ?n) then 0 else -1, s')"
        "copied ?s T ps (va + ?n) (drop (unat ?n) src) k s'"
        "\<forall>i<k. writable (mem s) T (va + ?n + of_nat i)"
        "k < unat (len - ?n) \<longrightarrow> \<not> writable (mem s) T (va + ?n + of_nat k)"
        using less.hyps [OF page_rest_measure [OF 3(1), of va], of ?s "drop (unat ?n) src" "va + ?n"] v less.prems len
        by auto
      have "unat len < 2 ^ 64" using unsigned_less [of len] by simp
      then have "copied s T ps va src (unat ?n + k) s'"
        using copied_trans [OF c1 k(3)] k(1) len less.prems(4) by simp
      then show ?thesis
        using step k(1,2,5) len holds_shift [OF pg k(4)] unfolding nx
        by (intro exI [of _ "unat ?n + k"] exI [of _ s']) (simp add: add.assoc)
    qed
  qed
qed

section \<open>New tables\<close>

definition empty_tree :: "addr \<Rightarrow> ptree" where
  "empty_tree q = \<lparr>proot = q, pmid = (\<lambda>_. None), plow = (\<lambda>_. None)\<rparr>"

lemma lookup_empty [simp]: "lookup m (empty_tree q) va = 0"
  by (simp add: lookup_def empty_tree_def)

lemma uvmcreate_spec:
  assumes "kmem_inv s (q # ps)"
  shows "\<exists>s'. uvmcreate s = Ok (q, s') \<and> pt_inv s' (empty_tree q) ps \<and> vm_frame s s'
    \<and> same_outside_pages {q} (mem s) (mem s')"
proof -
  let ?m = "store_bytes (store_bytes (mem s) q (replicate PGSIZE 5)) q (replicate PGSIZE 0)"
  let ?s = "(allocated q s)\<lparr>mem := ?m\<rparr>"
  have q: "q \<noteq> 0" "page_ok (kernel_end s) q" "q \<notin> set ps" "page_aligned q"
    using assms by (auto simp: kmem_inv_def page_ok_def)
  have run: "uvmcreate s = Ok (q, ?s)"
    using q by (simp add: uvmcreate_def kalloc_nonempty [OF assms] memset_store)
  have "same_outside_pages {q} (mem (allocated q s)) ?m" by (simp add: same_outside_pages_store)
  then have km: "kmem_inv ?s ps"
    using kmem_inv_allocated [OF assms] q by (intro kmem_inv_mem [where P = "{q}"]) auto
  have "pt_rep ?m (empty_tree q)"
    by (simp add: pt_rep_def table_ok_def empty_tree_def entry_zero_page)
  moreover have "pt_shape (empty_tree q)" by (simp add: pt_shape_def empty_tree_def)
  moreover have "pt_pages (empty_tree q) = {q}" by (simp add: pt_pages_def empty_tree_def)
  ultimately have "pt_inv ?s (empty_tree q) ps" using km q by (simp add: pt_inv_def)
  moreover have "vm_frame s ?s" by (simp add: vm_frame_allocated)
  moreover have "same_outside_pages {q} (mem s) ?m" by (simp add: same_outside_pages_store)
  ultimately show ?thesis using run by (intro exI [of _ ?s]) simp
qed

text \<open>The allocator after freeing the pages of a list one by one.\<close>

lemma kmem_inv_fold_freed:
  "kmem_inv s ps \<Longrightarrow> \<forall>q\<in>set qs. page_ok (kernel_end s) q \<Longrightarrow> distinct (qs @ ps) \<Longrightarrow>
   kmem_inv (fold freed qs s) (rev qs @ ps)"
proof (induction qs arbitrary: s ps)
  case (Cons q qs)
  have "kmem_inv (freed q s) (q # ps)" using Cons.prems by (intro kmem_inv_freed) auto
  then show ?case using Cons.IH [of "freed q s" "q # ps"] Cons.prems by auto
qed simp

section \<open>Properties\<close>

text \<open>
  C16. \<open>mappages\<close> on a range of unmapped pages below \<open>MAXVA\<close>: either it returns 0 and exactly the
  entries of the range are set, page \<open>i\<close> of the range to page \<open>i\<close> of the physical range with the
  given permissions; or the allocator ran dry, it returns -1, and a prefix of the range is mapped,
  which cannot happen with more than two free pages for each page of the range.
  In both cases every other entry is as before, the table stays well formed, its new pages come
  from the free list, and no byte outside the table pages changes.
\<close>

theorem mappages_maps_range:
  assumes "pt_inv s T ps" "va mod 4096 = 0" "unat va + 4096 * Suc n \<le> unat MAXVA"
    "\<forall>x. x < MAXVA \<longrightarrow> vpn va \<le> vpn x \<longrightarrow> vpn x \<le> vpn va + n \<longrightarrow> lookup (mem s) T x AND PTE_V = 0"
  shows "\<exists>r s' T' ps' k. mappages (proot T) va (of_nat (4096 * Suc n)) pa perm s = Ok (r, s')
    \<and> pt_change s T ps (map_range va k pa perm (lookup (mem s) T)) s' T' ps'
    \<and> (r = 0 \<and> k = Suc n \<or> r = -1 \<and> k \<le> n \<and> ps' = [] \<and> length ps \<le> 2 * Suc n)"
proof -
  let ?sz = "of_nat (4096 * Suc n) :: uint64"
  have sz: "unat ?sz = 4096 * Suc n"
    using assms(3) by (simp only: unat_of_nat) (simp add: MAXVA_def)
  have "?sz mod 4096 = 0" using sz aligned_unat [of ?sz] by (simp only: page_aligned_def) simp
  moreover have "?sz \<noteq> 0" using sz by (auto simp: word_unat_eq_iff)
  moreover have "va + ?sz - 4096 = va + of_nat (4096 * n)" by simp
  ultimately have "mappages (proot T) va ?sz pa perm s
      = mappages_loop (proot T) va (va + of_nat (4096 * n)) pa perm s"
    using assms(2) by (simp only: mappages_def) simp
  then show ?thesis
    using mappages_loop_spec [OF assms(1,3) refl, of pa perm] assms(4) by simp
qed

lemma proot_empty [simp]: "proot (empty_tree r) = r"
  by (simp add: empty_tree_def)

text \<open>Six free pages at the top of memory.\<close>

definition sample_pages :: "addr list" where
  "sample_pages = [0x88ff0000, 0x88ff1000, 0x88ff2000, 0x88ff3000, 0x88ff4000, 0x88ff5000]"

definition sample_vm :: kmem where
  "sample_vm = fold freed sample_pages (sample_kmem\<lparr>kernel_end := 0x88ff0000\<rparr>)"

lemma sample_vm_inv: "kmem_inv sample_vm (rev sample_pages)"
proof -
  have "kmem_inv (sample_kmem\<lparr>kernel_end := 0x88ff0000\<rparr>) []"
    using sample_kmem_ok by (simp add: kmem_inv_def lock_free_def cpu_ok_def machine_ops)
  moreover have "\<forall>q\<in>set sample_pages. page_ok (kernel_end (sample_kmem\<lparr>kernel_end := 0x88ff0000\<rparr>)) q"
    "distinct (sample_pages @ [])"
    by (simp_all add: sample_pages_def page_ok_def page_aligned_def PHYSTOP_def KERNBASE_def)
  ultimately have "kmem_inv (fold freed sample_pages (sample_kmem\<lparr>kernel_end := 0x88ff0000\<rparr>)) (rev sample_pages @ [])"
    by (rule kmem_inv_fold_freed)
  then show ?thesis by (simp add: sample_vm_def)
qed

lemma sample_table:
  obtains s where "uvmcreate sample_vm = Ok (0x88ff5000, s)"
    "pt_inv s (empty_tree 0x88ff5000) [0x88ff4000, 0x88ff3000, 0x88ff2000, 0x88ff1000, 0x88ff0000]"
  using uvmcreate_spec [of sample_vm] sample_vm_inv by (auto simp: sample_pages_def)

theorem mappages_maps_range_witness:
  "\<exists>s s' T' ps'. uvmcreate sample_vm = Ok (0x88ff5000, s)
    \<and> mappages 0x88ff5000 0x3000 8192 0x88ff6000 PTE_R s = Ok (0, s')
    \<and> pt_inv s' T' ps' \<and> lookup (mem s') T' 0x4000 = PA2PTE 0x88ff7000 OR PTE_R OR PTE_V"
proof -
  obtain s where s: "uvmcreate sample_vm = Ok (0x88ff5000, s)"
    and inv: "pt_inv s (empty_tree 0x88ff5000) [0x88ff4000, 0x88ff3000, 0x88ff2000, 0x88ff1000, 0x88ff0000]"
    by (rule sample_table)
  obtain s' T' ps' where r: "mappages 0x88ff5000 0x3000 8192 0x88ff6000 PTE_R s = Ok (0, s')"
    and c: "pt_change s (empty_tree 0x88ff5000) [0x88ff4000, 0x88ff3000, 0x88ff2000, 0x88ff1000, 0x88ff0000]
      (map_range 0x3000 2 0x88ff6000 PTE_R (lookup (mem s) (empty_tree 0x88ff5000))) s' T' ps'"
    using mappages_maps_range [OF inv, of "0x3000" 1 "0x88ff6000" PTE_R]
    by (auto simp: MAXVA_def simp flip: numeral_2_eq_2)
  have "pt_inv s' T' ps'" "lookup (mem s') T' 0x4000 = PA2PTE 0x88ff7000 OR PTE_R OR PTE_V"
    using c by (simp_all add: pt_change_def MAXVA_def map_range_def vpn_def)
  with s r show ?thesis by blast
qed

text \<open>
  C17. \<open>copyin\<close> returns 0 exactly when every byte of the user range is mapped, valid and open to the
  user, and then delivers the bytes the user program sees there, across page boundaries; otherwise
  it returns -1 having delivered the bytes before the first one that is not readable. It never
  panics, not even on addresses of \<open>MAXVA\<close> or more, and changes nothing.
\<close>

theorem copyin_reads_user_view:
  assumes "pt_inv s T ps"
  shows "\<exists>k\<le>unat len. copyin (proot T) va len s =
      Ok (if k = unat len then 0 else -1, uview (mem s) T va k)
    \<and> (\<forall>i<k. readable (mem s) T (va + of_nat i))
    \<and> (k < unat len \<longrightarrow> \<not> readable (mem s) T (va + of_nat k))"
  using copyin_spec [OF assms] .

text \<open>A table that maps one user page, at \<open>0x3000\<close>.\<close>

definition maps_page3 :: "memory \<Rightarrow> ptree \<Rightarrow> bool" where
  "maps_page3 m T \<longleftrightarrow> (\<forall>va. va < MAXVA \<longrightarrow> lookup m T va =
     (if vpn va = 3 then PA2PTE 0x88ff6000 OR (PTE_R OR PTE_W OR PTE_U) OR PTE_V else 0))"

lemma sample_user_pages:
  obtains s T ps where "pt_inv (s :: kmem) T ps" "proot T = 0x88ff5000" "user_sep (mem s) T ps" "user_inj (mem s) T"
    "maps_page3 (mem s) T"
    "pt_pages T \<union> set ps = {0x88ff0000, 0x88ff1000, 0x88ff2000, 0x88ff3000, 0x88ff4000, 0x88ff5000}"
proof -
  let ?f = "PTE_R OR PTE_W OR PTE_U"
  let ?e = "PA2PTE 0x88ff6000 OR ?f OR PTE_V"
  obtain s :: kmem where inv: "pt_inv s (empty_tree 0x88ff5000) [0x88ff4000, 0x88ff3000, 0x88ff2000, 0x88ff1000, 0x88ff0000]"
    using sample_table by blast
  obtain r s' T' ps' where c: "pt_change s (empty_tree 0x88ff5000) [0x88ff4000, 0x88ff3000, 0x88ff2000, 0x88ff1000, 0x88ff0000]
      (map_range 0x3000 1 0x88ff6000 ?f (lookup (mem s) (empty_tree 0x88ff5000))) s' T' ps'"
    using mappages_loop_spec [OF inv, of "0x3000" 0 "0x3000" "0x88ff6000" ?f] by (auto simp: MAXVA_def)
  have l: "lookup (mem s') T' va = (if vpn va = 3 then ?e else 0)" if "va < MAXVA" for va
    using c that by (auto simp: pt_change_def map_range_def vpn_def)
  have pa: "PTE2PA ?e = 0x88ff6000"
    using PTE2PA_PA2PTE [of "0x88ff6000" "?f OR PTE_V"]
    by (simp add: page_aligned_def PTE_R_def PTE_W_def PTE_U_def PTE_V_def)
  have pages: "pt_pages T' \<union> set ps' = {0x88ff0000, 0x88ff1000, 0x88ff2000, 0x88ff3000, 0x88ff4000, 0x88ff5000}"
  proof -
    have "pt_pages T' \<union> set ps' = pt_pages (empty_tree 0x88ff5000)
        \<union> set [0x88ff4000, 0x88ff3000, 0x88ff2000, 0x88ff1000, 0x88ff0000]"
      using c by (simp only: pt_change_def)
    also have "\<dots> = {0x88ff0000, 0x88ff1000, 0x88ff2000, 0x88ff3000, 0x88ff4000, 0x88ff5000}"
      by (auto simp: pt_pages_def empty_tree_def)
    finally show ?thesis .
  qed
  have "user_sep (mem s') T' ps'"
    unfolding user_sep_def pages by (auto simp: l pa user_pte_def)
  moreover have "user_inj (mem s') T'" by (auto simp: user_inj_def l user_pte_def)
  ultimately show ?thesis
    using that [of s' T' ps'] c l pages by (simp add: maps_page3_def pt_change_def empty_tree_def)
qed

lemma sample_user:
  obtains s T ps where "pt_inv (s :: kmem) T ps" "proot T = 0x88ff5000" "user_sep (mem s) T ps" "user_inj (mem s) T"
    "maps_page3 (mem s) T"
  by (rule sample_user_pages) (rule that)

lemma sample_user_readable:
  assumes "maps_page3 m T"
  shows "readable m T va \<longleftrightarrow> vpn va = 3" "writable m T va \<longleftrightarrow> vpn va = 3"
proof -
  have "vpn va = 3 \<Longrightarrow> va < MAXVA" by (simp add: below_MAXVA_vpn)
  then show "readable m T va \<longleftrightarrow> vpn va = 3" "writable m T va \<longleftrightarrow> vpn va = 3"
    using assms
    by (cases "vpn va = 3"; auto simp: maps_page3_def readable_def writable_def user_pte_def PTE2PA_def PA2PTE_def PTE_R_def PTE_W_def PTE_U_def PTE_V_def)+
qed

lemma page3_end:
  assumes "k \<le> 16" "\<forall>i<k. vpn (0x3ff8 + of_nat i) = 3" "k < 16 \<longrightarrow> vpn (0x3ff8 + of_nat k) \<noteq> 3"
  shows "k = 8"
proof -
  have "vpn (0x3ff8 + of_nat 8) = 3" if "8 < k" using assms(2) that by blast
  then have "\<not> 8 < k" by (auto simp: vpn_def)
  moreover have "\<not> k < 8"
  proof
    assume "k < 8"
    then have "k \<in> {0, 1, 2, 3, 4, 5, 6, 7}" by auto
    moreover have "vpn (0x3ff8 + of_nat k) \<noteq> 3" using assms(3) \<open>k < 8\<close> by simp
    ultimately show False by (auto simp: vpn_def)
  qed
  ultimately show ?thesis by simp
qed

theorem copyin_reads_user_view_witness:
  "\<exists>s T ps. pt_inv (s :: kmem) T ps \<and> copyin (proot T) 0x3ff8 16 s = Ok (-1, uview (mem s) T 0x3ff8 8)"
proof -
  obtain s T ps where inv: "pt_inv (s :: kmem) T ps" "proot T = 0x88ff5000" "user_sep (mem s) T ps" "user_inj (mem s) T"
    and l: "maps_page3 (mem s) T"
    by (rule sample_user)
  note rd = sample_user_readable(1) [OF l]
  obtain k where k: "k \<le> 16" "copyin (proot T) 0x3ff8 16 s = Ok (if k = 16 then 0 else -1, uview (mem s) T 0x3ff8 k)"
      "\<forall>i<k. vpn (0x3ff8 + of_nat i) = 3" "k < 16 \<longrightarrow> vpn (0x3ff8 + of_nat k) \<noteq> 3"
    using copyin_reads_user_view [OF inv(1), of 16 "0x3ff8"] by (simp only: rd) auto
  have "k = 8" using k(1,3,4) by (rule page3_end)
  with k(2) have "copyin (proot T) 0x3ff8 16 s = Ok (-1, uview (mem s) T 0x3ff8 8)" by simp
  with inv(1) show ?thesis by blast
qed

text \<open>
  C18. \<open>copyout\<close> returns 0 exactly when every byte of the user range is mapped, valid, open to the user
  and writable; then the user's view has the source bytes in the range and is unchanged elsewhere.
  Otherwise it returns -1 having written the bytes before the first one that is not writable. It
  never panics, and leaves the page table, the free list, all memory outside the user's pages and all
  other kernel state alone.
\<close>

theorem copyout_writes_user_view:
  assumes "pt_inv s T ps" "user_sep (mem s) T ps" "user_inj (mem s) T" "length src = unat len"
  shows "\<exists>k\<le>unat len. \<exists>s'. copyout (proot T) va src len s = Ok (if k = unat len then 0 else -1, s')
    \<and> copied s T ps va src k s' \<and> (\<forall>i<k. writable (mem s) T (va + of_nat i))
    \<and> (k < unat len \<longrightarrow> \<not> writable (mem s) T (va + of_nat k))"
  using copyout_spec [OF assms, of va] by blast

theorem copyout_writes_user_view_witness:
  "\<exists>s T ps s'. pt_inv (s :: kmem) T ps \<and> copyout (proot T) 0x3010 [7, 8] 2 s = Ok (0, s')
     \<and> ubyte (mem s') T 0x3011 = 8"
proof -
  obtain s T ps where inv: "pt_inv (s :: kmem) T ps" and r: "proot T = 0x88ff5000" and us: "user_sep (mem s) T ps" "user_inj (mem s) T"
    and l: "maps_page3 (mem s) T"
    by (rule sample_user)
  note wr = sample_user_readable(2) [OF l]
  obtain k s' where k: "k \<le> 2" "copyout (proot T) 0x3010 [7, 8] 2 s = Ok (if k = 2 then 0 else -1, s')"
      "copied s T ps 0x3010 [7, 8] k s'" "k < 2 \<longrightarrow> vpn (0x3010 + of_nat k) \<noteq> 3"
    using copyout_writes_user_view [OF inv us, of "[7, 8]" 2 "0x3010"] by (simp only: wr) auto
  have "k \<noteq> 0" using k(4) by (cases "k = 0") (simp_all add: vpn_def)
  moreover have "k \<noteq> 1" using k(4) by (cases "k = 1") (simp_all add: vpn_def)
  ultimately have k2: "k = 2" using k(1) by simp
  have "user_pte (lookup (mem s) T 0x3011)"
    using wr [of "0x3011"] by (simp add: writable_def vpn_def)
  then have "ubyte (mem s') T 0x3011 = 8" using k(3) k2 by (simp add: copied_def MAXVA_def)
  moreover have "copyout (proot T) 0x3010 [7, 8] 2 s = Ok (0, s')" using k(2) k2 by simp
  ultimately show ?thesis using inv by blast
qed

text \<open>
  C19. What \<open>copyout\<close> wrote into user memory with result 0, \<open>copyin\<close> of the same range reads back.
\<close>

theorem copyout_copyin:
  assumes "pt_inv s T ps" "user_sep (mem s) T ps" "user_inj (mem s) T" "length src = unat len"
    "copyout (proot T) va src len s = Ok (0, s')"
  shows "copyin (proot T) va len s' = Ok (0, src)"
proof -
  have c: "copied s T ps va src (unat len) s'" and w: "\<And>i. i < unat len \<Longrightarrow> writable (mem s) T (va + of_nat i)"
    using copyout_spec [OF assms(1-4), of va] assms(5) by (auto split: if_splits)
  have rd: "readable (mem s') T (va + of_nat i)" if "i < unat len" for i
    using w [OF that] c assms(2) by (simp add: copied_def readable_def writable_def user_sep_def)
  have ub: "ubyte (mem s') T (va + of_nat i) = src ! i" if "i < unat len" for i
  proof -
    have "unat (va + of_nat i - va) = i" using that less_trans [OF that unsigned_less] by (simp add: unat_of_nat)
    then show ?thesis using w [OF that] c that by (simp add: copied_def writable_def)
  qed
  obtain k where k: "k \<le> unat len" "copyin (proot T) va len s' = Ok (if k = unat len then 0 else -1, uview (mem s') T va k)"
    "k < unat len \<longrightarrow> \<not> readable (mem s') T (va + of_nat k)"
    using copyin_spec [of s' T ps len va] c by (auto simp: copied_def)
  then have "k = unat len" using rd by force
  moreover have "uview (mem s') T va (unat len) = src"
    using ub assms(4) by (auto simp: uview_def intro!: nth_equalityI)
  ultimately show ?thesis using k by simp
qed

theorem copyout_copyin_witness:
  "\<exists>s T ps s'. pt_inv (s :: kmem) T ps \<and> copyout (proot T) 0x3010 [7, 8] 2 s = Ok (0, s')
     \<and> copyin (proot T) 0x3010 2 s' = Ok (0, [7, 8])"
proof -
  obtain s T ps where inv: "pt_inv (s :: kmem) T ps" and r: "proot T = 0x88ff5000" and us: "user_sep (mem s) T ps" "user_inj (mem s) T"
    and l: "maps_page3 (mem s) T"
    by (rule sample_user)
  note wr = sample_user_readable(2) [OF l]
  obtain k s' where k: "k \<le> 2" "copyout (proot T) 0x3010 [7, 8] 2 s = Ok (if k = 2 then 0 else -1, s')"
      "k < 2 \<longrightarrow> vpn (0x3010 + of_nat k) \<noteq> 3"
    using copyout_spec [OF inv us, of "[7, 8]" 2 "0x3010"] by (simp only: wr) auto
  have "k \<noteq> 0" using k(3) by (cases "k = 0") (simp_all add: vpn_def)
  moreover have "k \<noteq> 1" using k(3) by (cases "k = 1") (simp_all add: vpn_def)
  ultimately have o: "copyout (proot T) 0x3010 [7, 8] 2 s = Ok (0, s')" using k(1,2) by simp
  have "copyin (proot T) 0x3010 2 s' = Ok (0, [7, 8])"
    using copyout_copyin [OF inv us _ o] by simp
  with inv o show ?thesis by blast
qed

end
