(* ===== verification/Proc.thy ===== *)
theory Proc
  imports Usermem
begin

text \<open>
  The process table (\<open>kernel/proc.c\<close>, \<open>kernel/proc.h\<close>): allocation and release of table entries and
  of their page tables, the switch to the scheduler, sleeping and waking, killing, reaping of
  children, and the copies to and from user or kernel memory. \<open>fork\<close>, \<open>exit\<close> and the first process
  need the file layer and are in \<open>Process\<close>.

  A process that calls \<open>sched\<close> gives up its hart. What the rest of the system does until it is
  switched back in is an argument \<open>W\<close> of every operation that may sleep: a function on the state,
  which may not return (\<open>Hang\<close>), may change every field, and may resume the process on another
  hart. Nothing is assumed of it unless a theorem says so.
\<close>

section \<open>State\<close>

datatype procstate = UNUSED | USED | SLEEPING | RUNNABLE | RUNNING | ZOMBIE

text \<open>What a process can sleep on: the address the code uses, by the object it points to.\<close>

datatype channel = ChProc nat | ChTicks | ChDisk | ChBuf nat | ChSleep lockid | ChLog
  | ChPipeRead addr | ChPipeWrite addr | ChUart | ChCons

record swcontext =
  ctx_ra :: uint64
  ctx_sp :: uint64
  ctx_s :: "uint64 list"

record proc =
  p_state :: procstate
  p_chan :: "channel option"
  p_killed :: int
  p_xstate :: uint32
  p_pid :: uint32
  p_parent :: "nat option"
  p_kstack :: uint64
  p_sz :: uint64
  p_pagetable :: addr
  p_trapframe :: addr
  p_context :: swcontext
  p_ofile :: "nat \<Rightarrow> nat option"
  p_cwd :: "nat option"
  p_name :: "uint8 list"

record proctab = vm +
  procs :: "nat \<Rightarrow> proc"
  initproc :: "nat option"
  nextpid :: uint32
  forkret_addr :: uint64

text \<open>
  \<open>others W\<close> is what happens between the switch away and the switch back; a loop that sleeps until
  a condition holds goes round at most \<open>rounds W\<close> times and then counts as not returning.
\<close>

record 's world =
  others :: "'s \<Rightarrow> 's res"
  rounds :: nat

abbreviation NOFILE :: nat where "NOFILE \<equiv> 16"

definition set_proc :: "nat \<Rightarrow> (proc \<Rightarrow> proc) \<Rightarrow> 'z proctab_scheme \<Rightarrow> 'z proctab_scheme" where
  "set_proc p f s = s\<lparr>procs := (procs s)(p := f (procs s p))\<rparr>"

text \<open>Using a null process pointer traps in the kernel.\<close>

definition deref :: "nat option \<Rightarrow> nat res" where
  "deref p = (case p of None \<Rightarrow> Panic ''kerneltrap'' | Some p \<Rightarrow> Ok p)"

text \<open>The fields of a trap frame the kernel uses, by their offsets.\<close>

definition tf_kernel_satp :: addr where "tf_kernel_satp = 0"
definition tf_kernel_sp :: addr where "tf_kernel_sp = 8"
definition tf_kernel_trap :: addr where "tf_kernel_trap = 16"
definition tf_epc :: addr where "tf_epc = 24"
definition tf_kernel_hartid :: addr where "tf_kernel_hartid = 32"
definition tf_sp :: addr where "tf_sp = 48"
definition tf_a :: "nat \<Rightarrow> addr" where "tf_a n = 112 + 8 * of_nat n"

definition sizeof_trapframe :: nat where "sizeof_trapframe = 288"

section \<open>Table entries\<close>

definition procinit :: "'z proctab_scheme \<Rightarrow> 'z proctab_scheme res" where
  "procinit s =
     (let s = initlock PID_LOCK s;
          s = initlock WAIT_LOCK s
      in for_upto 0 NPROC (\<lambda>p s.
           let s = initlock (PROC p) s
           in Ok (set_proc p (\<lambda>q. q\<lparr>p_state := UNUSED, p_kstack := KSTACK p\<rparr>) s)) s)"

definition myproc :: "'z machine_scheme \<Rightarrow> (nat option \<times> 'z machine_scheme) res" where
  "myproc s =
     (let s = push_off s;
          p = cpu_proc (mycpu s)
      in bnd (pop_off s) (\<lambda>s. Ok (p, s)))"

definition allocpid :: "'z proctab_scheme \<Rightarrow> (uint32 \<times> 'z proctab_scheme) res" where
  "allocpid s =
     bnd (acquire PID_LOCK s) (\<lambda>s.
     let pid = nextpid s;
         s = s\<lparr>nextpid := nextpid s + 1\<rparr> in
     bnd (release PID_LOCK s) (\<lambda>s. Ok (pid, s)))"

definition proc_pagetable :: "nat \<Rightarrow> 'z proctab_scheme \<Rightarrow> (addr \<times> 'z proctab_scheme) res" where
  "proc_pagetable p s =
     bnd (uvmcreate s) (\<lambda>(pagetable, s).
     if pagetable = 0 then Ok (0, s)
     else bnd (mappages pagetable TRAMPOLINE 4096 (trampoline s) (PTE_R OR PTE_X) s) (\<lambda>(r, s).
       if r < 0 then bnd (uvmfree pagetable 0 s) (\<lambda>s. Ok (0, s))
       else bnd (mappages pagetable TRAPFRAME 4096 (p_trapframe (procs s p)) (PTE_R OR PTE_W) s) (\<lambda>(r, s).
         if r < 0
         then bnd (uvmunmap pagetable TRAMPOLINE 1 False s) (\<lambda>s.
              bnd (uvmfree pagetable 0 s) (\<lambda>s. Ok (0, s)))
         else Ok (pagetable, s))))"

definition proc_freepagetable :: "addr \<Rightarrow> uint64 \<Rightarrow> 'z kmem_scheme \<Rightarrow> 'z kmem_scheme res" where
  "proc_freepagetable pagetable sz s =
     bnd (uvmunmap pagetable TRAMPOLINE 1 False s) (\<lambda>s.
     bnd (uvmunmap pagetable TRAPFRAME 1 False s) (\<lambda>s.
     uvmfree pagetable sz s))"

definition freeproc :: "nat \<Rightarrow> 'z proctab_scheme \<Rightarrow> 'z proctab_scheme res" where
  "freeproc p s =
     bnd (if p_trapframe (procs s p) \<noteq> 0 then kfree (p_trapframe (procs s p)) s else Ok s) (\<lambda>s.
     let s = set_proc p (\<lambda>q. q\<lparr>p_trapframe := 0\<rparr>) s in
     bnd (if p_pagetable (procs s p) \<noteq> 0
          then proc_freepagetable (p_pagetable (procs s p)) (p_sz (procs s p)) s else Ok s) (\<lambda>s.
     Ok (set_proc p (\<lambda>q. q\<lparr>p_pagetable := 0, p_sz := 0, p_pid := 0, p_parent := None,
       p_name := (p_name q)[0 := 0], p_chan := None, p_killed := 0, p_xstate := 0, p_state := UNUSED\<rparr>) s)))"

text \<open>The search loop of \<open>allocproc\<close> from entry \<open>p\<close> on, with \<open>n\<close> entries to go.\<close>

primrec allocproc_scan :: "nat \<Rightarrow> nat \<Rightarrow> 'z proctab_scheme \<Rightarrow> (nat option \<times> 'z proctab_scheme) res" where
  "allocproc_scan 0 p s = Ok (None, s)"
| "allocproc_scan (Suc n) p s =
     bnd (acquire (PROC p) s) (\<lambda>s.
     if p_state (procs s p) = UNUSED then Ok (Some p, s)
     else bnd (release (PROC p) s) (\<lambda>s. allocproc_scan n (Suc p) s))"

definition allocproc_fail :: "nat \<Rightarrow> 'z proctab_scheme \<Rightarrow> (nat option \<times> 'z proctab_scheme) res" where
  "allocproc_fail p s = bnd (freeproc p s) (\<lambda>s. bnd (release (PROC p) s) (\<lambda>s. Ok (None, s)))"

definition allocproc :: "'z proctab_scheme \<Rightarrow> (nat option \<times> 'z proctab_scheme) res" where
  "allocproc s =
     bnd (allocproc_scan NPROC 0 s) (\<lambda>(p, s).
     case p of
       None \<Rightarrow> Ok (None, s)
     | Some p \<Rightarrow>
         bnd (allocpid s) (\<lambda>(pid, s).
         let s = set_proc p (\<lambda>q. q\<lparr>p_pid := pid, p_state := USED\<rparr>) s in
         bnd (kalloc s) (\<lambda>(tf, s).
         let s = set_proc p (\<lambda>q. q\<lparr>p_trapframe := tf\<rparr>) s in
         if tf = 0 then allocproc_fail p s
         else bnd (proc_pagetable p s) (\<lambda>(pt, s).
           let s = set_proc p (\<lambda>q. q\<lparr>p_pagetable := pt\<rparr>) s in
           if pt = 0 then allocproc_fail p s
           else let s = set_proc p (\<lambda>q. q\<lparr>p_context := \<lparr>ctx_ra = forkret_addr s,
                          ctx_sp = p_kstack q + 4096, ctx_s = replicate 12 0\<rparr>\<rparr>) s
                in Ok (Some p, s)))))"

text \<open>
  \<open>sz + n\<close> adds the sign-extended \<open>n\<close>; \<open>uvmalloc\<close> answers 0 on failure.
\<close>

definition growproc :: "int \<Rightarrow> 'z proctab_scheme \<Rightarrow> (int \<times> 'z proctab_scheme) res" where
  "growproc n s =
     bnd (myproc s) (\<lambda>(p, s). bnd (deref p) (\<lambda>p.
     let sz = p_sz (procs s p) in
     if n > 0
     then bnd (uvmalloc (p_pagetable (procs s p)) sz (sz + of_int n) PTE_W s) (\<lambda>(sz, s).
            if sz = 0 then Ok (-1, s)
            else Ok (0, set_proc p (\<lambda>q. q\<lparr>p_sz := sz\<rparr>) s))
     else if n < 0
     then bnd (uvmdealloc (p_pagetable (procs s p)) sz (sz + of_int n) s) (\<lambda>(sz, s).
            Ok (0, set_proc p (\<lambda>q. q\<lparr>p_sz := sz\<rparr>) s))
     else Ok (0, set_proc p (\<lambda>q. q\<lparr>p_sz := sz\<rparr>) s)))"

section \<open>Switching, sleeping and waking\<close>

definition sched :: "'z proctab_scheme world \<Rightarrow> 'z proctab_scheme \<Rightarrow> 'z proctab_scheme res" where
  "sched W s =
     bnd (myproc s) (\<lambda>(p, s). bnd (deref p) (\<lambda>p.
     if \<not> holding (PROC p) s then Panic ''sched p->lock''
     else if noff (mycpu s) \<noteq> 1 then Panic ''sched locks''
     else if p_state (procs s p) = RUNNING then Panic ''sched running''
     else if intr_get s then Panic ''sched interruptible''
     else let intena = intena (mycpu s)
          in bnd (others W s) (\<lambda>s. Ok (set_mycpu (\<lambda>c. c\<lparr>intena := intena\<rparr>) s))))"

definition yield :: "'z proctab_scheme world \<Rightarrow> 'z proctab_scheme \<Rightarrow> 'z proctab_scheme res" where
  "yield W s =
     bnd (myproc s) (\<lambda>(p, s). bnd (deref p) (\<lambda>p.
     bnd (acquire (PROC p) s) (\<lambda>s.
     let s = set_proc p (\<lambda>q. q\<lparr>p_state := RUNNABLE\<rparr>) s in
     bnd (sched W s) (\<lambda>s.
     release (PROC p) s))))"

definition sleep :: "'z proctab_scheme world \<Rightarrow> channel \<Rightarrow> lockid \<Rightarrow> 'z proctab_scheme \<Rightarrow> 'z proctab_scheme res" where
  "sleep W chan lk s =
     bnd (myproc s) (\<lambda>(p, s). bnd (deref p) (\<lambda>p.
     bnd (acquire (PROC p) s) (\<lambda>s.
     bnd (release lk s) (\<lambda>s.
     let s = set_proc p (\<lambda>q. q\<lparr>p_chan := Some chan, p_state := SLEEPING\<rparr>) s in
     bnd (sched W s) (\<lambda>s.
     let s = set_proc p (\<lambda>q. q\<lparr>p_chan := None\<rparr>) s in
     bnd (release (PROC p) s) (\<lambda>s.
     acquire lk s))))))"

text \<open>One pass of the loop of \<open>wakeup\<close>; \<open>chan\<close> is null when \<open>exit\<close> wakes a process without parent.\<close>

definition wakeup_one :: "channel option \<Rightarrow> nat \<Rightarrow> 'z proctab_scheme \<Rightarrow> 'z proctab_scheme res" where
  "wakeup_one chan p s =
     bnd (myproc s) (\<lambda>(me, s).
     if me = Some p then Ok s
     else bnd (acquire (PROC p) s) (\<lambda>s.
       let s = (if p_state (procs s p) = SLEEPING \<and> p_chan (procs s p) = chan
                then set_proc p (\<lambda>q. q\<lparr>p_state := RUNNABLE\<rparr>) s else s)
       in release (PROC p) s))"

definition wakeup :: "channel option \<Rightarrow> 'z proctab_scheme \<Rightarrow> 'z proctab_scheme res" where
  "wakeup chan s = for_upto 0 NPROC (wakeup_one chan) s"

primrec kill_scan :: "nat \<Rightarrow> nat \<Rightarrow> uint32 \<Rightarrow> 'z proctab_scheme \<Rightarrow> (int \<times> 'z proctab_scheme) res" where
  "kill_scan 0 p pid s = Ok (-1, s)"
| "kill_scan (Suc n) p pid s =
     bnd (acquire (PROC p) s) (\<lambda>s.
     if p_pid (procs s p) = pid
     then let s = set_proc p (\<lambda>q. q\<lparr>p_killed := 1\<rparr>) s;
              s = (if p_state (procs s p) = SLEEPING
                   then set_proc p (\<lambda>q. q\<lparr>p_state := RUNNABLE\<rparr>) s else s)
          in bnd (release (PROC p) s) (\<lambda>s. Ok (0, s))
     else bnd (release (PROC p) s) (\<lambda>s. kill_scan n (Suc p) pid s))"

definition kill :: "uint32 \<Rightarrow> 'z proctab_scheme \<Rightarrow> (int \<times> 'z proctab_scheme) res" where
  "kill pid s = kill_scan NPROC 0 pid s"

definition setkilled :: "nat \<Rightarrow> 'z proctab_scheme \<Rightarrow> 'z proctab_scheme res" where
  "setkilled p s =
     bnd (acquire (PROC p) s) (\<lambda>s.
     let s = set_proc p (\<lambda>q. q\<lparr>p_killed := 1\<rparr>) s in release (PROC p) s)"

definition killed :: "nat \<Rightarrow> 'z proctab_scheme \<Rightarrow> (int \<times> 'z proctab_scheme) res" where
  "killed p s =
     bnd (acquire (PROC p) s) (\<lambda>s.
     let k = p_killed (procs s p) in
     bnd (release (PROC p) s) (\<lambda>s. Ok (k, s)))"

text \<open>
  \<open>while(cond) sleep(chan, lk)\<close>.
\<close>

primrec sleep_while :: "nat \<Rightarrow> 'z proctab_scheme world \<Rightarrow> ('z proctab_scheme \<Rightarrow> bool) \<Rightarrow> channel \<Rightarrow> lockid \<Rightarrow>
    'z proctab_scheme \<Rightarrow> 'z proctab_scheme res" where
  "sleep_while 0 W cond chan lk s = (if cond s then Hang else Ok s)"
| "sleep_while (Suc n) W cond chan lk s =
     (if cond s then bnd (sleep W chan lk s) (\<lambda>s. sleep_while n W cond chan lk s) else Ok s)"

section \<open>Reaping\<close>

text \<open>
  One scan of \<open>wait\<close> over the table: the result of the call when a zombie child was found, and
  whether there are children at all.
\<close>

primrec wait_scan :: "nat \<Rightarrow> nat \<Rightarrow> nat \<Rightarrow> uint64 \<Rightarrow> bool \<Rightarrow> 'z proctab_scheme \<Rightarrow>
    (int option \<times> bool \<times> 'z proctab_scheme) res" where
  "wait_scan 0 pp p addr havekids s = Ok (None, havekids, s)"
| "wait_scan (Suc n) pp p addr havekids s =
     (if p_parent (procs s pp) = Some p
      then bnd (acquire (PROC pp) s) (\<lambda>s.
        if p_state (procs s pp) = ZOMBIE
        then let pid = p_pid (procs s pp) in
             bnd (if addr \<noteq> 0
                  then copyout (p_pagetable (procs s p)) addr (nat_le 4 (unat (p_xstate (procs s pp)))) 4 s
                  else Ok (0, s)) (\<lambda>(r, s).
             if r < 0
             then bnd (release (PROC pp) s) (\<lambda>s. bnd (release WAIT_LOCK s) (\<lambda>s. Ok (Some (-1), True, s)))
             else bnd (freeproc pp s) (\<lambda>s.
                  bnd (release (PROC pp) s) (\<lambda>s.
                  bnd (release WAIT_LOCK s) (\<lambda>s. Ok (Some (sint pid), True, s)))))
        else bnd (release (PROC pp) s) (\<lambda>s. wait_scan n (Suc pp) p addr True s))
      else wait_scan n (Suc pp) p addr havekids s)"

primrec wait_loop :: "nat \<Rightarrow> 'z proctab_scheme world \<Rightarrow> nat \<Rightarrow> uint64 \<Rightarrow> 'z proctab_scheme \<Rightarrow>
    (int \<times> 'z proctab_scheme) res" where
  "wait_loop 0 W p addr s = Hang"
| "wait_loop (Suc n) W p addr s =
     bnd (wait_scan NPROC 0 p addr False s) (\<lambda>(r, havekids, s).
     case r of
       Some r \<Rightarrow> Ok (r, s)
     | None \<Rightarrow>
         bnd (if havekids then killed p s else Ok (0, s)) (\<lambda>(k, s).
         if \<not> havekids \<or> k \<noteq> 0 then bnd (release WAIT_LOCK s) (\<lambda>s. Ok (-1, s))
         else bnd (sleep W (ChProc p) WAIT_LOCK s) (\<lambda>s. wait_loop n W p addr s)))"

definition wait :: "'z proctab_scheme world \<Rightarrow> uint64 \<Rightarrow> 'z proctab_scheme \<Rightarrow> (int \<times> 'z proctab_scheme) res" where
  "wait W addr s =
     bnd (myproc s) (\<lambda>(p, s). bnd (deref p) (\<lambda>p.
     bnd (acquire WAIT_LOCK s) (\<lambda>s.
     wait_loop (Suc (rounds W)) W p addr s)))"

text \<open>Pass \<open>p\<close>'s children to \<open>init\<close>.\<close>

definition reparent :: "nat \<Rightarrow> 'z proctab_scheme \<Rightarrow> 'z proctab_scheme res" where
  "reparent p s =
     for_upto 0 NPROC (\<lambda>pp s.
       if p_parent (procs s pp) = Some p
       then let s = set_proc pp (\<lambda>q. q\<lparr>p_parent := initproc s\<rparr>) s
            in wakeup (map_option ChProc (initproc s)) s
       else Ok s) s"

section \<open>The scheduler\<close>

text \<open>
  One pass of the loop over the table in \<open>scheduler\<close>. The switch into a process and back is \<open>run\<close>.
\<close>

definition schedule_one :: "'z proctab_scheme world \<Rightarrow> nat \<Rightarrow> bool \<times> 'z proctab_scheme \<Rightarrow> (bool \<times> 'z proctab_scheme) res" where
  "schedule_one run p = (\<lambda>(found, s).
     bnd (acquire (PROC p) s) (\<lambda>s.
     if p_state (procs s p) = RUNNABLE
     then let s = set_proc p (\<lambda>q. q\<lparr>p_state := RUNNING\<rparr>) s;
              s = set_mycpu (\<lambda>c. c\<lparr>cpu_proc := Some p\<rparr>) s
          in bnd (others run s) (\<lambda>s.
             let s = set_mycpu (\<lambda>c. c\<lparr>cpu_proc := None\<rparr>) s
             in bnd (release (PROC p) s) (\<lambda>s. Ok (True, s)))
     else bnd (release (PROC p) s) (\<lambda>s. Ok (found, s))))"

text \<open>One round of \<open>scheduler\<close>: with nothing to run the hart waits for an interrupt.\<close>

definition scheduler_round :: "'z proctab_scheme world \<Rightarrow> 'z proctab_scheme \<Rightarrow> (bool \<times> 'z proctab_scheme) res" where
  "scheduler_round run s =
     (let s = intr_on s
      in bnd (for_upto 0 NPROC (schedule_one run) (False, s)) (\<lambda>(found, s).
         Ok (found, if found then s else intr_on s)))"

primrec scheduler_rounds :: "nat \<Rightarrow> 'z proctab_scheme world \<Rightarrow> 'z proctab_scheme \<Rightarrow> 'z proctab_scheme res" where
  "scheduler_rounds 0 run s = Ok s"
| "scheduler_rounds (Suc n) run s =
     bnd (scheduler_round run s) (\<lambda>(found, s). scheduler_rounds n run s)"

definition scheduler :: "nat \<Rightarrow> 'z proctab_scheme world \<Rightarrow> 'z proctab_scheme \<Rightarrow> 'z proctab_scheme res" where
  "scheduler n run s = scheduler_rounds n run (set_mycpu (\<lambda>c. c\<lparr>cpu_proc := None\<rparr>) s)"

section \<open>Copies to and from user or kernel memory\<close>

text \<open>
  Where the bytes go or come from: a user address, a kernel address, or a local object of the caller.
  Bytes for a local object are part of the result.
\<close>

datatype target = ToUser addr | ToKernel addr | ToLocal

datatype origin = FromUser addr | FromKernel addr | FromLocal "uint8 list"

fun target_add :: "target \<Rightarrow> uint64 \<Rightarrow> target" where
  "target_add (ToUser a) n = ToUser (a + n)"
| "target_add (ToKernel a) n = ToKernel (a + n)"
| "target_add ToLocal n = ToLocal"

fun origin_add :: "origin \<Rightarrow> uint64 \<Rightarrow> origin" where
  "origin_add (FromUser a) n = FromUser (a + n)"
| "origin_add (FromKernel a) n = FromKernel (a + n)"
| "origin_add (FromLocal bs) n = FromLocal (drop (unat n) bs)"

definition either_copyout :: "target \<Rightarrow> uint8 list \<Rightarrow> uint64 \<Rightarrow> 'z proctab_scheme \<Rightarrow>
    (int \<times> uint8 list \<times> 'z proctab_scheme) res" where
  "either_copyout dst src len s =
     bnd (myproc s) (\<lambda>(p, s).
     case dst of
       ToUser a \<Rightarrow> bnd (deref p) (\<lambda>p.
         bnd (copyout (p_pagetable (procs s p)) a src len s) (\<lambda>(r, s). Ok (r, [], s)))
     | ToKernel a \<Rightarrow> Ok (0, [], s\<lparr>mem := store_bytes (mem s) a (take (unat len) src)\<rparr>)
     | ToLocal \<Rightarrow> Ok (0, take (unat len) src, s))"

definition either_copyin :: "origin \<Rightarrow> uint64 \<Rightarrow> 'z proctab_scheme \<Rightarrow> (int \<times> uint8 list \<times> 'z proctab_scheme) res" where
  "either_copyin src len s =
     bnd (myproc s) (\<lambda>(p, s).
     case src of
       FromUser a \<Rightarrow> bnd (deref p) (\<lambda>p.
         bnd (copyin (p_pagetable (procs s p)) a len s) (\<lambda>(r, bs). Ok (r, bs, s)))
     | FromKernel a \<Rightarrow> Ok (0, load_bytes (mem s) a (unat len), s)
     | FromLocal bs \<Rightarrow> Ok (0, take (unat len) bs, s))"

section \<open>Critical sections on the table\<close>

lemma set_proc_simps [simp]:
  "mem (set_proc p f s) = mem s" "tp (set_proc p f s) = tp s" "cpus (set_proc p f s) = cpus s"
  "sie (set_proc p f s) = sie s" "locks (set_proc p f s) = locks s" "freelist (set_proc p f s) = freelist s"
  "procs (set_proc p f s) = (procs s)(p := f (procs s p))" "initproc (set_proc p f s) = initproc s"
  "lock_free lk (set_proc p f s) = lock_free lk s" "cpu_ok (set_proc p f s) = cpu_ok s"
  "mycpu (set_proc p f s) = mycpu s" "intr_get (set_proc p f s) = intr_get s"
  by (simp_all add: set_proc_def lock_free_def cpu_ok_def machine_ops)

lemma settle_procs [simp]:
  "procs (settle s) = procs s" "initproc (settle s) = initproc s" "nextpid (settle s) = nextpid s"
  "cpu_proc (mycpu (settle s)) = cpu_proc (mycpu s)" "noff (mycpu (settle s)) = noff (mycpu s)"
  by (simp_all add: settle_def machine_ops)

lemma set_proc_set_proc: "set_proc p f (set_proc p g s) = set_proc p (f \<circ> g) s"
  by (simp add: set_proc_def)

lemma set_proc_settle: "set_proc p f (settle s) = settle (set_proc p f s)"
  by (simp add: set_proc_def settle_def machine_ops)

lemma myproc_eq: "cpu_ok s \<Longrightarrow> myproc s = Ok (cpu_proc (mycpu s), settle s)"
  by (cases "cpus s (tp s)")
    (auto simp: myproc_def push_off_def pop_off_def settle_def cpu_ok_def machine_ops Let_def fun_eq_iff
      intro!: machine.equality)

lemma release_set_proc:
  assumes "cpu_ok s" "lock_free lk s"
  shows "release lk (set_proc p f (locking lk s)) = Ok (settle (set_proc p f s))"
  by (subst release_after [OF assms(1) _ _ _ _ assms(2)])
    (simp_all add: set_proc_def locking_def push_off_def settle_def machine_ops Let_def)

lemma release_locking:
  assumes "cpu_ok s" "lock_free lk s"
  shows "release lk (locking lk s) = Ok (settle s)"
  by (subst release_after [OF assms(1) _ _ _ _ assms(2)])
    (simp_all add: locking_def push_off_def settle_def machine_ops Let_def)

lemma locking_procs [simp]:
  "procs (locking lk s) = procs s" "initproc (locking lk s) = initproc s"
  by (simp_all add: locking_def push_off_def machine_ops Let_def)


section \<open>Waking\<close>

text \<open>What one pass of \<open>wakeup\<close> makes of an entry, and all of them of the table.\<close>

definition woken :: "channel option \<Rightarrow> proc \<Rightarrow> proc" where
  "woken chan q = (if p_state q = SLEEPING \<and> p_chan q = chan then q\<lparr>p_state := RUNNABLE\<rparr> else q)"

definition wake_table :: "channel option \<Rightarrow> nat option \<Rightarrow> nat \<Rightarrow> 'z proctab_scheme \<Rightarrow> 'z proctab_scheme" where
  "wake_table chan me n s = s\<lparr>procs := (\<lambda>p. if p < n \<and> me \<noteq> Some p then woken chan (procs s p) else procs s p)\<rparr>"

lemma wake_table_0 [simp]: "wake_table chan me 0 s = s"
  by (simp add: wake_table_def)

lemma wake_table_simps [simp]:
  "cpu_ok (wake_table chan me n s) = cpu_ok s" "lock_free lk (wake_table chan me n s) = lock_free lk s"
  "mycpu (wake_table chan me n s) = mycpu s"
  by (simp_all add: wake_table_def lock_free_def cpu_ok_def machine_ops)

lemma wakeup_one_eq:
  assumes "cpu_ok s" "me = cpu_proc (mycpu s)" "me \<noteq> Some p \<longrightarrow> lock_free (PROC p) s"
  shows "wakeup_one chan p s = Ok (settle (if me = Some p then s else set_proc p (woken chan) s))"
proof (cases "me = Some p")
  case True
  with assms show ?thesis by (simp add: wakeup_one_def myproc_eq)
next
  case False
  let ?t = "locking (PROC p) (settle s)"
  have body: "(if p_state (procs ?t p) = SLEEPING \<and> p_chan (procs ?t p) = chan
       then set_proc p (\<lambda>q. q\<lparr>p_state := RUNNABLE\<rparr>) ?t else ?t) = set_proc p (woken chan) ?t"
    by (auto simp: set_proc_def woken_def)
  have lf: "lock_free (PROC p) (settle s)" "cpu_ok (settle s)" using assms False by simp_all
  have "wakeup_one chan p s = release (PROC p) (set_proc p (woken chan) ?t)"
    using False assms lf unfolding wakeup_one_def
    by (simp only: myproc_eq [OF assms(1)] bnd.simps prod.case if_False acquire_free [OF lf(1)] Let_def body)
  also have "\<dots> = Ok (settle (set_proc p (woken chan) (settle s)))" by (rule release_set_proc [OF lf(2,1)])
  finally show ?thesis using False by (simp add: set_proc_settle)
qed

lemma wakeup_eq:
  assumes "cpu_ok s" "me = cpu_proc (mycpu s)" "\<And>p. p < NPROC \<Longrightarrow> me \<noteq> Some p \<Longrightarrow> lock_free (PROC p) s"
  shows "wakeup chan s = Ok (settle (wake_table chan me NPROC s))"
proof -
  let ?P = "\<lambda>n t. t = (if n = 0 then s else settle (wake_table chan me n s))"
  have "\<exists>s'. for_upto 0 NPROC (wakeup_one chan) s = Ok s' \<and> ?P NPROC s'"
  proof (rule for_upto_total [where P = ?P])
    fix j t
    assume j: "j < NPROC" and t: "?P j t"
    let ?w = "wake_table chan me j s"
    have st: "t = ?w \<or> t = settle ?w" using t by (auto split: if_splits)
    then have t': "cpu_ok t" "me = cpu_proc (mycpu t)" "me \<noteq> Some j \<longrightarrow> lock_free (PROC j) t"
      using assms j by auto
    have "wake_table chan me (Suc j) s = (if me = Some j then ?w else set_proc j (woken chan) ?w)"
      by (auto simp: wake_table_def set_proc_def fun_eq_iff less_Suc_eq)
    moreover have "settle (if me = Some j then t else set_proc j (woken chan) t)
        = settle (if me = Some j then ?w else set_proc j (woken chan) ?w)"
      using st by (auto simp: set_proc_settle)
    ultimately show "\<exists>t'. wakeup_one chan j t = Ok t' \<and> ?P (Suc j) t'"
      using wakeup_one_eq [OF t'] by simp
  qed simp_all
  then show ?thesis by (simp add: wakeup_def)
qed


lemma mem_wake [simp]: "mem (wake_table chan me n s) = mem s"
  by (simp add: wake_table_def)

lemma settle_wake_table: "wake_table chan me n (settle s) = settle (wake_table chan me n s)"
  by (simp add: wake_table_def settle_def machine_ops cong: if_cong)

lemma release_wake:
  assumes "cpu_ok s" "lock_free lk s"
  shows "release lk (wake_table chan me n ((locking lk s)\<lparr>mem := m\<rparr>)) = Ok (settle (wake_table chan me n (s\<lparr>mem := m\<rparr>)))"
  by (subst release_after [OF assms(1) _ _ _ _ assms(2)])
    (simp_all add: wake_table_def locking_def push_off_def settle_def machine_ops Let_def cong: if_cong)

text \<open>Waking finds every lock it needs free.\<close>

definition can_wake :: "'z proctab_scheme \<Rightarrow> bool" where
  "can_wake s \<longleftrightarrow> cpu_ok s \<and> (\<forall>p<NPROC. cpu_proc (mycpu s) \<noteq> Some p \<longrightarrow> lock_free (PROC p) s)"

lemma wakeup_can: "can_wake s \<Longrightarrow> wakeup chan s = Ok (settle (wake_table chan (cpu_proc (mycpu s)) NPROC s))"
  by (rule wakeup_eq) (auto simp: can_wake_def)

lemma can_wake_settle [simp]: "can_wake (settle s) = can_wake s"
  by (simp add: can_wake_def)

lemma can_wake_table [simp]: "can_wake (wake_table chan me n s) = can_wake s"
  by (simp add: can_wake_def)

section \<open>Killing\<close>

lemma killed_eq: "cpu_ok s \<Longrightarrow> lock_free (PROC p) s \<Longrightarrow> killed p s = Ok (p_killed (procs s p), settle s)"
  unfolding killed_def by (simp add: acquire_free release_locking Let_def)


definition kill_mark :: "proc \<Rightarrow> proc" where
  "kill_mark q = q\<lparr>p_killed := 1, p_state := (if p_state q = SLEEPING then RUNNABLE else p_state q)\<rparr>"

lemma kill_scan_eq:
  assumes "cpu_ok s" "\<And>q. p \<le> q \<Longrightarrow> q < p + n \<Longrightarrow> lock_free (PROC q) s"
  shows "kill_scan n p pid s =
     (case find (\<lambda>q. p_pid (procs s q) = pid) [p..<p + n] of
        Some q \<Rightarrow> Ok (0, settle (set_proc q kill_mark s))
      | None \<Rightarrow> Ok (-1, if n = 0 then s else settle s))"
  using assms
proof (induction n arbitrary: p s)
  case (Suc n)
  let ?t = "locking (PROC p) s"
  have lf: "lock_free (PROC p) s" using Suc.prems(2) [of p] by simp
  have acq: "acquire (PROC p) s = Ok ?t" by (rule acquire_free [OF lf])
  have mark: "set_proc p kill_mark s = (if p_state (procs s p) = SLEEPING
      then set_proc p ((\<lambda>q. q\<lparr>p_state := RUNNABLE\<rparr>) \<circ> (\<lambda>q. q\<lparr>p_killed := 1\<rparr>)) s
      else set_proc p (\<lambda>q. q\<lparr>p_killed := 1\<rparr>) s)"
    by (simp add: set_proc_def kill_mark_def)
  have upt: "[p..<p + Suc n] = p # [Suc p..<Suc p + n]" by (simp add: upt_rec)
  show ?case
  proof (cases "p_pid (procs s p) = pid")
    case True
    then show ?thesis
      unfolding kill_scan.simps acq upt
      by (simp add: Let_def mark set_proc_set_proc release_set_proc [OF Suc.prems(1) lf])
  next
    case False
    have "kill_scan n (Suc p) pid (settle s) = (case find (\<lambda>q. p_pid (procs s q) = pid) [Suc p..<Suc p + n] of
        Some q \<Rightarrow> Ok (0, settle (set_proc q kill_mark s)) | None \<Rightarrow> Ok (-1, settle s))"
      using Suc.IH [of "settle s" "Suc p"] Suc.prems by (simp add: set_proc_settle split: option.split)
    then show ?thesis using False
      unfolding kill_scan.simps acq upt by (simp add: release_locking [OF Suc.prems(1) lf])
  qed
qed simp

lemma kill_eq:
  assumes "cpu_ok s" "\<And>q. q < NPROC \<Longrightarrow> lock_free (PROC q) s"
  shows "kill pid s =
     (case find (\<lambda>q. p_pid (procs s q) = pid) [0..<NPROC] of
        Some q \<Rightarrow> Ok (0, settle (set_proc q kill_mark s))
      | None \<Rightarrow> Ok (-1, settle s))"
  using kill_scan_eq [of s 0 NPROC pid] assms by (simp add: kill_def)

section \<open>Properties\<close>

text \<open>A system in which nothing else happens.\<close>

definition idle_world :: "'s world" where
  "idle_world = \<lparr>others = Ok, rounds = 0\<rparr>"

text \<open>A table in which nobody holds a lock, process 0 runs, and process 3 sleeps on the clock.\<close>

definition sample_proc :: proc where
  "sample_proc = \<lparr>p_state = UNUSED, p_chan = None, p_killed = 0, p_xstate = 0, p_pid = 0, p_parent = None,
     p_kstack = 0, p_sz = 0, p_pagetable = 0, p_trapframe = 0,
     p_context = \<lparr>ctx_ra = 0, ctx_sp = 0, ctx_s = []\<rparr>, p_ofile = (\<lambda>_. None), p_cwd = None, p_name = replicate 16 0\<rparr>"

definition sample_procs :: proctab where
  "sample_procs = \<lparr>mem = (\<lambda>_. 0), tp = 0,
     cpus = (\<lambda>_. \<lparr>cpu_proc = Some 0, noff = 0, intena = False\<rparr>), sie = (\<lambda>_. True),
     locks = (\<lambda>_. \<lparr>locked = 0, lk_cpu = None\<rparr>), freelist = 0, kernel_end = 0,
     kernel_pagetable = 0, etext = 0, trampoline = 0, satp = (\<lambda>_. 0),
     procs = (\<lambda>_. sample_proc)(0 := sample_proc\<lparr>p_state := RUNNING, p_pid := 1\<rparr>,
       3 := sample_proc\<lparr>p_state := SLEEPING, p_chan := Some ChTicks, p_pid := 2\<rparr>),
     initproc = Some 0, nextpid = 3, forkret_addr = 0\<rparr>"

lemma sample_procs_ok: "cpu_ok sample_procs" "lock_free lk sample_procs"
  by (simp_all add: sample_procs_def cpu_ok_def lock_free_def machine_ops)

text \<open>
  C21. \<open>wakeup\<close> makes exactly the processes that sleep on the channel runnable, the caller excepted, and
  changes nothing else: not another field of theirs, not another process, and the locks it took are
  free again.
\<close>

theorem wakeup_correct:
  assumes "cpu_ok s" "\<And>p. p < NPROC \<Longrightarrow> cpu_proc (mycpu s) \<noteq> Some p \<Longrightarrow> lock_free (PROC p) s"
  shows "\<exists>s'. wakeup chan s = Ok s' \<and> s' = settle (s\<lparr>procs := procs s'\<rparr>)
    \<and> (\<forall>p. procs s' p =
        (if p < NPROC \<and> cpu_proc (mycpu s) \<noteq> Some p \<and> p_state (procs s p) = SLEEPING \<and> p_chan (procs s p) = chan
         then (procs s p)\<lparr>p_state := RUNNABLE\<rparr> else procs s p))"
  using wakeup_eq [OF assms(1) refl assms(2), of chan] by (simp add: wake_table_def woken_def)

theorem wakeup_correct_witness:
  "\<exists>s'. wakeup (Some ChTicks) sample_procs = Ok s' \<and> p_state (procs s' 3) = RUNNABLE \<and> p_state (procs s' 0) = RUNNING"
  using wakeup_correct [of sample_procs "Some ChTicks"] sample_procs_ok
  by (auto simp: sample_procs_def machine_ops)

lemma kill_first:
  assumes "cpu_ok s" "\<And>p. p < NPROC \<Longrightarrow> lock_free (PROC p) s"
  shows "if \<forall>p<NPROC. p_pid (procs s p) \<noteq> pid then kill pid s = Ok (-1, settle s)
    else \<exists>p<NPROC. p_pid (procs s p) = pid \<and> (\<forall>q<p. p_pid (procs s q) \<noteq> pid)
      \<and> kill pid s = Ok (0, settle (set_proc p (\<lambda>q. q\<lparr>p_killed := 1,
          p_state := (if p_state q = SLEEPING then RUNNABLE else p_state q)\<rparr>) s))"
proof (cases "find (\<lambda>q. p_pid (procs s q) = pid) [0..<NPROC]")
  case None
  then have "\<forall>p<NPROC. p_pid (procs s p) \<noteq> pid" by (auto simp: find_None_iff)
  then show ?thesis using kill_eq [OF assms, of pid] None by simp
next
  case (Some p)
  then have p: "p < NPROC" "p_pid (procs s p) = pid" "\<And>q. q < p \<Longrightarrow> p_pid (procs s q) \<noteq> pid"
    by (auto simp: find_Some_iff)
  moreover have "(\<lambda>q. q\<lparr>p_killed := 1, p_state := (if p_state q = SLEEPING then RUNNABLE else p_state q)\<rparr>) = kill_mark"
    by (simp add: kill_mark_def fun_eq_iff)
  ultimately show ?thesis using kill_eq [OF assms, of pid] Some by auto
qed

text \<open>
  C22. \<open>kill\<close> marks the first entry with the given pid, wakes it if it sleeps, and returns 0; without
  such an entry it returns -1 and changes nothing. In a table whose unused entries are those with pid 0,
  and that has one, \<open>kill(0)\<close> succeeds and marks an unused entry.
\<close>

theorem kill_correct:
  assumes "cpu_ok s" "\<And>p. p < NPROC \<Longrightarrow> lock_free (PROC p) s"
  shows "(if \<forall>p<NPROC. p_pid (procs s p) \<noteq> pid then kill pid s = Ok (-1, settle s)
    else \<exists>p<NPROC. p_pid (procs s p) = pid \<and> (\<forall>q<p. p_pid (procs s q) \<noteq> pid)
      \<and> kill pid s = Ok (0, settle (set_proc p (\<lambda>q. q\<lparr>p_killed := 1,
          p_state := (if p_state q = SLEEPING then RUNNABLE else p_state q)\<rparr>) s)))
   \<and> ((\<forall>p<NPROC. p_pid (procs s p) = 0 \<longleftrightarrow> p_state (procs s p) = UNUSED) \<and> (\<exists>p<NPROC. p_state (procs s p) = UNUSED) \<longrightarrow>
      (\<exists>p<NPROC. p_state (procs s p) = UNUSED \<and> kill 0 s = Ok (0, settle (set_proc p (\<lambda>q. q\<lparr>p_killed := 1\<rparr>) s))))"
proof (intro conjI impI)
  show "if \<forall>p<NPROC. p_pid (procs s p) \<noteq> pid then kill pid s = Ok (-1, settle s)
    else \<exists>p<NPROC. p_pid (procs s p) = pid \<and> (\<forall>q<p. p_pid (procs s q) \<noteq> pid)
      \<and> kill pid s = Ok (0, settle (set_proc p (\<lambda>q. q\<lparr>p_killed := 1,
          p_state := (if p_state q = SLEEPING then RUNNABLE else p_state q)\<rparr>) s))"
    using kill_first [OF assms, of pid] .
  assume u: "(\<forall>p<NPROC. p_pid (procs s p) = 0 \<longleftrightarrow> p_state (procs s p) = UNUSED) \<and> (\<exists>p<NPROC. p_state (procs s p) = UNUSED)"
  then have "\<not> (\<forall>p<NPROC. p_pid (procs s p) \<noteq> 0)" by blast
  then obtain p where p: "p < NPROC" "p_pid (procs s p) = 0" "kill 0 s = Ok (0, settle (set_proc p (\<lambda>q. q\<lparr>p_killed := 1,
          p_state := (if p_state q = SLEEPING then RUNNABLE else p_state q)\<rparr>) s))"
    using kill_first [OF assms, of 0] by (simp only: if_False) blast
  moreover have "p_state (procs s p) = UNUSED" using u p(1,2) by blast
  moreover from this have "(procs s p)\<lparr>p_killed := 1, p_state := UNUSED\<rparr> = (procs s p)\<lparr>p_killed := 1\<rparr>" by (cases "procs s p") simp
  ultimately show "\<exists>p<NPROC. p_state (procs s p) = UNUSED \<and> kill 0 s = Ok (0, settle (set_proc p (\<lambda>q. q\<lparr>p_killed := 1\<rparr>) s))"
    by (intro exI [of _ p]) (simp add: set_proc_def)
qed

theorem kill_correct_witness:
  "\<exists>p s'. p < NPROC \<and> kill 0 sample_procs = Ok (0, s') \<and> p_state (procs s' p) = UNUSED \<and> p_killed (procs s' p) = 1"
proof -
  have "p_pid (procs sample_procs p) = 0 \<longleftrightarrow> p_state (procs sample_procs p) = UNUSED" for p
    by (simp add: sample_procs_def sample_proc_def)
  moreover have "p_state (procs sample_procs 1) = UNUSED" by (simp add: sample_procs_def sample_proc_def)
  then have "\<exists>p<NPROC. p_state (procs sample_procs p) = UNUSED" by (intro exI [of _ 1]) simp
  ultimately obtain p where "p < NPROC" "p_state (procs sample_procs p) = UNUSED"
    "kill 0 sample_procs = Ok (0, settle (set_proc p (\<lambda>q. q\<lparr>p_killed := 1\<rparr>) sample_procs))"
    using kill_correct [of sample_procs 0, OF sample_procs_ok] by blast
  then show ?thesis by (intro exI [of _ p]) auto
qed

end
