(* ===== verification/Ring.thy ===== *)
theory Ring
  imports Prelude
begin

text \<open>
  The interface of the kernel's ring buffers: running read and write indices of a fixed width, taken
  modulo the size of the buffer, which divides the range of the indices. Whatever satisfies it is a
  bounded first-in first-out queue. Pipes and the transmit buffer of the serial port interpret it.
\<close>

lemma mod_word_add:
  fixes x :: "'w :: len word" and cap :: nat
  assumes "cap dvd 2 ^ LENGTH('w)"
  shows "unat (x + of_nat i) mod cap = (unat x + i) mod cap"
proof -
  have "unat (x + of_nat i) mod cap = ((unat x + i) mod 2 ^ LENGTH('w)) mod cap"
    by (simp add: unat_word_ariths unat_of_nat mod_simps)
  then show ?thesis using assms by (simp add: mod_mod_cancel)
qed

lemma unat_of_nat_len: "n < 2 ^ LENGTH('w) \<Longrightarrow> unat (of_nat n :: 'w :: len word) = n"
  by (simp add: unat_of_nat)

lemma mod_add_left_neq:
  fixes a :: nat
  assumes "i < n" "n < cap"
  shows "(a + i) mod cap \<noteq> (a + n) mod cap"
proof
  assume "(a + i) mod cap = (a + n) mod cap"
  then have "cap dvd (a + n) - (a + i)" using assms
    by (metis add_le_cancel_left less_imp_le mod_eq_dvd_iff_nat)
  then show False using assms by (auto dest: dvd_imp_le)
qed

locale ring =
  fixes slot :: "'s \<Rightarrow> nat \<Rightarrow> 'a"
    and rd :: "'s \<Rightarrow> 'w :: len word"
    and wr :: "'s \<Rightarrow> 'w word"
    and cap :: nat
    and put :: "'a \<Rightarrow> 's \<Rightarrow> 's"
    and get :: "'s \<Rightarrow> 's"
  assumes cap_pos: "0 < cap" and cap_dvd: "cap dvd 2 ^ LENGTH('w)" and cap_less: "cap < 2 ^ LENGTH('w)"
    and rd_put [simp]: "rd (put c s) = rd s" and wr_put [simp]: "wr (put c s) = wr s + 1"
    and slot_put: "i < cap \<Longrightarrow> slot (put c s) i = (if i = unat (wr s) mod cap then c else slot s i)"
    and rd_get [simp]: "rd (get s) = rd s + 1" and wr_get [simp]: "wr (get s) = wr s"
    and slot_get: "i < cap \<Longrightarrow> slot (get s) i = slot s i"
begin

definition count :: "'s \<Rightarrow> nat" where
  "count s = unat (wr s - rd s)"

definition contents :: "'s \<Rightarrow> 'a list" where
  "contents s = map (\<lambda>i. slot s ((unat (rd s) + i) mod cap)) [0..<count s]"

definition bounded :: "'s \<Rightarrow> bool" where
  "bounded s \<longleftrightarrow> count s \<le> cap"

lemma length_contents [simp]: "length (contents s) = count s"
  by (simp add: contents_def)

lemma wr_rd: "wr s = rd s + of_nat (count s)"
  by (simp add: count_def)

lemma empty_iff: "wr s = rd s \<longleftrightarrow> contents s = []"
  by (auto simp: contents_def count_def unat_eq_zero)

lemma count_0_iff: "count s = 0 \<longleftrightarrow> wr s = rd s"
  by (auto simp: count_def unat_eq_zero)

lemma full_iff: "bounded s \<Longrightarrow> wr s = rd s + of_nat cap \<longleftrightarrow> count s = cap"
proof -
  have "wr s = rd s + of_nat cap \<longleftrightarrow> of_nat (count s) = (of_nat cap :: 'w word)" by (simp add: wr_rd)
  also have "\<dots> \<longleftrightarrow> count s = cap" if "bounded s"
  proof -
    have "count s < 2 ^ LENGTH('w)" using that cap_less by (simp add: bounded_def)
    then show ?thesis using cap_less by (metis of_nat_inverse)
  qed
  finally show "bounded s \<Longrightarrow> ?thesis" by simp
qed

lemma count_put: "count s < cap \<Longrightarrow> count (put c s) = Suc (count s)"
proof -
  assume a: "count s < cap"
  have "wr (put c s) - rd (put c s) = of_nat (Suc (count s))" by (simp add: wr_rd [of s])
  then have "count (put c s) = unat (of_nat (Suc (count s)) :: 'w word)" unfolding count_def by (rule arg_cong)
  then show ?thesis using a cap_less by (simp add: unat_of_nat_len del: of_nat_Suc)
qed

lemma contents_put: "count s < cap \<Longrightarrow> contents (put c s) = contents s @ [c]"
proof -
  assume a: "count s < cap"
  have w: "unat (wr s) mod cap = (unat (rd s) + count s) mod cap"
    unfolding wr_rd [of s] by (rule mod_word_add [OF cap_dvd])
  have ne: "(unat (rd s) + i) mod cap \<noteq> (unat (rd s) + count s) mod cap" if "i < count s" for i
    using that a cap_pos by (simp add: mod_add_left_neq)
  show ?thesis using a w ne cap_pos
    by (simp add: contents_def count_put slot_put)
qed

lemma bounded_put: "count s < cap \<Longrightarrow> bounded (put c s)"
  by (simp add: bounded_def count_put)

lemma count_get: "count s \<noteq> 0 \<Longrightarrow> count (get s) = count s - 1"
proof -
  assume a: "count s \<noteq> 0"
  then obtain n where n: "count s = Suc n" by (cases "count s") auto
  have "count s < 2 ^ LENGTH('w)" by (simp add: count_def)
  then have "n < 2 ^ LENGTH('w)" using n by simp
  moreover have "wr (get s) - rd (get s) = of_nat n" by (simp add: wr_rd [of s] n)
  then have "count (get s) = unat (of_nat n :: 'w word)" unfolding count_def by (rule arg_cong)
  ultimately show ?thesis using n by (simp add: unat_of_nat_len)
qed

lemma contents_get:
  assumes "count s \<noteq> 0"
  shows "contents s = slot s (unat (rd s) mod cap) # contents (get s)"
proof -
  have i: "(unat (rd s + 1) + i) mod cap = (unat (rd s) + Suc i) mod cap" for i
    using mod_word_add [OF cap_dvd, of "rd s" 1] by (metis add_Suc_right add_Suc_shift mod_add_cong of_nat_1 plus_1_eq_Suc add.commute)
  have "contents s = slot s (unat (rd s) mod cap) #
      map (\<lambda>i. slot s ((unat (rd s) + Suc i) mod cap)) [0..<count s - 1]"
    using assms by (cases "count s") (simp_all add: contents_def upt_conv_Cons map_Suc_upt [symmetric] del: upt_Suc)
  then show ?thesis using assms cap_pos by (simp add: contents_def count_get slot_get i)
qed

lemma bounded_get: "count s \<noteq> 0 \<Longrightarrow> bounded s \<Longrightarrow> bounded (get s)"
  by (simp add: bounded_def count_get)

end

end
