(* ===== verification/Uart.thy ===== *)
theory Uart
  imports Proc Ring
begin

text \<open>
  The serial port (\<open>kernel/uart.c\<close>) and \<open>consputc\<close> of \<open>kernel/console.c\<close>. The value the device gives to
  the \<open>n\<close>-th register read is \<open>uart_in n\<close>, a parameter of the state; register writes are recorded in
  \<open>uart_out\<close>, the newest last.
\<close>

section \<open>State\<close>

abbreviation UART_TX_BUF_SIZE :: nat where "UART_TX_BUF_SIZE \<equiv> 32"
abbreviation INPUT_BUF_SIZE :: nat where "INPUT_BUF_SIZE \<equiv> 128"

datatype uart_reg = RHR_THR | IER | FCR_ISR | LCR | LSR

record consdev = proctab +
  uart_in :: "nat \<Rightarrow> uart_reg \<Rightarrow> uint8"
  uart_reads :: nat
  uart_out :: "(uart_reg \<times> uint8) list"
  uart_tx_buf :: "nat \<Rightarrow> uint8"
  uart_tx_w :: uint64
  uart_tx_r :: uint64
  panicked :: bool
  pr_locking :: bool
  cons_buf :: "nat \<Rightarrow> uint8"
  cons_r :: uint32
  cons_w :: uint32
  cons_e :: uint32
  devsw :: "nat \<Rightarrow> bool"

text \<open>
  \<open>devsw n\<close> tells whether major number \<open>n\<close> has read and write functions; the console's are the only
  ones there are.
\<close>

definition IER_RX_ENABLE :: uint8 where "IER_RX_ENABLE = 1"
definition IER_TX_ENABLE :: uint8 where "IER_TX_ENABLE = 2"
definition FCR_FIFO_ENABLE :: uint8 where "FCR_FIFO_ENABLE = 1"
definition FCR_FIFO_CLEAR :: uint8 where "FCR_FIFO_CLEAR = 6"
definition LCR_EIGHT_BITS :: uint8 where "LCR_EIGHT_BITS = 3"
definition LCR_BAUD_LATCH :: uint8 where "LCR_BAUD_LATCH = 128"
definition LSR_RX_READY :: uint8 where "LSR_RX_READY = 1"
definition LSR_TX_IDLE :: uint8 where "LSR_TX_IDLE = 32"

definition ReadReg :: "uart_reg \<Rightarrow> 'z consdev_scheme \<Rightarrow> uint8 \<times> 'z consdev_scheme" where
  "ReadReg r s = (uart_in s (uart_reads s) r, s\<lparr>uart_reads := uart_reads s + 1\<rparr>)"

definition WriteReg :: "uart_reg \<Rightarrow> uint8 \<Rightarrow> 'z consdev_scheme \<Rightarrow> 'z consdev_scheme" where
  "WriteReg r v s = s\<lparr>uart_out := uart_out s @ [(r, v)]\<rparr>"

section \<open>Operations\<close>

definition uartinit :: "'z consdev_scheme \<Rightarrow> 'z consdev_scheme" where
  "uartinit s =
     (let s = WriteReg IER 0 s;
          s = WriteReg LCR LCR_BAUD_LATCH s;
          s = WriteReg RHR_THR 3 s;
          s = WriteReg IER 0 s;
          s = WriteReg LCR LCR_EIGHT_BITS s;
          s = WriteReg FCR_ISR (FCR_FIFO_ENABLE OR FCR_FIFO_CLEAR) s;
          s = WriteReg IER (IER_TX_ENABLE OR IER_RX_ENABLE) s
      in initlock UART_TX s)"

text \<open>Storing a byte in the transmit buffer, and taking the oldest one out.\<close>

definition tx_put :: "uint8 \<Rightarrow> 'z consdev_scheme \<Rightarrow> 'z consdev_scheme" where
  "tx_put c s =
     (let s = s\<lparr>uart_tx_buf := (uart_tx_buf s)(unat (uart_tx_w s) mod UART_TX_BUF_SIZE := c)\<rparr>
      in s\<lparr>uart_tx_w := uart_tx_w s + 1\<rparr>)"

definition tx_get :: "'z consdev_scheme \<Rightarrow> uint8 \<times> 'z consdev_scheme" where
  "tx_get s =
     (uart_tx_buf s (unat (uart_tx_r s) mod UART_TX_BUF_SIZE), s\<lparr>uart_tx_r := uart_tx_r s + 1\<rparr>)"

text \<open>
  The loop of \<open>uartstart\<close>; the bound is the number of bytes in the transmit buffer, each pass takes
  one out.
\<close>

primrec uartstart_loop :: "nat \<Rightarrow> 'z consdev_scheme \<Rightarrow> 'z consdev_scheme res" where
  "uartstart_loop 0 s = (if uart_tx_w s = uart_tx_r s then Ok (snd (ReadReg FCR_ISR s)) else Hang)"
| "uartstart_loop (Suc n) s =
     (if uart_tx_w s = uart_tx_r s then Ok (snd (ReadReg FCR_ISR s))
      else let (lsr, s) = ReadReg LSR s
           in if lsr AND LSR_TX_IDLE = 0 then Ok s
              else let (c, s) = tx_get s
                   in bnd (wakeup (Some ChUart) s) (\<lambda>s. uartstart_loop n (WriteReg RHR_THR c s)))"

definition uartstart :: "'z consdev_scheme \<Rightarrow> 'z consdev_scheme res" where
  "uartstart s = uartstart_loop (unat (uart_tx_w s - uart_tx_r s)) s"

definition uartputc :: "'z consdev_scheme world \<Rightarrow> uint8 \<Rightarrow> 'z consdev_scheme \<Rightarrow> 'z consdev_scheme res" where
  "uartputc W c s =
     bnd (acquire UART_TX s) (\<lambda>s.
     if panicked s then Hang
     else bnd (sleep_while (rounds W) W (\<lambda>s. uart_tx_w s = uart_tx_r s + of_nat UART_TX_BUF_SIZE) ChUart UART_TX s) (\<lambda>s.
       bnd (uartstart (tx_put c s)) (\<lambda>s.
       release UART_TX s)))"

text \<open>
  The number of the first read of \<open>LSR\<close>, from the \<open>n\<close>-th on, that shows the transmitter idle; the
  polling loop does not end when there is none.
\<close>

partial_function (option) poll_idle :: "(nat \<Rightarrow> uart_reg \<Rightarrow> uint8) \<Rightarrow> nat \<Rightarrow> nat option" where
  "poll_idle dev n = (if dev n LSR AND LSR_TX_IDLE = 0 then poll_idle dev (n + 1) else Some n)"

definition uartputc_sync :: "uint8 \<Rightarrow> 'z consdev_scheme \<Rightarrow> 'z consdev_scheme res" where
  "uartputc_sync c s =
     (let s = push_off s
      in if panicked s then Hang
         else case poll_idle (uart_in s) (uart_reads s) of
                None \<Rightarrow> Hang
              | Some n \<Rightarrow> pop_off (WriteReg RHR_THR c (s\<lparr>uart_reads := n + 1\<rparr>)))"

definition uartgetc :: "'z consdev_scheme \<Rightarrow> int \<times> 'z consdev_scheme" where
  "uartgetc s =
     (let (lsr, s) = ReadReg LSR s
      in if lsr AND LSR_RX_READY \<noteq> 0
         then let (c, s) = ReadReg RHR_THR s in (uint c, s)
         else (-1, s))"

definition BACKSPACE :: int where "BACKSPACE = 0x100"

definition consputc :: "int \<Rightarrow> 'z consdev_scheme \<Rightarrow> 'z consdev_scheme res" where
  "consputc c s =
     (if c = BACKSPACE
      then bnd (uartputc_sync 8 s) (\<lambda>s. bnd (uartputc_sync 32 s) (\<lambda>s. uartputc_sync 8 s))
      else uartputc_sync (of_int c) s)"

section \<open>The transmit buffer as a queue\<close>

definition tx_slot :: "'z consdev_scheme \<Rightarrow> nat \<Rightarrow> uint8" where
  "tx_slot s i = uart_tx_buf s i"

interpretation tx: ring "tx_slot :: 'z consdev_scheme \<Rightarrow> nat \<Rightarrow> uint8" uart_tx_r uart_tx_w 32 tx_put "\<lambda>s. snd (tx_get s)"
  by unfold_locales (auto simp: tx_slot_def tx_put_def tx_get_def Let_def)

lemma settle_uart [simp]:
  "uart_in (settle s) = uart_in s" "uart_reads (settle s) = uart_reads s" "uart_out (settle s) = uart_out s"
  "uart_tx_buf (settle s) = uart_tx_buf s" "uart_tx_w (settle s) = uart_tx_w s" "uart_tx_r (settle s) = uart_tx_r s"
  by (simp_all add: settle_def machine_ops)

lemma wake_table_uart [simp]:
  "uart_in (wake_table chan me n s) = uart_in s" "uart_reads (wake_table chan me n s) = uart_reads s"
  "uart_out (wake_table chan me n s) = uart_out s" "uart_tx_buf (wake_table chan me n s) = uart_tx_buf s"
  "uart_tx_w (wake_table chan me n s) = uart_tx_w s" "uart_tx_r (wake_table chan me n s) = uart_tx_r s"
  by (simp_all add: wake_table_def)

lemma tx_frame:
  assumes "uart_tx_buf t = uart_tx_buf s" "uart_tx_w t = uart_tx_w s" "uart_tx_r t = uart_tx_r s"
  shows "tx.contents t = tx.contents s" "tx.count t = tx.count s"
  using assms by (simp_all add: tx.contents_def tx.count_def tx_slot_def)

lemma can_wake_frame:
  "can_wake (WriteReg r v s) = can_wake s" "can_wake (s\<lparr>uart_reads := k\<rparr>) = can_wake s"
  "can_wake (s\<lparr>uart_tx_r := x\<rparr>) = can_wake s" "can_wake (s\<lparr>uart_tx_w := x\<rparr>) = can_wake s"
  "can_wake (s\<lparr>uart_tx_buf := b\<rparr>) = can_wake s"
  by (simp_all add: can_wake_def) (simp_all add: WriteReg_def cpu_ok_def lock_free_def machine_ops)

text \<open>How many of the next \<open>m\<close> status reads, from the \<open>n\<close>-th on, show the transmitter idle before one does not.\<close>

primrec idle_reads :: "(nat \<Rightarrow> uart_reg \<Rightarrow> uint8) \<Rightarrow> nat \<Rightarrow> nat \<Rightarrow> nat" where
  "idle_reads dev n 0 = 0"
| "idle_reads dev n (Suc m) = (if dev n LSR AND LSR_TX_IDLE = 0 then 0 else Suc (idle_reads dev (Suc n) m))"

lemma uartstart_loop_sends:
  assumes "can_wake s" "tx.count s = n" "k = idle_reads (uart_in s) (uart_reads s) n"
  shows "\<exists>s'. uartstart_loop n s = Ok s' \<and> uart_out s' = uart_out s @ map (Pair RHR_THR) (take k (tx.contents s))
    \<and> tx.contents s' = drop k (tx.contents s) \<and> can_wake s'"
  using assms
proof (induction n arbitrary: s k)
  case 0
  then have "uart_tx_w s = uart_tx_r s" by (simp add: tx.count_0_iff)
  moreover have "tx.contents (snd (ReadReg FCR_ISR s)) = tx.contents s" by (rule tx_frame) (simp_all add: ReadReg_def)
  ultimately show ?case using 0 by (simp add: ReadReg_def can_wake_frame)
next
  case (Suc n)
  have ne: "uart_tx_w s \<noteq> uart_tx_r s" using Suc.prems(2) tx.count_0_iff [of s] by auto
  let ?r = "s\<lparr>uart_reads := uart_reads s + 1\<rparr>"
  have r: "tx.contents ?r = tx.contents s" "tx.count ?r = tx.count s" by (rule tx_frame, simp_all)+
  show ?case
  proof (cases "uart_in s (uart_reads s) LSR AND LSR_TX_IDLE = 0")
    case True
    then show ?thesis using ne Suc.prems r by (simp add: ReadReg_def can_wake_frame)
  next
    case False
    let ?g = "snd (tx_get ?r)"
    let ?w = "settle (wake_table (Some ChUart) (cpu_proc (mycpu ?g)) NPROC ?g)"
    let ?t = "WriteReg RHR_THR (fst (tx_get ?r)) ?w"
    have g: "tx.contents s = fst (tx_get ?r) # tx.contents ?g" "tx.count ?g = n"
      using tx.contents_get [of ?r] tx.count_get [of ?r] r Suc.prems(2) by (simp_all add: tx_get_def tx_slot_def)
    have t: "tx.contents ?t = tx.contents ?g" "tx.count ?t = tx.count ?g"
      by (rule tx_frame, simp_all add: WriteReg_def)+
    have cw: "can_wake ?g" "can_wake ?t" using Suc.prems(1) by (simp_all add: can_wake_frame tx_get_def)
    have step: "uartstart_loop (Suc n) s = uartstart_loop n ?t"
      using ne False wakeup_can [OF cw(1)] by (simp add: ReadReg_def case_prod_beta)
    obtain j where k: "k = Suc j" "j = idle_reads (uart_in ?t) (uart_reads ?t) n"
      using Suc.prems(3) False by (simp add: WriteReg_def tx_get_def)
    have "uart_out ?t = uart_out s @ [(RHR_THR, fst (tx_get ?r))]" by (simp add: WriteReg_def tx_get_def)
    then show ?thesis using Suc.IH [OF cw(2) _ k(2)] t g k(1) unfolding step by auto
  qed
qed

section \<open>Properties\<close>

text \<open>A port with two bytes to send that is idle for one of them.\<close>

definition sample_uart :: consdev where
  "sample_uart = proctab.extend sample_procs
     (consdev.fields (\<lambda>n _. if n = 0 then LSR_TX_IDLE else 0) 0 [] ((\<lambda>_. 0)(31 := 65, 0 := 66)) 33 31
        False True (\<lambda>_. 0) 0 0 0 (\<lambda>_. False))"

lemma sample_uart_ok: "can_wake sample_uart"
  by (simp add: can_wake_def sample_uart_def sample_procs_def proctab.defs consdev.defs
      cpu_ok_def lock_free_def machine_ops)

text \<open>
  C26. \<open>uartstart\<close> sends the bytes of the transmit buffer in the order in which \<open>uartputc\<close> stored them,
  one for each time the port reports that it is idle, until the buffer is empty or the port is busy.
  The bytes it did not send stay in the buffer in their order; none is lost, repeated or reordered,
  however often the running indices have wrapped around.
\<close>

theorem uartstart_sends_in_order:
  assumes "can_wake s"
  shows "\<exists>s' k. uartstart s = Ok s' \<and> k = idle_reads (uart_in s) (uart_reads s) (tx.count s)
    \<and> uart_out s' = uart_out s @ map (Pair RHR_THR) (take k (tx.contents s))
    \<and> tx.contents s' = drop k (tx.contents s)
    \<and> (tx.count s < UART_TX_BUF_SIZE \<longrightarrow> tx.contents (tx_put c s) = tx.contents s @ [c])"
  using uartstart_loop_sends [OF assms refl refl] tx.contents_put [of s c]
  by (auto simp: uartstart_def tx.count_def)

theorem uartstart_sends_in_order_witness:
  "\<exists>s'. uartstart sample_uart = Ok s' \<and> uart_out s' = [(RHR_THR, 65)] \<and> tx.contents s' = [66]"
proof -
  have "tx.count sample_uart = 2"
    by (simp add: sample_uart_def tx.count_def consdev.defs proctab.defs sample_procs_def)
  moreover have "tx.contents sample_uart = [65, 66]" unfolding tx.contents_def calculation
    by (simp add: sample_uart_def tx_slot_def consdev.defs proctab.defs sample_procs_def upt_rec)
  moreover have "idle_reads (uart_in sample_uart) (uart_reads sample_uart) 2 = 1"
    by (subst numeral_2_eq_2) (simp add: sample_uart_def consdev.defs proctab.defs sample_procs_def LSR_TX_IDLE_def)
  moreover have "uart_out sample_uart = []"
    by (simp add: sample_uart_def consdev.defs proctab.defs sample_procs_def)
  ultimately show ?thesis using uartstart_sends_in_order [OF sample_uart_ok, of 0] by auto
qed

end
