(* ===== verification/Kprintf.thy ===== *)
theory Kprintf
  imports Uart
begin

text \<open>
  The kernel's formatted output (\<open>kernel/printf.c\<close>) and \<open>procdump\<close> of \<open>kernel/proc.c\<close>. A format is the list
  of its bytes; the arguments are 64-bit words or strings, and \<open>va_arg(ap, int)\<close> takes the low 32 bits
  of one, sign-extended.
\<close>

section \<open>Numbers\<close>

text \<open>The bytes of a string literal.\<close>

definition bytes :: "string \<Rightarrow> uint8 list" where
  "bytes cs = map (\<lambda>c. of_char c) cs"

definition digits :: "uint8 list" where
  "digits = bytes ''0123456789abcdef''"

text \<open>
  The digit loop of \<open>printint\<close>: \<open>buf\<close> from index 0 on, the least significant digit first. The base is 10
  or 16 in every call; the test \<open>1 < base\<close> only makes the function total.
\<close>

function digit_loop :: "uint64 \<Rightarrow> uint64 \<Rightarrow> uint8 list" where
  "digit_loop x base =
     digits ! unat (x mod base) # (if x div base \<noteq> 0 \<and> 1 < base then digit_loop (x div base) base else [])"
  by pat_completeness auto
termination
proof (relation "measure (\<lambda>(x, base). unat x)")
  fix x base :: uint64
  assume "x div base \<noteq> 0 \<and> 1 < base"
  then have "unat (x div base) \<noteq> 0" "1 < unat base"
    by (auto simp: word_less_nat_alt unat_eq_zero)
  then have "0 < unat x" "1 < unat base" by (cases "unat x = 0"; auto simp: unat_div)+
  then have "unat x div unat base < unat x" by (intro div_less_dividend) auto
  then show "((x div base, base), x, base) \<in> measure (\<lambda>(x, base). unat x)" by (simp add: unat_div)
qed simp

declare digit_loop.simps [simp del]

text \<open>
  The characters the code stores at \<open>buf[0]\<close>, \<open>buf[1]\<close> and so on before the output loop, which writes them
  backwards. The array has 16 entries: storing more has no defined outcome.
\<close>

definition printint_buf :: "uint64 \<Rightarrow> uint64 \<Rightarrow> bool \<Rightarrow> uint8 list" where
  "printint_buf xx base sign =
     (let sign = (sign \<and> sint xx < 0);
          x = (if sign then - xx else xx)
      in digit_loop x base @ (if sign then bytes ''-'' else []))"

definition printint :: "uint64 \<Rightarrow> uint64 \<Rightarrow> bool \<Rightarrow> uint8 list res" where
  "printint xx base sign = (let buf = printint_buf xx base sign in if length buf \<le> 16 then Ok (rev buf) else Undef)"

primrec hex_loop :: "nat \<Rightarrow> uint64 \<Rightarrow> uint8 list" where
  "hex_loop 0 x = []"
| "hex_loop (Suc n) x = digits ! unat (drop_bit 60 x) # hex_loop n (push_bit 4 x)"

definition printptr :: "uint64 \<Rightarrow> uint8 list" where
  "printptr x = bytes ''0x'' @ hex_loop 16 x"

section \<open>Formats\<close>

datatype fmt_arg = Num uint64 | Str "uint8 list option"

text \<open>
  Reading an argument of the wrong kind, or one that is not there, is undefined; the model takes 0 and
  the null string.
\<close>

definition arg_long :: "fmt_arg list \<Rightarrow> uint64" where
  "arg_long ap = (case ap of Num v # _ \<Rightarrow> v | _ \<Rightarrow> 0)"

definition arg_int :: "fmt_arg list \<Rightarrow> uint64" where
  "arg_int ap = scast (ucast (arg_long ap) :: uint32)"

definition arg_string :: "fmt_arg list \<Rightarrow> uint8 list" where
  "arg_string ap = (case ap of Str (Some s) # _ \<Rightarrow> takeWhile (\<lambda>c. c \<noteq> 0) s | _ \<Rightarrow> bytes ''(null)'')"

text \<open>\<open>fmt[i]\<close>, with a zero byte after the end.\<close>

definition at0 :: "uint8 list \<Rightarrow> nat \<Rightarrow> uint8" where
  "at0 s i = (if i < length s then s ! i else 0)"

text \<open>
  One conversion after a percent sign: the bytes it prints, how many format bytes it takes, and how
  many arguments; \<open>None\<close> at the end of the format.
\<close>

definition conversion :: "uint8 \<Rightarrow> uint8 \<Rightarrow> uint8 \<Rightarrow> fmt_arg list \<Rightarrow> (uint8 list res \<times> nat \<times> nat) option" where
  "conversion c0 c1 c2 ap =
     (let d = of_char (CHR ''d''); l = of_char (CHR ''l''); u = of_char (CHR ''u''); x = of_char (CHR ''x'')
      in if c0 = d then Some (printint (arg_int ap) 10 True, 1, 1)
         else if c0 = l \<and> c1 = d then Some (printint (arg_long ap) 10 True, 2, 1)
         else if c0 = l \<and> c1 = l \<and> c2 = d then Some (printint (arg_long ap) 10 True, 3, 1)
         else if c0 = u then Some (printint (arg_int ap) 10 False, 1, 1)
         else if c0 = l \<and> c1 = u then Some (printint (arg_long ap) 10 False, 2, 1)
         else if c0 = l \<and> c1 = l \<and> c2 = u then Some (printint (arg_long ap) 10 False, 3, 1)
         else if c0 = x then Some (printint (arg_int ap) 16 False, 1, 1)
         else if c0 = l \<and> c1 = x then Some (printint (arg_long ap) 16 False, 2, 1)
         else if c0 = l \<and> c1 = l \<and> c2 = x then Some (printint (arg_long ap) 16 False, 3, 1)
         else if c0 = of_char (CHR ''p'') then Some (Ok (printptr (arg_long ap)), 1, 1)
         else if c0 = of_char (CHR ''s'') then Some (Ok (arg_string ap), 1, 1)
         else if c0 = of_char (CHR ''%'') then Some (Ok (bytes ''%''), 1, 0)
         else if c0 = 0 then None
         else Some (Ok (bytes ''%'' @ [c0]), 1, 0))"

text \<open>The bytes \<open>printf\<close> sends to the console, in order.\<close>

function format :: "uint8 list \<Rightarrow> fmt_arg list \<Rightarrow> uint8 list res" where
  "format fmt ap =
     (case fmt of
        [] \<Rightarrow> Ok []
      | c # rest \<Rightarrow>
          if c = 0 then Ok []
          else if c \<noteq> of_char (CHR ''%'') then bnd (format rest ap) (\<lambda>out. Ok (c # out))
          else let c0 = at0 rest 0;
                   c1 = (if c0 \<noteq> 0 then at0 rest 1 else 0);
                   c2 = (if c1 \<noteq> 0 then at0 rest 2 else 0)
               in case conversion c0 c1 c2 ap of
                    None \<Rightarrow> Ok []
                  | Some (r, k, a) \<Rightarrow> bnd r (\<lambda>out. bnd (format (drop k rest) (drop a ap)) (\<lambda>out'. Ok (out @ out'))))"
  by pat_completeness auto
termination
  by (relation "measure (\<lambda>(fmt, ap). length fmt)") auto

declare format.simps [simp del]

section \<open>Output\<close>

primrec put_all :: "uint8 list \<Rightarrow> 'z consdev_scheme \<Rightarrow> 'z consdev_scheme res" where
  "put_all [] s = Ok s"
| "put_all (c # cs) s = bnd (consputc (uint c) s) (\<lambda>s. put_all cs s)"

definition printf :: "string \<Rightarrow> fmt_arg list \<Rightarrow> 'z consdev_scheme \<Rightarrow> 'z consdev_scheme res" where
  "printf fmt ap s =
     (let locking = pr_locking s
      in bnd (if locking then acquire PR s else Ok s) (\<lambda>s.
         bnd (format (bytes fmt) ap) (\<lambda>out.
         bnd (put_all out s) (\<lambda>s.
         if locking then release PR s else Ok s))))"

text \<open>
  The state in which \<open>panic\<close> loops forever, if its output gets through. Everywhere else in the
  development a call of \<open>panic(s)\<close> is the outcome \<open>Panic s\<close>.
\<close>

definition panic :: "string \<Rightarrow> 'z consdev_scheme \<Rightarrow> 'z consdev_scheme res" where
  "panic msg s =
     (let s = s\<lparr>pr_locking := False\<rparr>
      in bnd (printf ''panic: '' [] s) (\<lambda>s.
         bnd (printf (''%s'' @ [CHR 0x0A]) [Str (Some (bytes msg))] s) (\<lambda>s.
         Ok (s\<lparr>panicked := True\<rparr>))))"

definition printfinit :: "'z consdev_scheme \<Rightarrow> 'z consdev_scheme" where
  "printfinit s = (initlock PR s)\<lparr>pr_locking := True\<rparr>"

fun state_name :: "procstate \<Rightarrow> string" where
  "state_name UNUSED = ''unused''"
| "state_name USED = ''used''"
| "state_name SLEEPING = ''sleep ''"
| "state_name RUNNABLE = ''runble''"
| "state_name RUNNING = ''run   ''"
| "state_name ZOMBIE = ''zombie''"

definition procdump :: "'z consdev_scheme \<Rightarrow> 'z consdev_scheme res" where
  "procdump s =
     bnd (printf [CHR 0x0A] [] s) (\<lambda>s.
     for_upto 0 NPROC (\<lambda>p s.
       if p_state (procs s p) = UNUSED then Ok s
       else bnd (printf ''%d %s %s'' [Num (ucast (p_pid (procs s p))),
                   Str (Some (bytes (state_name (p_state (procs s p))))), Str (Some (p_name (procs s p)))] s) (\<lambda>s.
            printf [CHR 0x0A] [] s)) s)"

section \<open>Properties\<close>

text \<open>Reading a number back, least significant digit first.\<close>

definition digit_value :: "uint8 \<Rightarrow> nat" where
  "digit_value c = (if unat c < 58 then unat c - 48 else unat c - 87)"

primrec digits_value :: "nat \<Rightarrow> uint8 list \<Rightarrow> nat" where
  "digits_value b [] = 0"
| "digits_value b (c # cs) = digit_value c + b * digits_value b cs"

definition parse_int :: "nat \<Rightarrow> uint8 list \<Rightarrow> int" where
  "parse_int b bs = (if hd bs = 45 then - int (digits_value b (rev (tl bs))) else int (digits_value b (rev bs)))"

lemma digits_nth: "d < 16 \<Longrightarrow> digit_value (digits ! d) = d \<and> digits ! d \<noteq> 45"
proof -
  assume "d < 16"
  then have "d \<in> set [0..<16]" by simp
  moreover have "\<forall>d\<in>set [0..<16]. digit_value (digits ! d) = d \<and> digits ! d \<noteq> 45"
    by (simp add: upt_rec digits_def bytes_def digit_value_def)
  ultimately show ?thesis by blast
qed

lemma digit_loop_value:
  assumes "1 < base" "base \<le> 16"
  shows "digits_value (unat base) (digit_loop x base) = unat x"
  using assms
proof (induction x base rule: digit_loop.induct)
  case (1 x base)
  have "unat (x mod base) < 16"
    using 1(2,3) by (simp add: unat_mod word_less_nat_alt word_le_nat_alt order_less_le_trans [OF mod_less_divisor])
  then have d: "digit_value (digits ! unat (x mod base)) = unat (x mod base)" using digits_nth by blast
  show ?case
  proof (cases "x div base = 0")
    case True
    then have "unat x div unat base = 0" by (simp add: unat_div [symmetric])
    then have "unat x mod unat base = unat x" by (metis add.right_neutral mod_mult_div_eq mult_0_right)
    then show ?thesis using d True by (subst digit_loop.simps) (simp add: unat_mod)
  next
    case False
    then have "digits_value (unat base) (digit_loop (x div base) base) = unat (x div base)" using 1 by simp
    then show ?thesis using d False 1(2) by (subst digit_loop.simps) (simp add: unat_mod unat_div)
  qed
qed

lemma digit_loop_length:
  assumes "1 < base"
  shows "length (digit_loop x base) \<le> Suc n \<longleftrightarrow> unat x < unat base ^ Suc n"
  using assms
proof (induction x base arbitrary: n rule: digit_loop.induct)
  case (1 x base)
  have b: "1 < unat base" using 1(2) by (simp add: word_less_nat_alt)
  show ?case
  proof (cases "x div base = 0")
    case True
    then have "unat x div unat base = 0" by (simp add: unat_div [symmetric])
    then have "unat x < unat base" using b by (simp add: div_eq_0_iff)
    also have "\<dots> \<le> unat base ^ Suc n" using b by (simp add: self_le_power)
    finally show ?thesis using True by (subst digit_loop.simps) simp
  next
    case False
    then have nz: "unat x div unat base \<noteq> 0" by (metis unat_div unsigned_eq_0_iff)
    show ?thesis
    proof (cases n)
      case 0
      have "digit_loop (x div base) base \<noteq> []" by (subst digit_loop.simps) simp
      moreover have "\<not> unat x < unat base" using nz by auto
      ultimately show ?thesis using False 1(2) 0 by (subst digit_loop.simps) simp
    next
      case (Suc m)
      have "length (digit_loop (x div base) base) \<le> Suc m \<longleftrightarrow> unat x div unat base < unat base ^ Suc m"
        using 1 False by (simp add: unat_div)
      also have "\<dots> \<longleftrightarrow> unat x < unat base ^ Suc n"
        using b Suc by (simp add: div_less_iff_less_mult mult.commute)
      finally show ?thesis using False 1(2) Suc by (subst digit_loop.simps) simp
    qed
  qed
qed


lemma digit_loop_hd: "1 < base \<Longrightarrow> base \<le> 16 \<Longrightarrow> c \<in> set (digit_loop x base) \<Longrightarrow> c \<noteq> 45"
proof (induction x base rule: digit_loop.induct)
  case (1 x base)
  have "unat (x mod base) < 16"
    using 1(2,3) by (simp add: unat_mod word_less_nat_alt word_le_nat_alt order_less_le_trans [OF mod_less_divisor])
  then have "digits ! unat (x mod base) \<noteq> 45" using digits_nth by blast
  with 1 show ?case by (subst (asm) digit_loop.simps) (auto split: if_splits)
qed

lemma digit_loop_not_Nil [simp]: "digit_loop x base \<noteq> []"
  by (subst digit_loop.simps) simp

lemma uint_sint64: "uint (x :: uint64) = (if sint x < 0 then sint x + 2 ^ 64 else sint x)"
proof -
  have "- (2 ^ 63) \<le> sint x" "sint x < 2 ^ 63" using sint_ge [of x] sint_lt [of x] by simp_all
  moreover have "uint x = sint x mod 2 ^ 64" using uint_sint [of x] by (simp add: take_bit_eq_mod)
  moreover have "sint x < 0 \<Longrightarrow> sint x mod 2 ^ 64 = (sint x + 2 ^ 64) mod 2 ^ 64" by simp
  ultimately show ?thesis by (auto simp: mod_pos_pos_trivial simp del: mod_add_self2)
qed

lemma uint_sint32: "uint (x :: uint32) = (if sint x < 0 then sint x + 2 ^ 32 else sint x)"
proof -
  have "- (2 ^ 31) \<le> sint x" "sint x < 2 ^ 31" using sint_ge [of x] sint_lt [of x] by simp_all
  moreover have "uint x = sint x mod 2 ^ 32" using uint_sint [of x] by (simp add: take_bit_eq_mod)
  moreover have "sint x < 0 \<Longrightarrow> sint x mod 2 ^ 32 = (sint x + 2 ^ 32) mod 2 ^ 32" by simp
  ultimately show ?thesis by (auto simp: mod_pos_pos_trivial simp del: mod_add_self2)
qed

lemma sint_scast64: "sint (scast (x :: uint32) :: uint64) = sint x"
proof -
  have "- (2 ^ 31) \<le> sint x" "sint x < 2 ^ 31" using sint_ge [of x] sint_lt [of x] by simp_all
  then show ?thesis by (simp add: signed_scast_eq signed_take_bit_int_eq_self)
qed

lemma uint_neg: "sint (x :: uint64) < 0 \<Longrightarrow> uint (- x) = - sint x"
proof -
  assume n: "sint x < 0"
  have "- (2 ^ 63) \<le> sint x" using sint_ge [of x] by simp
  moreover have "- x = of_int (- sint x)" by simp
  then have "uint (- x) = uint (of_int (- sint x) :: uint64)" by simp
  then have "uint (- x) = (- sint x) mod 2 ^ 64" by (simp only: unsigned_of_int take_bit_eq_mod) simp
  ultimately show ?thesis using n by simp
qed

text \<open>
  C27. A number whose characters fit in the 16 bytes of the buffer is printed right: what \<open>printint\<close>
  prints, read back as a number in its base, is the argument, as a signed number when the sign is
  asked for and as an unsigned number otherwise.
\<close>

theorem printint_roundtrip:
  assumes "base = 10 \<or> base = 16" "length (printint_buf xx base sign) \<le> 16"
  shows "\<exists>out. printint xx base sign = Ok out \<and> parse_int (unat base) out = (if sign then sint xx else uint xx)"
proof -
  have b: "1 < base" "base \<le> 16" using assms(1) by auto
  have hd: "hd (rev (digit_loop x base)) \<noteq> 45" for x
    using digit_loop_hd [OF b, of "last (digit_loop x base)" x] by (simp add: hd_rev)
  have val: "int (digits_value (unat base) (digit_loop x base)) = uint x" for x
    using digit_loop_value [OF b] by simp
  show ?thesis
  proof (cases "sign \<and> sint xx < 0")
    case True
    then have "printint xx base sign = Ok (45 # rev (digit_loop (- xx) base))"
      using assms(2) by (simp add: printint_def printint_buf_def bytes_def)
    then show ?thesis using True val by (simp add: parse_int_def uint_neg)
  next
    case False
    then have "printint xx base sign = Ok (rev (digit_loop xx base))" using assms(2) by (auto simp: printint_def printint_buf_def)
    then show ?thesis using False hd val uint_sint64 [of xx] by (auto simp: parse_int_def)
  qed
qed

theorem printint_roundtrip_witness:
  "length (printint_buf (-42) 10 True) \<le> 16 \<and> (\<exists>out. printint (-42) 10 True = Ok out \<and> parse_int 10 out = -42)"
proof -
  have "length (printint_buf (-42) 10 True) \<le> 16" by (simp add: printint_buf_def bytes_def digit_loop.simps)
  then show ?thesis using printint_roundtrip [of 10 "-42" True] by simp
qed

text \<open>
  C28. The buffer of \<open>printint\<close> has 16 bytes. A number in base 16 always fits. In base 10 a number fits
  exactly when it has at most 16 characters; in particular the argument of \<open>%u\<close>, which is sign-extended
  to 64 bits, does not fit from \<open>2 ^ 31\<close> on, while that of \<open>%d\<close> always does.
\<close>

theorem printint_buffer:
  "length (printint_buf xx 16 False) \<le> 16
   \<and> (length (printint_buf xx 10 sign) \<le> 16 \<longleftrightarrow>
        (if sign \<and> sint xx < 0 then - sint xx < 10 ^ 15 else uint xx < 10 ^ 16))
   \<and> length (printint_buf (arg_int ap) 10 True) \<le> 16
   \<and> (length (printint_buf (arg_int ap) 10 False) \<le> 16 \<longleftrightarrow> uint (arg_long ap) mod 2 ^ 32 < 2 ^ 31)"
proof -
  have len: "length (digit_loop x base) \<le> n \<longleftrightarrow> uint x < uint base ^ n" if "1 < base" "0 < n" for x base n
  proof -
    have "length (digit_loop x base) \<le> n \<longleftrightarrow> unat x < unat base ^ n"
      using digit_loop_length [OF that(1), of x "n - 1"] that(2) by simp
    also have "\<dots> \<longleftrightarrow> int (unat x) < int (unat base ^ n)" by (simp only: of_nat_less_iff)
    also have "\<dots> \<longleftrightarrow> uint x < uint base ^ n" by (simp only: of_nat_power uint_nat)
    finally show ?thesis .
  qed
  let ?w = "ucast (arg_long ap) :: uint32"
  have lt: "uint x < 2 ^ 64" for x :: uint64 using uint_lt2p [of x] by simp
  have fits: "length (printint_buf y 10 sg) \<le> 16 \<longleftrightarrow>
      (if sg \<and> sint y < 0 then - sint y < 10 ^ 15 else uint y < 10 ^ 16)" for y sg
  proof (cases "sg \<and> sint y < 0")
    case True
    then have "length (printint_buf y 10 sg) = Suc (length (digit_loop (- y) 10))"
      by (simp add: printint_buf_def bytes_def)
    then show ?thesis using True len [of 10 15 "- y"] by (simp add: uint_neg)
  next
    case False
    then have "length (printint_buf y 10 sg) = length (digit_loop y 10)" by (auto simp: printint_buf_def)
    then show ?thesis using False len [of 10 16 y] by auto
  qed
  have hex: "length (printint_buf xx 16 False) \<le> 16"
    using len [of 16 16 xx] lt [of xx] by (simp add: printint_buf_def)
  have w: "- (2 ^ 31) \<le> sint ?w" "sint ?w < 2 ^ 31" using sint_ge [of ?w] sint_lt [of ?w] by simp_all
  have s: "sint (arg_int ap) = sint ?w" by (simp add: arg_int_def sint_scast64)
  have m: "uint (arg_long ap) mod 2 ^ 32 = uint ?w" by (simp add: unsigned_ucast_eq take_bit_eq_mod)
  have d: "length (printint_buf (arg_int ap) 10 True) \<le> 16"
    using fits [of "arg_int ap" True] w s uint_sint64 [of "arg_int ap"] by (auto split: if_splits)
  have u: "length (printint_buf (arg_int ap) 10 False) \<le> 16 \<longleftrightarrow> uint (arg_long ap) mod 2 ^ 32 < 2 ^ 31"
    using fits [of "arg_int ap" False] w s uint_sint64 [of "arg_int ap"] uint_sint32 [of ?w] unfolding m
    by (auto split: if_splits)
  show ?thesis using hex fits d u by blast
qed

end
