(* ===== verification/Console.thy ===== *)
theory Console
  imports Kprintf
begin

text \<open>
  Console input and output (\<open>kernel/console.c\<close>), and the serial interrupt of \<open>kernel/uart.c\<close>, which feeds
  it. The input buffer is a ring with three running 32-bit indices: read, write and edit.
\<close>

section \<open>Operations\<close>

definition CONSOLE :: nat where "CONSOLE = 1"

text \<open>Control characters and newline.\<close>

definition ctrl_P :: int where "ctrl_P = 0x10"
definition ctrl_U :: int where "ctrl_U = 0x15"
definition ctrl_H :: int where "ctrl_H = 8"
definition ctrl_D :: int where "ctrl_D = 4"
definition newline :: int where "newline = 10"

text \<open>The loop of \<open>consolewrite\<close>: \<open>n\<close> bytes to go, \<open>i\<close> written.\<close>

primrec consolewrite_loop :: "nat \<Rightarrow> 'z consdev_scheme world \<Rightarrow> origin \<Rightarrow> nat \<Rightarrow> 'z consdev_scheme \<Rightarrow>
    (int \<times> 'z consdev_scheme) res" where
  "consolewrite_loop 0 W src i s = Ok (int i, s)"
| "consolewrite_loop (Suc n) W src i s =
     bnd (either_copyin (origin_add src (of_nat i)) 1 s) (\<lambda>(r, bs, s).
     if r = -1 then Ok (int i, s)
     else bnd (uartputc W (hd bs) s) (\<lambda>s. consolewrite_loop n W src (Suc i) s))"

definition consolewrite :: "'z consdev_scheme world \<Rightarrow> origin \<Rightarrow> int \<Rightarrow> 'z consdev_scheme \<Rightarrow> (int \<times> 'z consdev_scheme) res" where
  "consolewrite W src n s = consolewrite_loop (nat n) W src 0 s"

text \<open>
  Waiting for input: \<open>False\<close> when the process was killed, with the lock released.
\<close>

primrec cons_wait :: "nat \<Rightarrow> 'z consdev_scheme world \<Rightarrow> 'z consdev_scheme \<Rightarrow> (bool \<times> 'z consdev_scheme) res" where
  "cons_wait 0 W s = (if cons_r s = cons_w s then Hang else Ok (True, s))"
| "cons_wait (Suc k) W s =
     (if cons_r s = cons_w s
      then bnd (myproc s) (\<lambda>(p, s). bnd (deref p) (\<lambda>p. bnd (killed p s) (\<lambda>(d, s).
           if d \<noteq> 0 then bnd (release CONS s) (\<lambda>s. Ok (False, s))
           else bnd (sleep W ChCons CONS s) (\<lambda>s. cons_wait k W s))))
      else Ok (True, s))"

text \<open>The loop of \<open>consoleread\<close>, with \<open>n\<close> bytes to go; the result is the return value.\<close>

primrec consoleread_loop :: "nat \<Rightarrow> 'z consdev_scheme world \<Rightarrow> target \<Rightarrow> nat \<Rightarrow> 'z consdev_scheme \<Rightarrow>
    (int \<times> 'z consdev_scheme) res" where
  "consoleread_loop 0 W dst want s = bnd (release CONS s) (\<lambda>s. Ok (int want, s))"
| "consoleread_loop (Suc n) W dst want s =
     bnd (cons_wait (rounds W) W s) (\<lambda>(ok, s).
     if \<not> ok then Ok (-1, s)
     else
       let c = cons_buf s (unat (cons_r s) mod INPUT_BUF_SIZE);
           s = s\<lparr>cons_r := cons_r s + 1\<rparr> in
       if uint c = ctrl_D
       then let s = (if Suc n < want then s\<lparr>cons_r := cons_r s - 1\<rparr> else s)
            in bnd (release CONS s) (\<lambda>s. Ok (int want - int (Suc n), s))
       else bnd (either_copyout dst [c] 1 s) (\<lambda>(r, _, s).
         if r = -1 then bnd (release CONS s) (\<lambda>s. Ok (int want - int (Suc n), s))
         else if uint c = newline then bnd (release CONS s) (\<lambda>s. Ok (int want - int n, s))
         else consoleread_loop n W (target_add dst 1) want s))"

definition consoleread :: "'z consdev_scheme world \<Rightarrow> target \<Rightarrow> int \<Rightarrow> 'z consdev_scheme \<Rightarrow> (int \<times> 'z consdev_scheme) res" where
  "consoleread W dst n s =
     bnd (acquire CONS s) (\<lambda>s.
     if n > 0 then consoleread_loop (nat n) W dst (nat n) s
     else bnd (release CONS s) (\<lambda>s. Ok (0, s)))"

text \<open>The kill-line loop; the bound is the length of the line being edited.\<close>

primrec kill_line :: "nat \<Rightarrow> 'z consdev_scheme \<Rightarrow> 'z consdev_scheme res" where
  "kill_line 0 s = Ok s"
| "kill_line (Suc n) s =
     (if cons_e s \<noteq> cons_w s \<and> uint (cons_buf s (unat (cons_e s - 1) mod INPUT_BUF_SIZE)) \<noteq> newline
      then let s = s\<lparr>cons_e := cons_e s - 1\<rparr>
           in bnd (consputc BACKSPACE s) (\<lambda>s. kill_line n s)
      else Ok s)"

text \<open>The default case of \<open>consoleintr\<close>: echo and store a character.\<close>

definition cons_store :: "int \<Rightarrow> 'z consdev_scheme \<Rightarrow> 'z consdev_scheme res" where
  "cons_store c s =
     (if c \<noteq> 0 \<and> unat (cons_e s - cons_r s) < INPUT_BUF_SIZE
      then let c = (if c = 13 then newline else c)
           in bnd (consputc c s) (\<lambda>s.
              let s = s\<lparr>cons_buf := (cons_buf s)(unat (cons_e s) mod INPUT_BUF_SIZE := of_int c)\<rparr>;
                  s = s\<lparr>cons_e := cons_e s + 1\<rparr>
              in if c = newline \<or> c = ctrl_D \<or> unat (cons_e s - cons_r s) = INPUT_BUF_SIZE
                 then wakeup (Some ChCons) (s\<lparr>cons_w := cons_e s\<rparr>)
                 else Ok s)
      else Ok s)"

definition consoleintr :: "int \<Rightarrow> 'z consdev_scheme \<Rightarrow> 'z consdev_scheme res" where
  "consoleintr c s =
     bnd (acquire CONS s) (\<lambda>s.
     bnd (if c = ctrl_P then procdump s
          else if c = ctrl_U then kill_line (unat (cons_e s - cons_w s)) s
          else if c = ctrl_H \<or> c = 0x7f
          then if cons_e s \<noteq> cons_w s then consputc BACKSPACE (s\<lparr>cons_e := cons_e s - 1\<rparr>) else Ok s
          else cons_store c s) (\<lambda>s.
     release CONS s))"

definition consoleinit :: "'z consdev_scheme \<Rightarrow> 'z consdev_scheme" where
  "consoleinit s =
     (let s = initlock CONS s;
          s = uartinit s
      in s\<lparr>devsw := (devsw s)(CONSOLE := True)\<rparr>)"

text \<open>
  The input loop of \<open>uartintr\<close> for at most \<open>n\<close> characters: with a device that always has another one it
  would not end.
\<close>

primrec uartintr_loop :: "nat \<Rightarrow> 'z consdev_scheme \<Rightarrow> 'z consdev_scheme res" where
  "uartintr_loop 0 s = Hang"
| "uartintr_loop (Suc n) s =
     (let (c, s) = uartgetc s
      in if c = -1 then Ok s else bnd (consoleintr c s) (\<lambda>s. uartintr_loop n s))"

definition uartintr :: "nat \<Rightarrow> 'z consdev_scheme \<Rightarrow> 'z consdev_scheme res" where
  "uartintr n s =
     bnd (uartintr_loop n s) (\<lambda>s.
     bnd (acquire UART_TX s) (\<lambda>s.
     bnd (uartstart s) (\<lambda>s.
     release UART_TX s)))"

end
