(* ===== verification/Sleeplock.thy ===== *)
theory Sleeplock
  imports Console
begin

text \<open>
  Sleeping locks (\<open>kernel/sleeplock.c\<close>): a flag and the owner's pid, guarded by a spin lock.
\<close>

record sleeplock =
  sl_locked :: uint32
  sl_pid :: uint32

text \<open>A sleeping lock has the name of the spin lock inside it.\<close>

record sleepers = consdev +
  slocks :: "lockid \<Rightarrow> sleeplock"

definition set_slock :: "lockid \<Rightarrow> sleeplock \<Rightarrow> 'z sleepers_scheme \<Rightarrow> 'z sleepers_scheme" where
  "set_slock lk l s = s\<lparr>slocks := (slocks s)(lk := l)\<rparr>"

definition initsleeplock :: "lockid \<Rightarrow> 'z sleepers_scheme \<Rightarrow> 'z sleepers_scheme" where
  "initsleeplock lk s = set_slock lk \<lparr>sl_locked = 0, sl_pid = 0\<rparr> (initlock lk s)"

definition acquiresleep :: "'z sleepers_scheme world \<Rightarrow> lockid \<Rightarrow> 'z sleepers_scheme \<Rightarrow> 'z sleepers_scheme res" where
  "acquiresleep W lk s =
     bnd (acquire lk s) (\<lambda>s.
     bnd (sleep_while (rounds W) W (\<lambda>s. sl_locked (slocks s lk) \<noteq> 0) (ChSleep lk) lk s) (\<lambda>s.
     let s = set_slock lk ((slocks s lk)\<lparr>sl_locked := 1\<rparr>) s in
     bnd (myproc s) (\<lambda>(p, s). bnd (deref p) (\<lambda>p.
     let s = set_slock lk ((slocks s lk)\<lparr>sl_pid := p_pid (procs s p)\<rparr>) s in
     release lk s))))"

definition releasesleep :: "lockid \<Rightarrow> 'z sleepers_scheme \<Rightarrow> 'z sleepers_scheme res" where
  "releasesleep lk s =
     bnd (acquire lk s) (\<lambda>s.
     let s = set_slock lk \<lparr>sl_locked = 0, sl_pid = 0\<rparr> s in
     bnd (wakeup (Some (ChSleep lk)) s) (\<lambda>s.
     release lk s))"

definition holdingsleep :: "lockid \<Rightarrow> 'z sleepers_scheme \<Rightarrow> (bool \<times> 'z sleepers_scheme) res" where
  "holdingsleep lk s =
     bnd (acquire lk s) (\<lambda>s.
     bnd (if sl_locked (slocks s lk) \<noteq> 0
          then bnd (myproc s) (\<lambda>(p, s). bnd (deref p) (\<lambda>p. Ok (sl_pid (slocks s lk) = p_pid (procs s p), s)))
          else Ok (False, s)) (\<lambda>(r, s).
     bnd (release lk s) (\<lambda>s. Ok (r, s))))"

section \<open>One process at a time\<close>

lemma settle_sleepers [simp]: "slocks (settle s) = slocks s"
  by (simp add: settle_def machine_ops)

lemma locking_sleepers [simp]: "slocks (locking lk s) = slocks s"
  by (simp add: locking_def push_off_def machine_ops Let_def)

lemma set_slock_simps [simp]:
  "cpus (set_slock lk l s) = cpus s" "tp (set_slock lk l s) = tp s" "locks (set_slock lk l s) = locks s"
  "sie (set_slock lk l s) = sie s" "mycpu (set_slock lk l s) = mycpu s" "cpu_ok (set_slock lk l s) = cpu_ok s"
  "lock_free lk' (set_slock lk l s) = lock_free lk' s" "procs (set_slock lk l s) = procs s" "mem (set_slock lk l s) = mem s"
  "slocks (set_slock lk l s) = (slocks s)(lk := l)" "set_slock lk l (set_slock lk l' s) = set_slock lk l s"
  by (simp_all add: set_slock_def lock_free_def cpu_ok_def machine_ops)

lemma settle_set_slock: "settle (set_slock lk l s) = set_slock lk l (settle s)"
  by (simp add: settle_def set_slock_def machine_ops)

lemma release_set_slock:
  assumes "cpu_ok s" "lock_free lk s"
  shows "release lk (set_slock lk' l (locking lk s)) = Ok (settle (set_slock lk' l s))"
  by (subst release_after [OF assms(1) _ _ _ _ assms(2)])
    (simp_all add: set_slock_def locking_def push_off_def settle_def machine_ops Let_def)

lemma sleep_while_False: "\<not> cond s \<Longrightarrow> sleep_while n W cond chan lk s = Ok s"
  by (cases n) auto

lemma acquiresleep_free:
  assumes "cpu_ok s" "lock_free lk s" "sl_locked (slocks s lk) = 0" "cpu_proc (mycpu s) = Some p"
  shows "acquiresleep W lk s = Ok (settle (set_slock lk \<lparr>sl_locked = 1, sl_pid = p_pid (procs s p)\<rparr> s))"
proof -
  let ?l = "locking lk s"
  let ?t = "set_slock lk ((slocks s lk)\<lparr>sl_locked := 1\<rparr>) ?l"
  have t: "cpu_ok ?t" "cpu_proc (mycpu ?t) = Some p" using cpu_ok_locking [OF assms(1)] assms(4) by simp_all
  have "settle ?t = ?t" using settle_locking [OF assms(1)] by (simp add: settle_set_slock)
  then have my: "myproc ?t = Ok (Some p, ?t)" using myproc_eq [OF t(1)] t(2) by simp
  obtain a b where "slocks s lk = \<lparr>sl_locked = a, sl_pid = b\<rparr>" by (cases "slocks s lk")
  then show ?thesis
    unfolding acquiresleep_def
    using my assms(3) by (simp add: acquire_free [OF assms(2)] sleep_while_False deref_def Let_def release_set_slock [OF assms(1,2)])
qed

lemma holdingsleep_eq:
  assumes "cpu_ok s" "lock_free lk s" "cpu_proc (mycpu s) = Some p"
  shows "holdingsleep lk s = Ok (sl_locked (slocks s lk) \<noteq> 0 \<and> sl_pid (slocks s lk) = p_pid (procs s p), settle s)"
proof -
  let ?l = "locking lk s"
  have my: "myproc ?l = Ok (Some p, ?l)"
    using myproc_eq [OF cpu_ok_locking [OF assms(1)]] settle_locking [OF assms(1)] assms(3) by simp
  show ?thesis unfolding holdingsleep_def
    using my by (simp add: acquire_free [OF assms(2)] release_locking [OF assms(1,2)] deref_def)
qed

lemma release_wake_slock:
  assumes "cpu_ok s" "lock_free lk s"
  shows "release lk (wake_table chan me n (set_slock lk' l (locking lk s))) = Ok (settle (wake_table chan me n (set_slock lk' l s)))"
  by (subst release_after [OF assms(1) _ _ _ _ assms(2)])
    (simp_all add: wake_table_def set_slock_def locking_def push_off_def settle_def machine_ops Let_def cong: if_cong)

lemma releasesleep_eq:
  assumes "can_wake s" "lock_free lk s" "\<And>p. lk \<noteq> PROC p"
  shows "releasesleep lk s = Ok (settle (wake_table (Some (ChSleep lk)) (cpu_proc (mycpu s)) NPROC
    (set_slock lk \<lparr>sl_locked = 0, sl_pid = 0\<rparr> s)))"
proof -
  have ok: "cpu_ok s" using assms(1) by (simp add: can_wake_def)
  let ?t = "set_slock lk \<lparr>sl_locked = 0, sl_pid = 0\<rparr> (locking lk s)"
  have t: "can_wake ?t" using assms(1,3) cpu_ok_locking [OF ok] by (auto simp: can_wake_def)
  have "settle (wake_table c me n ?t) = wake_table c me n ?t" for c me n
    using ok by (intro settle_id) (simp add: cpu_ok_def)
  then show ?thesis
    unfolding releasesleep_def using wakeup_can [OF t, of "Some (ChSleep lk)"] release_wake_slock [OF ok assms(2)]
    by (simp add: acquire_free [OF assms(2)] Let_def)
qed

end
