(* ===== verification/Virtio.thy ===== *)
theory Virtio
  imports Sleeplock
begin

text \<open>
  The driver of the virtio disk (\<open>kernel/virtio_disk.c\<close>). Buffers, descriptors and rings are records;
  an address the device is given is the object it points to. What a read of a device register
  returns is the field \<open>mmio_in\<close>, and the register writes are recorded in \<open>mmio_out\<close>; the device
  itself acts while the driver sleeps. What was on the disk at the start, by sector, is the field
  \<open>medium\<close>, and the writes the device has done since are in \<open>writes\<close>, the newest last.
\<close>

section \<open>State\<close>

abbreviation NUM :: nat where "NUM \<equiv> 8"
abbreviation NBUF :: nat where "NBUF \<equiv> 30"
abbreviation BSIZE :: nat where "BSIZE \<equiv> 1024"

text \<open>\<open>struct buf\<close>; \<open>prev\<close> and \<open>next\<close> are indices, \<open>NBUF\<close> that of the list head.\<close>

record buf =
  b_valid :: int
  b_disk :: int
  b_dev :: uint32
  b_blockno :: uint32
  b_refcnt :: uint32
  b_prev :: nat
  b_next :: nat
  b_data :: "uint8 list"

text \<open>What a descriptor can point to.\<close>

datatype dma = DmaNull | DmaReq nat | DmaBuf nat | DmaStatus nat

record virtq_desc =
  d_addr :: dma
  d_len :: uint32
  d_flags :: uint16
  d_next :: uint16

record virtio_blk_req =
  rq_type :: uint32
  rq_reserved :: uint32
  rq_sector :: uint64

record disk_info =
  i_b :: "nat option"
  i_status :: uint8

record disk =
  dk_desc_page :: addr
  dk_avail_page :: addr
  dk_used_page :: addr
  dk_desc :: "nat \<Rightarrow> virtq_desc"
  dk_avail_idx :: uint16
  dk_avail_ring :: "nat \<Rightarrow> uint16"
  dk_used_hw :: uint16
  dk_used_ring :: "nat \<Rightarrow> uint32"
  dk_free :: "nat \<Rightarrow> bool"
  dk_used_idx :: uint16
  dk_info :: "nat \<Rightarrow> disk_info"
  dk_ops :: "nat \<Rightarrow> virtio_blk_req"

record vdisk = sleepers +
  bufs :: "nat \<Rightarrow> buf"
  disk :: disk
  mmio_in :: "addr \<Rightarrow> uint32"
  mmio_out :: "(addr \<times> uint32) list"
  medium :: "uint64 \<Rightarrow> uint8 list"
  writes :: "(uint64 \<times> uint8 list) list"

definition set_buf :: "nat \<Rightarrow> (buf \<Rightarrow> buf) \<Rightarrow> 'z vdisk_scheme \<Rightarrow> 'z vdisk_scheme" where
  "set_buf b f s = s\<lparr>bufs := (bufs s)(b := f (bufs s b))\<rparr>"

definition set_disk :: "(disk \<Rightarrow> disk) \<Rightarrow> 'z vdisk_scheme \<Rightarrow> 'z vdisk_scheme" where
  "set_disk f s = s\<lparr>disk := f (disk s)\<rparr>"

definition set_desc :: "nat \<Rightarrow> virtq_desc \<Rightarrow> 'z vdisk_scheme \<Rightarrow> 'z vdisk_scheme" where
  "set_desc i d s = set_disk (\<lambda>k. k\<lparr>dk_desc := (dk_desc k)(i := d)\<rparr>) s"

definition zero_desc :: virtq_desc where
  "zero_desc = \<lparr>d_addr = DmaNull, d_len = 0, d_flags = 0, d_next = 0\<rparr>"

section \<open>Registers\<close>

definition VIRTIO_MMIO_MAGIC_VALUE :: addr where "VIRTIO_MMIO_MAGIC_VALUE = 0x000"
definition VIRTIO_MMIO_VERSION :: addr where "VIRTIO_MMIO_VERSION = 0x004"
definition VIRTIO_MMIO_DEVICE_ID :: addr where "VIRTIO_MMIO_DEVICE_ID = 0x008"
definition VIRTIO_MMIO_VENDOR_ID :: addr where "VIRTIO_MMIO_VENDOR_ID = 0x00c"
definition VIRTIO_MMIO_DEVICE_FEATURES :: addr where "VIRTIO_MMIO_DEVICE_FEATURES = 0x010"
definition VIRTIO_MMIO_DRIVER_FEATURES :: addr where "VIRTIO_MMIO_DRIVER_FEATURES = 0x020"
definition VIRTIO_MMIO_QUEUE_SEL :: addr where "VIRTIO_MMIO_QUEUE_SEL = 0x030"
definition VIRTIO_MMIO_QUEUE_NUM_MAX :: addr where "VIRTIO_MMIO_QUEUE_NUM_MAX = 0x034"
definition VIRTIO_MMIO_QUEUE_NUM :: addr where "VIRTIO_MMIO_QUEUE_NUM = 0x038"
definition VIRTIO_MMIO_QUEUE_READY :: addr where "VIRTIO_MMIO_QUEUE_READY = 0x044"
definition VIRTIO_MMIO_QUEUE_NOTIFY :: addr where "VIRTIO_MMIO_QUEUE_NOTIFY = 0x050"
definition VIRTIO_MMIO_INTERRUPT_STATUS :: addr where "VIRTIO_MMIO_INTERRUPT_STATUS = 0x060"
definition VIRTIO_MMIO_INTERRUPT_ACK :: addr where "VIRTIO_MMIO_INTERRUPT_ACK = 0x064"
definition VIRTIO_MMIO_STATUS :: addr where "VIRTIO_MMIO_STATUS = 0x070"
definition VIRTIO_MMIO_QUEUE_DESC_LOW :: addr where "VIRTIO_MMIO_QUEUE_DESC_LOW = 0x080"
definition VIRTIO_MMIO_QUEUE_DESC_HIGH :: addr where "VIRTIO_MMIO_QUEUE_DESC_HIGH = 0x084"
definition VIRTIO_MMIO_DRIVER_DESC_LOW :: addr where "VIRTIO_MMIO_DRIVER_DESC_LOW = 0x090"
definition VIRTIO_MMIO_DRIVER_DESC_HIGH :: addr where "VIRTIO_MMIO_DRIVER_DESC_HIGH = 0x094"
definition VIRTIO_MMIO_DEVICE_DESC_LOW :: addr where "VIRTIO_MMIO_DEVICE_DESC_LOW = 0x0a0"
definition VIRTIO_MMIO_DEVICE_DESC_HIGH :: addr where "VIRTIO_MMIO_DEVICE_DESC_HIGH = 0x0a4"

definition VIRTIO_CONFIG_S_ACKNOWLEDGE :: uint32 where "VIRTIO_CONFIG_S_ACKNOWLEDGE = 1"
definition VIRTIO_CONFIG_S_DRIVER :: uint32 where "VIRTIO_CONFIG_S_DRIVER = 2"
definition VIRTIO_CONFIG_S_DRIVER_OK :: uint32 where "VIRTIO_CONFIG_S_DRIVER_OK = 4"
definition VIRTIO_CONFIG_S_FEATURES_OK :: uint32 where "VIRTIO_CONFIG_S_FEATURES_OK = 8"

definition VRING_DESC_F_NEXT :: uint16 where "VRING_DESC_F_NEXT = 1"
definition VRING_DESC_F_WRITE :: uint16 where "VRING_DESC_F_WRITE = 2"
definition VIRTIO_BLK_T_IN :: uint32 where "VIRTIO_BLK_T_IN = 0"
definition VIRTIO_BLK_T_OUT :: uint32 where "VIRTIO_BLK_T_OUT = 1"

text \<open>The feature bits the driver turns off.\<close>

definition features_off :: "nat list" where
  "features_off = [5, 7, 11, 12, 27, 29, 28]"

definition reg_read :: "addr \<Rightarrow> 'z vdisk_scheme \<Rightarrow> uint32" where
  "reg_read r s = mmio_in s (VIRTIO0 + r)"

definition reg_write :: "addr \<Rightarrow> uint32 \<Rightarrow> 'z vdisk_scheme \<Rightarrow> 'z vdisk_scheme" where
  "reg_write r v s = s\<lparr>mmio_out := mmio_out s @ [(VIRTIO0 + r, v)]\<rparr>"

section \<open>Initialisation\<close>

text \<open>Up to the check that the device accepts the features.\<close>

definition virtio_negotiate :: "'z vdisk_scheme \<Rightarrow> 'z vdisk_scheme" where
  "virtio_negotiate s =
     (let s = reg_write VIRTIO_MMIO_STATUS 0 s;
          s = reg_write VIRTIO_MMIO_STATUS VIRTIO_CONFIG_S_ACKNOWLEDGE s;
          s = reg_write VIRTIO_MMIO_STATUS (VIRTIO_CONFIG_S_ACKNOWLEDGE OR VIRTIO_CONFIG_S_DRIVER) s;
          features = fold (\<lambda>b f. f AND NOT (push_bit b 1)) features_off (reg_read VIRTIO_MMIO_DEVICE_FEATURES s);
          s = reg_write VIRTIO_MMIO_DRIVER_FEATURES features s
      in reg_write VIRTIO_MMIO_STATUS
           (VIRTIO_CONFIG_S_ACKNOWLEDGE OR VIRTIO_CONFIG_S_DRIVER OR VIRTIO_CONFIG_S_FEATURES_OK) s)"

definition virtio_queue_setup :: "uint32 \<Rightarrow> 'z vdisk_scheme \<Rightarrow> 'z vdisk_scheme res" where
  "virtio_queue_setup status s =
     bnd (kalloc s) (\<lambda>(desc, s). bnd (kalloc s) (\<lambda>(avail, s). bnd (kalloc s) (\<lambda>(used, s).
     let s = set_disk (\<lambda>k. k\<lparr>dk_desc_page := desc, dk_avail_page := avail, dk_used_page := used\<rparr>) s in
     if desc = 0 \<or> avail = 0 \<or> used = 0 then Panic ''virtio disk kalloc''
     else
       let s = s\<lparr>mem := memset (memset (memset (mem s) desc 0 PGSIZE) avail 0 PGSIZE) used 0 PGSIZE\<rparr>;
           s = set_disk (\<lambda>k. k\<lparr>dk_desc := (\<lambda>_. zero_desc), dk_avail_idx := 0, dk_avail_ring := (\<lambda>_. 0),
                 dk_used_hw := 0, dk_used_ring := (\<lambda>_. 0)\<rparr>) s;
           s = reg_write VIRTIO_MMIO_QUEUE_NUM (of_nat NUM) s;
           s = reg_write VIRTIO_MMIO_QUEUE_DESC_LOW (ucast desc) s;
           s = reg_write VIRTIO_MMIO_QUEUE_DESC_HIGH (ucast (drop_bit 32 desc)) s;
           s = reg_write VIRTIO_MMIO_DRIVER_DESC_LOW (ucast avail) s;
           s = reg_write VIRTIO_MMIO_DRIVER_DESC_HIGH (ucast (drop_bit 32 avail)) s;
           s = reg_write VIRTIO_MMIO_DEVICE_DESC_LOW (ucast used) s;
           s = reg_write VIRTIO_MMIO_DEVICE_DESC_HIGH (ucast (drop_bit 32 used)) s;
           s = reg_write VIRTIO_MMIO_QUEUE_READY 1 s;
           s = set_disk (\<lambda>k. k\<lparr>dk_free := (\<lambda>i. i < NUM \<or> dk_free k i)\<rparr>) s
       in Ok (reg_write VIRTIO_MMIO_STATUS (status OR VIRTIO_CONFIG_S_DRIVER_OK) s))))"

definition virtio_disk_init :: "'z vdisk_scheme \<Rightarrow> 'z vdisk_scheme res" where
  "virtio_disk_init s =
     (let s = initlock VDISK s
      in if reg_read VIRTIO_MMIO_MAGIC_VALUE s \<noteq> 0x74726976 \<or> reg_read VIRTIO_MMIO_VERSION s \<noteq> 2
            \<or> reg_read VIRTIO_MMIO_DEVICE_ID s \<noteq> 2 \<or> reg_read VIRTIO_MMIO_VENDOR_ID s \<noteq> 0x554d4551
         then Panic ''could not find virtio disk''
         else
           let s = virtio_negotiate s;
               status = reg_read VIRTIO_MMIO_STATUS s
           in if status AND VIRTIO_CONFIG_S_FEATURES_OK = 0 then Panic ''virtio disk FEATURES_OK unset''
              else
                let s = reg_write VIRTIO_MMIO_QUEUE_SEL 0 s;
                    max = reg_read VIRTIO_MMIO_QUEUE_NUM_MAX s
                in if reg_read VIRTIO_MMIO_QUEUE_READY s \<noteq> 0 then Panic ''virtio disk should not be ready''
                   else if max = 0 then Panic ''virtio disk has no queue 0''
                   else if max < of_nat NUM then Panic ''virtio disk max queue too short''
                   else virtio_queue_setup status s)"

section \<open>Descriptors\<close>

primrec alloc_desc_scan :: "nat \<Rightarrow> nat \<Rightarrow> 'z vdisk_scheme \<Rightarrow> int \<times> 'z vdisk_scheme" where
  "alloc_desc_scan 0 i s = (-1, s)"
| "alloc_desc_scan (Suc n) i s =
     (if dk_free (disk s) i
      then (int i, set_disk (\<lambda>k. k\<lparr>dk_free := (dk_free k)(i := False)\<rparr>) s)
      else alloc_desc_scan n (Suc i) s)"

definition alloc_desc :: "'z vdisk_scheme \<Rightarrow> int \<times> 'z vdisk_scheme" where
  "alloc_desc s = alloc_desc_scan NUM 0 s"

definition free_desc :: "nat \<Rightarrow> 'z vdisk_scheme \<Rightarrow> 'z vdisk_scheme res" where
  "free_desc i s =
     (if NUM \<le> i then Panic ''free_desc 1''
      else if dk_free (disk s) i then Panic ''free_desc 2''
      else let s = set_desc i zero_desc s;
               s = set_disk (\<lambda>k. k\<lparr>dk_free := (dk_free k)(i := True)\<rparr>) s
           in wakeup (Some ChDisk) s)"

text \<open>
  The loop of \<open>free_chain\<close>: every pass frees a descriptor that was not free, so \<open>NUM + 1\<close> passes
  end in a panic at the latest.
\<close>

primrec free_chain_loop :: "nat \<Rightarrow> nat \<Rightarrow> 'z vdisk_scheme \<Rightarrow> 'z vdisk_scheme res" where
  "free_chain_loop 0 i s = Hang"
| "free_chain_loop (Suc n) i s =
     (let flag = d_flags (dk_desc (disk s) i);
          nxt = unat (d_next (dk_desc (disk s) i))
      in bnd (free_desc i s) (\<lambda>s.
         if flag AND VRING_DESC_F_NEXT \<noteq> 0 then free_chain_loop n nxt s else Ok s))"

definition free_chain_disk :: "nat \<Rightarrow> 'z vdisk_scheme \<Rightarrow> 'z vdisk_scheme res" where
  "free_chain_disk i s = free_chain_loop (Suc NUM) i s"

text \<open>\<open>idx[0..2]\<close>, or \<open>None\<close> for -1 after giving back what was taken.\<close>

definition alloc3_desc :: "'z vdisk_scheme \<Rightarrow> ((nat \<times> nat \<times> nat) option \<times> 'z vdisk_scheme) res" where
  "alloc3_desc s =
     (let (i0, s) = alloc_desc s
      in if i0 < 0 then Ok (None, s)
         else let (i1, s) = alloc_desc s
              in if i1 < 0 then bnd (free_desc (nat i0) s) (\<lambda>s. Ok (None, s))
                 else let (i2, s) = alloc_desc s
                      in if i2 < 0
                         then bnd (free_desc (nat i0) s) (\<lambda>s. bnd (free_desc (nat i1) s) (\<lambda>s. Ok (None, s)))
                         else Ok (Some (nat i0, nat i1, nat i2), s))"

section \<open>Requests\<close>

primrec alloc3_wait :: "nat \<Rightarrow> 'z vdisk_scheme world \<Rightarrow> 'z vdisk_scheme \<Rightarrow> ((nat \<times> nat \<times> nat) \<times> 'z vdisk_scheme) res" where
  "alloc3_wait 0 W s = Hang"
| "alloc3_wait (Suc n) W s =
     bnd (alloc3_desc s) (\<lambda>(r, s).
     case r of
       Some idx \<Rightarrow> Ok (idx, s)
     | None \<Rightarrow> bnd (sleep W ChDisk VDISK s) (\<lambda>s. alloc3_wait n W s))"

text \<open>Format the three descriptors and hand the chain to the device.\<close>

definition virtio_submit :: "nat \<Rightarrow> bool \<Rightarrow> nat \<times> nat \<times> nat \<Rightarrow> 'z vdisk_scheme \<Rightarrow> 'z vdisk_scheme" where
  "virtio_submit b write = (\<lambda>(i0, i1, i2) s.
     let sector = ucast (b_blockno (bufs s b) * 2);
         s = set_disk (\<lambda>k. k\<lparr>dk_ops := (dk_ops k)(i0 := \<lparr>rq_type = (if write then VIRTIO_BLK_T_OUT else VIRTIO_BLK_T_IN),
               rq_reserved = 0, rq_sector = sector\<rparr>)\<rparr>) s;
         s = set_desc i0 \<lparr>d_addr = DmaReq i0, d_len = 16, d_flags = VRING_DESC_F_NEXT, d_next = of_nat i1\<rparr> s;
         s = set_desc i1 \<lparr>d_addr = DmaBuf b, d_len = of_nat BSIZE,
               d_flags = (if write then 0 else VRING_DESC_F_WRITE) OR VRING_DESC_F_NEXT, d_next = of_nat i2\<rparr> s;
         s = set_disk (\<lambda>k. k\<lparr>dk_info := (dk_info k)(i0 := (dk_info k i0)\<lparr>i_status := 0xff\<rparr>)\<rparr>) s;
         s = set_desc i2 \<lparr>d_addr = DmaStatus i0, d_len = 1, d_flags = VRING_DESC_F_WRITE, d_next = 0\<rparr> s;
         s = set_buf b (\<lambda>u. u\<lparr>b_disk := 1\<rparr>) s;
         s = set_disk (\<lambda>k. k\<lparr>dk_info := (dk_info k)(i0 := (dk_info k i0)\<lparr>i_b := Some b\<rparr>)\<rparr>) s;
         s = set_disk (\<lambda>k. k\<lparr>dk_avail_ring := (dk_avail_ring k)(unat (dk_avail_idx k) mod NUM := of_nat i0)\<rparr>) s;
         s = set_disk (\<lambda>k. k\<lparr>dk_avail_idx := dk_avail_idx k + 1\<rparr>) s
     in reg_write VIRTIO_MMIO_QUEUE_NOTIFY 0 s)"

definition virtio_disk_rw :: "'z vdisk_scheme world \<Rightarrow> nat \<Rightarrow> bool \<Rightarrow> 'z vdisk_scheme \<Rightarrow> 'z vdisk_scheme res" where
  "virtio_disk_rw W b write s =
     bnd (acquire VDISK s) (\<lambda>s.
     bnd (alloc3_wait (Suc (rounds W)) W s) (\<lambda>((i0, i1, i2), s).
     let s = virtio_submit b write (i0, i1, i2) s in
     bnd (sleep_while (rounds W) W (\<lambda>s. b_disk (bufs s b) = 1) (ChBuf b) VDISK s) (\<lambda>s.
     let s = set_disk (\<lambda>k. k\<lparr>dk_info := (dk_info k)(i0 := (dk_info k i0)\<lparr>i_b := None\<rparr>)\<rparr>) s in
     bnd (free_chain_disk i0 s) (\<lambda>s.
     release VDISK s))))"

text \<open>
  The loop of \<open>virtio_disk_intr\<close> over the \<open>n\<close> used entries that are new; \<open>n\<close> is the distance of the
  two 16-bit indices, which only this loop moves while the lock is held.
\<close>

primrec intr_loop :: "nat \<Rightarrow> 'z vdisk_scheme \<Rightarrow> 'z vdisk_scheme res" where
  "intr_loop 0 s = Ok s"
| "intr_loop (Suc n) s =
     (let id = unat (dk_used_ring (disk s) (unat (dk_used_idx (disk s)) mod NUM))
      in if i_status (dk_info (disk s) id) \<noteq> 0 then Panic ''virtio_disk_intr status''
         else bnd (deref (i_b (dk_info (disk s) id))) (\<lambda>b.
           let s = set_buf b (\<lambda>u. u\<lparr>b_disk := 0\<rparr>) s in
           bnd (wakeup (Some (ChBuf b)) s) (\<lambda>s.
           intr_loop n (set_disk (\<lambda>k. k\<lparr>dk_used_idx := dk_used_idx k + 1\<rparr>) s))))"

definition virtio_disk_intr :: "'z vdisk_scheme \<Rightarrow> 'z vdisk_scheme res" where
  "virtio_disk_intr s =
     bnd (acquire VDISK s) (\<lambda>s.
     let s = reg_write VIRTIO_MMIO_INTERRUPT_ACK (reg_read VIRTIO_MMIO_INTERRUPT_STATUS s AND 3) s in
     bnd (intr_loop (unat (dk_used_hw (disk s) - dk_used_idx (disk s))) s) (\<lambda>s.
     release VDISK s))"

end
