(* ===== verification/Bio.thy ===== *)
theory Bio
  imports Virtio
begin

text \<open>
  The buffer cache (\<open>kernel/bio.c\<close>): buffers in a circular doubly linked list ordered by use, with
  reference counts and a sleeping lock each. Node \<open>NBUF\<close> is the list head.
\<close>

section \<open>Operations\<close>

abbreviation bhead :: nat where "bhead \<equiv> NBUF"

definition binit :: "'z vdisk_scheme \<Rightarrow> 'z vdisk_scheme res" where
  "binit s =
     (let s = initlock BCACHE s;
          s = set_buf bhead (\<lambda>h. h\<lparr>b_prev := bhead, b_next := bhead\<rparr>) s
      in for_upto 0 NBUF (\<lambda>b s.
           let s = set_buf b (\<lambda>u. u\<lparr>b_next := b_next (bufs s bhead)\<rparr>) s;
               s = set_buf b (\<lambda>u. u\<lparr>b_prev := bhead\<rparr>) s;
               s = initsleeplock (SLEEP_BUF b) s;
               s = set_buf (b_next (bufs s bhead)) (\<lambda>u. u\<lparr>b_prev := b\<rparr>) s
           in Ok (set_buf bhead (\<lambda>h. h\<lparr>b_next := b\<rparr>) s)) s)"

text \<open>
  The two searches of \<open>bget\<close>: forwards for the block, backwards for an unused buffer. The bound is
  the number of nodes; a list that does not come back to its head within it is not well formed, and
  the search would not end.
\<close>

primrec bget_cached :: "nat \<Rightarrow> nat \<Rightarrow> uint32 \<Rightarrow> uint32 \<Rightarrow> (nat \<Rightarrow> buf) \<Rightarrow> nat option res" where
  "bget_cached 0 b dev blockno bs = Hang"
| "bget_cached (Suc n) b dev blockno bs =
     (if b = bhead then Ok None
      else if b_dev (bs b) = dev \<and> b_blockno (bs b) = blockno then Ok (Some b)
      else bget_cached n (b_next (bs b)) dev blockno bs)"

primrec bget_unused :: "nat \<Rightarrow> nat \<Rightarrow> (nat \<Rightarrow> buf) \<Rightarrow> nat option res" where
  "bget_unused 0 b bs = Hang"
| "bget_unused (Suc n) b bs =
     (if b = bhead then Ok None
      else if b_refcnt (bs b) = 0 then Ok (Some b)
      else bget_unused n (b_prev (bs b)) bs)"

definition bget :: "'z vdisk_scheme world \<Rightarrow> uint32 \<Rightarrow> uint32 \<Rightarrow> 'z vdisk_scheme \<Rightarrow> (nat \<times> 'z vdisk_scheme) res" where
  "bget W dev blockno s =
     bnd (acquire BCACHE s) (\<lambda>s.
     bnd (bget_cached (Suc NBUF) (b_next (bufs s bhead)) dev blockno (bufs s)) (\<lambda>r.
     case r of
       Some b \<Rightarrow>
         let s = set_buf b (\<lambda>u. u\<lparr>b_refcnt := b_refcnt u + 1\<rparr>) s in
         bnd (release BCACHE s) (\<lambda>s.
         bnd (acquiresleep W (SLEEP_BUF b) s) (\<lambda>s. Ok (b, s)))
     | None \<Rightarrow>
         bnd (bget_unused (Suc NBUF) (b_prev (bufs s bhead)) (bufs s)) (\<lambda>r.
         case r of
           Some b \<Rightarrow>
             let s = set_buf b (\<lambda>u. u\<lparr>b_dev := dev, b_blockno := blockno, b_valid := 0, b_refcnt := 1\<rparr>) s in
             bnd (release BCACHE s) (\<lambda>s.
             bnd (acquiresleep W (SLEEP_BUF b) s) (\<lambda>s. Ok (b, s)))
         | None \<Rightarrow> Panic ''bget: no buffers'')))"

definition bread :: "'z vdisk_scheme world \<Rightarrow> uint32 \<Rightarrow> uint32 \<Rightarrow> 'z vdisk_scheme \<Rightarrow> (nat \<times> 'z vdisk_scheme) res" where
  "bread W dev blockno s =
     bnd (bget W dev blockno s) (\<lambda>(b, s).
     if b_valid (bufs s b) = 0
     then bnd (virtio_disk_rw W b False s) (\<lambda>s. Ok (b, set_buf b (\<lambda>u. u\<lparr>b_valid := 1\<rparr>) s))
     else Ok (b, s))"

definition bwrite :: "'z vdisk_scheme world \<Rightarrow> nat \<Rightarrow> 'z vdisk_scheme \<Rightarrow> 'z vdisk_scheme res" where
  "bwrite W b s =
     bnd (holdingsleep (SLEEP_BUF b) s) (\<lambda>(h, s).
     if \<not> h then Panic ''bwrite'' else virtio_disk_rw W b True s)"

text \<open>Unlink \<open>b\<close> and put it behind the head.\<close>

definition move_to_front :: "nat \<Rightarrow> 'z vdisk_scheme \<Rightarrow> 'z vdisk_scheme" where
  "move_to_front b s =
     (let s = set_buf (b_next (bufs s b)) (\<lambda>u. u\<lparr>b_prev := b_prev (bufs s b)\<rparr>) s;
          s = set_buf (b_prev (bufs s b)) (\<lambda>u. u\<lparr>b_next := b_next (bufs s b)\<rparr>) s;
          s = set_buf b (\<lambda>u. u\<lparr>b_next := b_next (bufs s bhead)\<rparr>) s;
          s = set_buf b (\<lambda>u. u\<lparr>b_prev := bhead\<rparr>) s;
          s = set_buf (b_next (bufs s bhead)) (\<lambda>u. u\<lparr>b_prev := b\<rparr>) s
      in set_buf bhead (\<lambda>u. u\<lparr>b_next := b\<rparr>) s)"

definition brelse :: "nat \<Rightarrow> 'z vdisk_scheme \<Rightarrow> 'z vdisk_scheme res" where
  "brelse b s =
     bnd (holdingsleep (SLEEP_BUF b) s) (\<lambda>(h, s).
     if \<not> h then Panic ''brelse''
     else bnd (releasesleep (SLEEP_BUF b) s) (\<lambda>s.
       bnd (acquire BCACHE s) (\<lambda>s.
       let s = set_buf b (\<lambda>u. u\<lparr>b_refcnt := b_refcnt u - 1\<rparr>) s;
           s = (if b_refcnt (bufs s b) = 0 then move_to_front b s else s)
       in release BCACHE s)))"

definition bpin :: "nat \<Rightarrow> 'z vdisk_scheme \<Rightarrow> 'z vdisk_scheme res" where
  "bpin b s =
     bnd (acquire BCACHE s) (\<lambda>s. release BCACHE (set_buf b (\<lambda>u. u\<lparr>b_refcnt := b_refcnt u + 1\<rparr>) s))"

definition bunpin :: "nat \<Rightarrow> 'z vdisk_scheme \<Rightarrow> 'z vdisk_scheme res" where
  "bunpin b s =
     bnd (acquire BCACHE s) (\<lambda>s. release BCACHE (set_buf b (\<lambda>u. u\<lparr>b_refcnt := b_refcnt u - 1\<rparr>) s))"

end
