(* ===== verification/Log.thy ===== *)
theory Log
  imports Bio
begin

text \<open>
  The redo log of the file system (\<open>kernel/log.c\<close>). A transaction writes its blocks to the log area,
  commits by writing the header block, installs the blocks at their home locations, and clears the
  header.
\<close>

section \<open>State\<close>

abbreviation LOGSIZE :: nat where "LOGSIZE \<equiv> 30"
abbreviation MAXOPBLOCKS :: nat where "MAXOPBLOCKS \<equiv> 10"

record superblock =
  sb_magic :: uint32
  sb_size :: uint32
  sb_nblocks :: uint32
  sb_ninodes :: uint32
  sb_nlog :: uint32
  sb_logstart :: uint32
  sb_inodestart :: uint32
  sb_bmapstart :: uint32

record logheader =
  lh_n :: int
  lh_block :: "nat \<Rightarrow> uint32"

record log =
  log_start :: int
  log_size :: int
  log_outstanding :: int
  log_committing :: int
  log_dev :: uint32
  log_lh :: logheader

record logged = vdisk +
  log :: log

definition set_log :: "(log \<Rightarrow> log) \<Rightarrow> 'z logged_scheme \<Rightarrow> 'z logged_scheme" where
  "set_log f s = s\<lparr>log := f (log s)\<rparr>"

definition set_lh :: "(logheader \<Rightarrow> logheader) \<Rightarrow> 'z logged_scheme \<Rightarrow> 'z logged_scheme" where
  "set_lh f s = set_log (\<lambda>l. l\<lparr>log_lh := f (log_lh l)\<rparr>) s"

text \<open>Words of a block, and a block with bytes replaced.\<close>

definition data32 :: "uint8 list \<Rightarrow> nat \<Rightarrow> uint32" where
  "data32 bs off = of_nat (le_nat (take 4 (drop off bs)))"

definition data16 :: "uint8 list \<Rightarrow> nat \<Rightarrow> uint16" where
  "data16 bs off = of_nat (le_nat (take 2 (drop off bs)))"

definition put_data :: "uint8 list \<Rightarrow> nat \<Rightarrow> uint8 list \<Rightarrow> uint8 list" where
  "put_data bs off xs = take off bs @ xs @ drop (off + length xs) bs"

definition put32 :: "nat \<Rightarrow> uint32 \<Rightarrow> uint8 list \<Rightarrow> uint8 list" where
  "put32 off v bs = put_data bs off (nat_le 4 (unat v))"

definition put16 :: "nat \<Rightarrow> uint16 \<Rightarrow> uint8 list \<Rightarrow> uint8 list" where
  "put16 off v bs = put_data bs off (nat_le 2 (unat v))"

definition set_data :: "nat \<Rightarrow> (uint8 list \<Rightarrow> uint8 list) \<Rightarrow> 'z vdisk_scheme \<Rightarrow> 'z vdisk_scheme" where
  "set_data b f s = set_buf b (\<lambda>u. u\<lparr>b_data := f (b_data u)\<rparr>) s"

section \<open>The header block\<close>

text \<open>The in-memory header a header block stands for, and the header block with a header stored.\<close>

definition decode_head :: "uint8 list \<Rightarrow> logheader \<Rightarrow> logheader" where
  "decode_head bs lh =
     \<lparr>lh_n = sint (data32 bs 0),
      lh_block = (\<lambda>i. if int i < sint (data32 bs 0) then data32 bs (4 + 4 * i) else lh_block lh i)\<rparr>"

primrec put_blocks :: "nat \<Rightarrow> (nat \<Rightarrow> uint32) \<Rightarrow> uint8 list \<Rightarrow> uint8 list" where
  "put_blocks 0 bl bs = bs"
| "put_blocks (Suc i) bl bs = put32 (4 + 4 * i) (bl i) (put_blocks i bl bs)"

definition encode_head :: "logheader \<Rightarrow> uint8 list \<Rightarrow> uint8 list" where
  "encode_head lh bs = put_blocks (nat (lh_n lh)) (lh_block lh) (put32 0 (of_int (lh_n lh)) bs)"

definition read_head :: "'z logged_scheme world \<Rightarrow> 'z logged_scheme \<Rightarrow> 'z logged_scheme res" where
  "read_head W s =
     bnd (bread W (log_dev (log s)) (of_int (log_start (log s))) s) (\<lambda>(b, s).
     let s = set_lh (decode_head (b_data (bufs s b))) s in
     brelse b s)"

definition write_head :: "'z logged_scheme world \<Rightarrow> 'z logged_scheme \<Rightarrow> 'z logged_scheme res" where
  "write_head W s =
     bnd (bread W (log_dev (log s)) (of_int (log_start (log s))) s) (\<lambda>(b, s).
     let s = set_data b (encode_head (log_lh (log s))) s in
     bnd (bwrite W b s) (\<lambda>s.
     brelse b s))"

section \<open>Installing and recovery\<close>

text \<open>
  Only the committing process changes the header while it commits, so the bound of its loops is read
  once.
\<close>

definition install_one :: "'z logged_scheme world \<Rightarrow> bool \<Rightarrow> nat \<Rightarrow> 'z logged_scheme \<Rightarrow> 'z logged_scheme res" where
  "install_one W recovering tail s =
     bnd (bread W (log_dev (log s)) (of_int (log_start (log s) + int tail + 1)) s) (\<lambda>(lbuf, s).
     bnd (bread W (log_dev (log s)) (lh_block (log_lh (log s)) tail) s) (\<lambda>(dbuf, s).
     let s = set_data dbuf (\<lambda>_. b_data (bufs s lbuf)) s in
     bnd (bwrite W dbuf s) (\<lambda>s.
     bnd (if recovering then Ok s else bunpin dbuf s) (\<lambda>s.
     bnd (brelse lbuf s) (\<lambda>s.
     brelse dbuf s)))))"

definition install_trans :: "'z logged_scheme world \<Rightarrow> bool \<Rightarrow> 'z logged_scheme \<Rightarrow> 'z logged_scheme res" where
  "install_trans W recovering s = for_upto 0 (nat (lh_n (log_lh (log s)))) (install_one W recovering) s"

definition recover_from_log :: "'z logged_scheme world \<Rightarrow> 'z logged_scheme \<Rightarrow> 'z logged_scheme res" where
  "recover_from_log W s =
     bnd (read_head W s) (\<lambda>s.
     bnd (install_trans W True s) (\<lambda>s.
     let s = set_lh (\<lambda>lh. lh\<lparr>lh_n := 0\<rparr>) s in
     write_head W s))"

text \<open>\<open>sizeof(struct logheader)\<close> is 124, less than \<open>BSIZE\<close>, so the check of \<open>initlog\<close> never fails.\<close>

definition initlog :: "'z logged_scheme world \<Rightarrow> uint32 \<Rightarrow> superblock \<Rightarrow> 'z logged_scheme \<Rightarrow> 'z logged_scheme res" where
  "initlog W dev sb s =
     (if BSIZE \<le> 4 + 4 * LOGSIZE then Panic ''initlog: too big logheader''
      else let s = initlock LOG s;
               s = set_log (\<lambda>l. l\<lparr>log_start := sint (sb_logstart sb), log_size := sint (sb_nlog sb), log_dev := dev\<rparr>) s
           in recover_from_log W s)"

section \<open>Transactions\<close>

primrec begin_op_loop :: "nat \<Rightarrow> 'z logged_scheme world \<Rightarrow> 'z logged_scheme \<Rightarrow> 'z logged_scheme res" where
  "begin_op_loop 0 W s = Hang"
| "begin_op_loop (Suc n) W s =
     (if log_committing (log s) \<noteq> 0
      then bnd (sleep W ChLog LOG s) (\<lambda>s. begin_op_loop n W s)
      else if lh_n (log_lh (log s)) + (log_outstanding (log s) + 1) * int MAXOPBLOCKS > int LOGSIZE
      then bnd (sleep W ChLog LOG s) (\<lambda>s. begin_op_loop n W s)
      else release LOG (set_log (\<lambda>l. l\<lparr>log_outstanding := log_outstanding l + 1\<rparr>) s))"

definition begin_op :: "'z logged_scheme world \<Rightarrow> 'z logged_scheme \<Rightarrow> 'z logged_scheme res" where
  "begin_op W s = bnd (acquire LOG s) (\<lambda>s. begin_op_loop (Suc (rounds W)) W s)"

definition write_log_one :: "'z logged_scheme world \<Rightarrow> nat \<Rightarrow> 'z logged_scheme \<Rightarrow> 'z logged_scheme res" where
  "write_log_one W tail s =
     bnd (bread W (log_dev (log s)) (of_int (log_start (log s) + int tail + 1)) s) (\<lambda>(to, s).
     bnd (bread W (log_dev (log s)) (lh_block (log_lh (log s)) tail) s) (\<lambda>(from, s).
     let s = set_data to (\<lambda>_. b_data (bufs s from)) s in
     bnd (bwrite W to s) (\<lambda>s.
     bnd (brelse from s) (\<lambda>s.
     brelse to s))))"

definition write_log :: "'z logged_scheme world \<Rightarrow> 'z logged_scheme \<Rightarrow> 'z logged_scheme res" where
  "write_log W s = for_upto 0 (nat (lh_n (log_lh (log s)))) (write_log_one W) s"

definition commit :: "'z logged_scheme world \<Rightarrow> 'z logged_scheme \<Rightarrow> 'z logged_scheme res" where
  "commit W s =
     (if lh_n (log_lh (log s)) > 0
      then bnd (write_log W s) (\<lambda>s.
           bnd (write_head W s) (\<lambda>s.
           bnd (install_trans W False s) (\<lambda>s.
           let s = set_lh (\<lambda>lh. lh\<lparr>lh_n := 0\<rparr>) s in
           write_head W s)))
      else Ok s)"

definition end_op :: "'z logged_scheme world \<Rightarrow> 'z logged_scheme \<Rightarrow> 'z logged_scheme res" where
  "end_op W s =
     bnd (acquire LOG s) (\<lambda>s.
     let s = set_log (\<lambda>l. l\<lparr>log_outstanding := log_outstanding l - 1\<rparr>) s in
     if log_committing (log s) \<noteq> 0 then Panic ''log.committing''
     else
       let do_commit = (log_outstanding (log s) = 0) in
       bnd (if do_commit then Ok (set_log (\<lambda>l. l\<lparr>log_committing := 1\<rparr>) s)
            else wakeup (Some ChLog) s) (\<lambda>s.
       bnd (release LOG s) (\<lambda>s.
       if do_commit
       then bnd (commit W s) (\<lambda>s.
            bnd (acquire LOG s) (\<lambda>s.
            let s = set_log (\<lambda>l. l\<lparr>log_committing := 0\<rparr>) s in
            bnd (wakeup (Some ChLog) s) (\<lambda>s.
            release LOG s)))
       else Ok s)))"

text \<open>The index at which \<open>log_write\<close> stores the block: its place when it is logged already, or \<open>n\<close>.\<close>

primrec log_slot :: "nat \<Rightarrow> nat \<Rightarrow> uint32 \<Rightarrow> (nat \<Rightarrow> uint32) \<Rightarrow> nat" where
  "log_slot 0 i blockno bl = i"
| "log_slot (Suc k) i blockno bl = (if bl i = blockno then i else log_slot k (Suc i) blockno bl)"

definition log_write :: "nat \<Rightarrow> 'z logged_scheme \<Rightarrow> 'z logged_scheme res" where
  "log_write b s =
     bnd (acquire LOG s) (\<lambda>s.
     if lh_n (log_lh (log s)) \<ge> int LOGSIZE \<or> lh_n (log_lh (log s)) \<ge> log_size (log s) - 1
     then Panic ''too big a transaction''
     else if log_outstanding (log s) < 1 then Panic ''log_write outside of trans''
     else
       let i = log_slot (nat (lh_n (log_lh (log s)))) 0 (b_blockno (bufs s b)) (lh_block (log_lh (log s)));
           s = set_lh (\<lambda>lh. lh\<lparr>lh_block := (lh_block lh)(i := b_blockno (bufs s b))\<rparr>) s in
       bnd (if int i = lh_n (log_lh (log s))
            then bnd (bpin b s) (\<lambda>s. Ok (set_lh (\<lambda>lh. lh\<lparr>lh_n := lh_n lh + 1\<rparr>) s))
            else Ok s) (\<lambda>s.
       release LOG s))"

end
