(* ===== verification/Fs.thy ===== *)
theory Fs
  imports Log
begin

text \<open>
  The file system (\<open>kernel/fs.c\<close>): block allocation in the free map, inodes and the inode table, file
  contents through direct and indirect blocks, directories and path names. A block or inode pointer
  is an index into its table; a path is the list of its bytes, ended by a zero byte or by the end of
  the list.
\<close>

section \<open>State\<close>

abbreviation NINODE :: nat where "NINODE \<equiv> 50"
abbreviation NDIRECT :: nat where "NDIRECT \<equiv> 12"
abbreviation NINDIRECT :: nat where "NINDIRECT \<equiv> 256"
abbreviation MAXFILE :: nat where "MAXFILE \<equiv> NDIRECT + NINDIRECT"
abbreviation BPB :: nat where "BPB \<equiv> 8192"
abbreviation IPB :: nat where "IPB \<equiv> 16"
abbreviation DIRSIZ :: nat where "DIRSIZ \<equiv> 14"

definition FSMAGIC :: uint32 where "FSMAGIC = 0x10203040"
definition ROOTDEV :: uint32 where "ROOTDEV = 1"
definition ROOTINO :: uint32 where "ROOTINO = 1"
definition T_DIR :: uint16 where "T_DIR = 1"
definition T_FILE :: uint16 where "T_FILE = 2"
definition T_DEVICE :: uint16 where "T_DEVICE = 3"

record inode =
  i_dev :: uint32
  i_inum :: uint32
  i_ref :: int
  i_valid :: int
  i_type :: uint16
  i_major :: uint16
  i_minor :: uint16
  i_nlink :: uint16
  i_size :: uint32
  i_addrs :: "uint32 list"

record fsys = logged +
  sblock :: superblock
  itable :: "nat \<Rightarrow> inode"

definition set_inode :: "nat \<Rightarrow> (inode \<Rightarrow> inode) \<Rightarrow> 'z fsys_scheme \<Rightarrow> 'z fsys_scheme" where
  "set_inode ip f s = s\<lparr>itable := (itable s)(ip := f (itable s ip))\<rparr>"

text \<open>Format strings of messages end in a newline.\<close>

abbreviation msg :: "string \<Rightarrow> string" where "msg cs \<equiv> cs @ [CHR 0x0A]"

section \<open>The super block\<close>

definition decode_super :: "uint8 list \<Rightarrow> superblock" where
  "decode_super bs = \<lparr>sb_magic = data32 bs 0, sb_size = data32 bs 4, sb_nblocks = data32 bs 8,
     sb_ninodes = data32 bs 12, sb_nlog = data32 bs 16, sb_logstart = data32 bs 20,
     sb_inodestart = data32 bs 24, sb_bmapstart = data32 bs 28\<rparr>"

definition readsb :: "'z fsys_scheme world \<Rightarrow> uint32 \<Rightarrow> 'z fsys_scheme \<Rightarrow> 'z fsys_scheme res" where
  "readsb W dev s =
     bnd (bread W dev 1 s) (\<lambda>(bp, s).
     brelse bp (s\<lparr>sblock := decode_super (b_data (bufs s bp))\<rparr>))"

definition fsinit :: "'z fsys_scheme world \<Rightarrow> uint32 \<Rightarrow> 'z fsys_scheme \<Rightarrow> 'z fsys_scheme res" where
  "fsinit W dev s =
     bnd (readsb W dev s) (\<lambda>s.
     if sb_magic (sblock s) \<noteq> FSMAGIC then Panic ''invalid file system''
     else initlog W dev (sblock s) s)"

section \<open>Blocks\<close>

definition BBLOCK :: "nat \<Rightarrow> superblock \<Rightarrow> uint32" where
  "BBLOCK b sb = of_nat (b div BPB) + sb_bmapstart sb"

definition IBLOCK :: "uint32 \<Rightarrow> superblock \<Rightarrow> uint32" where
  "IBLOCK i sb = i div 16 + sb_inodestart sb"

definition bzero :: "'z fsys_scheme world \<Rightarrow> uint32 \<Rightarrow> uint32 \<Rightarrow> 'z fsys_scheme \<Rightarrow> 'z fsys_scheme res" where
  "bzero W dev bno s =
     bnd (bread W dev bno s) (\<lambda>(bp, s).
     let s = set_data bp (\<lambda>_. replicate BSIZE 0) s in
     bnd (log_write bp s) (\<lambda>s.
     brelse bp s))"

text \<open>Bit \<open>bi\<close> of a bitmap block.\<close>

definition bit_mask :: "nat \<Rightarrow> uint8" where
  "bit_mask bi = push_bit (bi mod 8) 1"

definition bit_used :: "uint8 list \<Rightarrow> nat \<Rightarrow> bool" where
  "bit_used bs bi \<longleftrightarrow> bs ! (bi div 8) AND bit_mask bi \<noteq> 0"

definition mark_used :: "nat \<Rightarrow> uint8 list \<Rightarrow> uint8 list" where
  "mark_used bi bs = bs[bi div 8 := bs ! (bi div 8) OR bit_mask bi]"

definition mark_free :: "nat \<Rightarrow> uint8 list \<Rightarrow> uint8 list" where
  "mark_free bi bs = bs[bi div 8 := bs ! (bi div 8) AND NOT (bit_mask bi)]"

text \<open>The inner loop of \<open>balloc\<close>: the first free bit from \<open>bi\<close> on, among the next \<open>n\<close>.\<close>

primrec free_bit :: "nat \<Rightarrow> nat \<Rightarrow> uint8 list \<Rightarrow> nat option" where
  "free_bit 0 bi bs = None"
| "free_bit (Suc n) bi bs = (if bit_used bs bi then free_bit n (Suc bi) bs else Some bi)"

text \<open>The outer loop, with \<open>b\<close> the first block of a bitmap block.\<close>

function balloc_loop :: "'z fsys_scheme world \<Rightarrow> uint32 \<Rightarrow> superblock \<Rightarrow> nat \<Rightarrow> 'z fsys_scheme \<Rightarrow> (uint32 \<times> 'z fsys_scheme) res" where
  "balloc_loop W dev sb b s =
     (if b < unat (sb_size sb)
      then bnd (bread W dev (BBLOCK b sb) s) (\<lambda>(bp, s).
           case free_bit (min BPB (unat (sb_size sb) - b)) 0 (b_data (bufs s bp)) of
             Some bi \<Rightarrow>
               let s = set_data bp (mark_used bi) s in
               bnd (log_write bp s) (\<lambda>s.
               bnd (brelse bp s) (\<lambda>s.
               bnd (bzero W dev (of_nat (b + bi)) s) (\<lambda>s.
               Ok (of_nat (b + bi), s))))
           | None \<Rightarrow> bnd (brelse bp s) (\<lambda>s. balloc_loop W dev sb (b + BPB) s))
      else bnd (printf (msg ''balloc: out of blocks'') [] s) (\<lambda>s. Ok (0, s)))"
  by pat_completeness auto
termination
  by (relation "measure (\<lambda>(W, dev, sb, b, s). unat (sb_size sb) - b)") auto

declare balloc_loop.simps [simp del]

definition balloc :: "'z fsys_scheme world \<Rightarrow> uint32 \<Rightarrow> 'z fsys_scheme \<Rightarrow> (uint32 \<times> 'z fsys_scheme) res" where
  "balloc W dev s = balloc_loop W dev (sblock s) 0 s"

definition bfree :: "'z fsys_scheme world \<Rightarrow> uint32 \<Rightarrow> uint32 \<Rightarrow> 'z fsys_scheme \<Rightarrow> 'z fsys_scheme res" where
  "bfree W dev b s =
     bnd (bread W dev (BBLOCK (unat b) (sblock s)) s) (\<lambda>(bp, s).
     let bi = unat b mod BPB in
     if \<not> bit_used (b_data (bufs s bp)) bi then Panic ''freeing free block''
     else
       let s = set_data bp (mark_free bi) s in
       bnd (log_write bp s) (\<lambda>s.
       brelse bp s))"

section \<open>Inodes\<close>

text \<open>An on-disk inode has 64 bytes.\<close>

definition dinode_off :: "uint32 \<Rightarrow> nat" where
  "dinode_off inum = 64 * (unat inum mod IPB)"

definition dinode_type :: "uint8 list \<Rightarrow> uint32 \<Rightarrow> uint16" where
  "dinode_type bs inum = data16 bs (dinode_off inum)"

definition load_dinode :: "uint8 list \<Rightarrow> inode \<Rightarrow> inode" where
  "load_dinode bs i =
     (let o' = dinode_off (i_inum i)
      in i\<lparr>i_type := data16 bs o', i_major := data16 bs (o' + 2), i_minor := data16 bs (o' + 4),
           i_nlink := data16 bs (o' + 6), i_size := data32 bs (o' + 8),
           i_addrs := map (\<lambda>k. data32 bs (o' + 12 + 4 * k)) [0..<NDIRECT + 1]\<rparr>)"

definition encode_dinode :: "inode \<Rightarrow> uint8 list" where
  "encode_dinode i = nat_le 2 (unat (i_type i)) @ nat_le 2 (unat (i_major i)) @ nat_le 2 (unat (i_minor i))
     @ nat_le 2 (unat (i_nlink i)) @ nat_le 4 (unat (i_size i)) @ concat (map (\<lambda>a. nat_le 4 (unat a)) (i_addrs i))"

definition store_dinode :: "inode \<Rightarrow> uint8 list \<Rightarrow> uint8 list" where
  "store_dinode i bs = put_data bs (dinode_off (i_inum i)) (encode_dinode i)"

definition iinit :: "'z fsys_scheme \<Rightarrow> 'z fsys_scheme res" where
  "iinit s =
     (let s = initlock ITABLE s
      in for_upto 0 NINODE (\<lambda>i s. Ok (initsleeplock (SLEEP_INODE i) s)) s)"

primrec iget_scan :: "nat \<Rightarrow> nat \<Rightarrow> uint32 \<Rightarrow> uint32 \<Rightarrow> nat option \<Rightarrow> (nat \<Rightarrow> inode) \<Rightarrow> nat option \<times> nat option" where
  "iget_scan 0 ip dev inum em t = (None, em)"
| "iget_scan (Suc n) ip dev inum em t =
     (if i_ref (t ip) > 0 \<and> i_dev (t ip) = dev \<and> i_inum (t ip) = inum then (Some ip, em)
      else iget_scan n (Suc ip) dev inum
             (if em = None \<and> i_ref (t ip) = 0 then Some ip else em) t)"

definition iget :: "uint32 \<Rightarrow> uint32 \<Rightarrow> 'z fsys_scheme \<Rightarrow> (nat \<times> 'z fsys_scheme) res" where
  "iget dev inum s =
     bnd (acquire ITABLE s) (\<lambda>s.
     case iget_scan NINODE 0 dev inum None (itable s) of
       (Some ip, _) \<Rightarrow>
         bnd (release ITABLE (set_inode ip (\<lambda>i. i\<lparr>i_ref := i_ref i + 1\<rparr>) s)) (\<lambda>s. Ok (ip, s))
     | (None, None) \<Rightarrow> Panic ''iget: no inodes''
     | (None, Some ip) \<Rightarrow>
         bnd (release ITABLE (set_inode ip (\<lambda>i. i\<lparr>i_dev := dev, i_inum := inum, i_ref := 1, i_valid := 0\<rparr>) s)) (\<lambda>s.
         Ok (ip, s)))"

text \<open>The loop of \<open>ialloc\<close> from \<open>inum\<close> on, with \<open>n\<close> inodes to go.\<close>

primrec ialloc_loop :: "nat \<Rightarrow> 'z fsys_scheme world \<Rightarrow> uint32 \<Rightarrow> uint16 \<Rightarrow> uint32 \<Rightarrow> 'z fsys_scheme \<Rightarrow>
    (nat option \<times> 'z fsys_scheme) res" where
  "ialloc_loop 0 W dev type inum s =
     bnd (printf (msg ''ialloc: no inodes'') [] s) (\<lambda>s. Ok (None, s))"
| "ialloc_loop (Suc n) W dev type inum s =
     bnd (bread W dev (IBLOCK inum (sblock s)) s) (\<lambda>(bp, s).
     if dinode_type (b_data (bufs s bp)) inum = 0
     then let s = set_data bp (\<lambda>bs. put_data bs (dinode_off inum) (nat_le 2 (unat type) @ replicate 62 0)) s in
          bnd (log_write bp s) (\<lambda>s.
          bnd (brelse bp s) (\<lambda>s.
          bnd (iget dev inum s) (\<lambda>(ip, s). Ok (Some ip, s))))
     else bnd (brelse bp s) (\<lambda>s. ialloc_loop n W dev type (inum + 1) s))"

definition ialloc :: "'z fsys_scheme world \<Rightarrow> uint32 \<Rightarrow> uint16 \<Rightarrow> 'z fsys_scheme \<Rightarrow> (nat option \<times> 'z fsys_scheme) res" where
  "ialloc W dev type s = ialloc_loop (unat (sb_ninodes (sblock s)) - 1) W dev type 1 s"

definition iupdate :: "'z fsys_scheme world \<Rightarrow> nat \<Rightarrow> 'z fsys_scheme \<Rightarrow> 'z fsys_scheme res" where
  "iupdate W ip s =
     bnd (bread W (i_dev (itable s ip)) (IBLOCK (i_inum (itable s ip)) (sblock s)) s) (\<lambda>(bp, s).
     let s = set_data bp (store_dinode (itable s ip)) s in
     bnd (log_write bp s) (\<lambda>s.
     brelse bp s))"

definition idup :: "nat \<Rightarrow> 'z fsys_scheme \<Rightarrow> (nat \<times> 'z fsys_scheme) res" where
  "idup ip s =
     bnd (acquire ITABLE s) (\<lambda>s.
     bnd (release ITABLE (set_inode ip (\<lambda>i. i\<lparr>i_ref := i_ref i + 1\<rparr>) s)) (\<lambda>s. Ok (ip, s)))"

definition ilock :: "'z fsys_scheme world \<Rightarrow> nat \<Rightarrow> 'z fsys_scheme \<Rightarrow> 'z fsys_scheme res" where
  "ilock W ip s =
     (if i_ref (itable s ip) < 1 then Panic ''ilock''
      else bnd (acquiresleep W (SLEEP_INODE ip) s) (\<lambda>s.
        if i_valid (itable s ip) = 0
        then bnd (bread W (i_dev (itable s ip)) (IBLOCK (i_inum (itable s ip)) (sblock s)) s) (\<lambda>(bp, s).
             let s = set_inode ip (load_dinode (b_data (bufs s bp))) s in
             bnd (brelse bp s) (\<lambda>s.
             let s = set_inode ip (\<lambda>i. i\<lparr>i_valid := 1\<rparr>) s in
             if i_type (itable s ip) = 0 then Panic ''ilock: no type'' else Ok s))
        else Ok s))"

definition iunlock :: "nat \<Rightarrow> 'z fsys_scheme \<Rightarrow> 'z fsys_scheme res" where
  "iunlock ip s =
     bnd (holdingsleep (SLEEP_INODE ip) s) (\<lambda>(h, s).
     if \<not> h \<or> i_ref (itable s ip) < 1 then Panic ''iunlock''
     else releasesleep (SLEEP_INODE ip) s)"

section \<open>File contents\<close>

definition set_addr :: "nat \<Rightarrow> nat \<Rightarrow> uint32 \<Rightarrow> 'z fsys_scheme \<Rightarrow> 'z fsys_scheme" where
  "set_addr ip k a s = set_inode ip (\<lambda>i. i\<lparr>i_addrs := (i_addrs i)[k := a]\<rparr>) s"

text \<open>The block number in slot \<open>k\<close> of the inode, allocated if it is 0.\<close>

definition bmap_slot :: "'z fsys_scheme world \<Rightarrow> nat \<Rightarrow> nat \<Rightarrow> 'z fsys_scheme \<Rightarrow> (uint32 \<times> 'z fsys_scheme) res" where
  "bmap_slot W ip k s =
     (let addr = i_addrs (itable s ip) ! k
      in if addr = 0
         then bnd (balloc W (i_dev (itable s ip)) s) (\<lambda>(addr, s).
              Ok (addr, if addr = 0 then s else set_addr ip k addr s))
         else Ok (addr, s))"

definition bmap :: "'z fsys_scheme world \<Rightarrow> nat \<Rightarrow> uint32 \<Rightarrow> 'z fsys_scheme \<Rightarrow> (uint32 \<times> 'z fsys_scheme) res" where
  "bmap W ip bn s =
     (if unat bn < NDIRECT then bmap_slot W ip (unat bn) s
      else let bn = unat bn - NDIRECT
           in if bn < NINDIRECT
              then bnd (bmap_slot W ip NDIRECT s) (\<lambda>(addr, s).
                   if addr = 0 then Ok (0, s)
                   else bnd (bread W (i_dev (itable s ip)) addr s) (\<lambda>(bp, s).
                     let addr = data32 (b_data (bufs s bp)) (4 * bn) in
                     bnd (if addr = 0
                          then bnd (balloc W (i_dev (itable s ip)) s) (\<lambda>(addr, s).
                               if addr \<noteq> 0
                               then bnd (log_write bp (set_data bp (put32 (4 * bn) addr) s)) (\<lambda>s. Ok (addr, s))
                               else Ok (addr, s))
                          else Ok (addr, s)) (\<lambda>(addr, s).
                     bnd (brelse bp s) (\<lambda>s. Ok (addr, s)))))
              else Panic ''bmap: out of range'')"

definition itrunc :: "'z fsys_scheme world \<Rightarrow> nat \<Rightarrow> 'z fsys_scheme \<Rightarrow> 'z fsys_scheme res" where
  "itrunc W ip s =
     bnd (for_upto 0 NDIRECT (\<lambda>i s.
       if i_addrs (itable s ip) ! i \<noteq> 0
       then bnd (bfree W (i_dev (itable s ip)) (i_addrs (itable s ip) ! i) s) (\<lambda>s. Ok (set_addr ip i 0 s))
       else Ok s) s) (\<lambda>s.
     bnd (if i_addrs (itable s ip) ! NDIRECT \<noteq> 0
          then bnd (bread W (i_dev (itable s ip)) (i_addrs (itable s ip) ! NDIRECT) s) (\<lambda>(bp, s).
               bnd (for_upto 0 NINDIRECT (\<lambda>j s.
                 let a = data32 (b_data (bufs s bp)) (4 * j)
                 in if a \<noteq> 0 then bfree W (i_dev (itable s ip)) a s else Ok s) s) (\<lambda>s.
               bnd (brelse bp s) (\<lambda>s.
               bnd (bfree W (i_dev (itable s ip)) (i_addrs (itable s ip) ! NDIRECT) s) (\<lambda>s.
               Ok (set_addr ip NDIRECT 0 s)))))
          else Ok s) (\<lambda>s.
     iupdate W ip (set_inode ip (\<lambda>i. i\<lparr>i_size := 0\<rparr>) s)))"

definition iput :: "'z fsys_scheme world \<Rightarrow> nat \<Rightarrow> 'z fsys_scheme \<Rightarrow> 'z fsys_scheme res" where
  "iput W ip s =
     bnd (acquire ITABLE s) (\<lambda>s.
     bnd (if i_ref (itable s ip) = 1 \<and> i_valid (itable s ip) \<noteq> 0 \<and> i_nlink (itable s ip) = 0
          then bnd (acquiresleep W (SLEEP_INODE ip) s) (\<lambda>s.
               bnd (release ITABLE s) (\<lambda>s.
               bnd (itrunc W ip s) (\<lambda>s.
               bnd (iupdate W ip (set_inode ip (\<lambda>i. i\<lparr>i_type := 0\<rparr>) s)) (\<lambda>s.
               bnd (releasesleep (SLEEP_INODE ip) (set_inode ip (\<lambda>i. i\<lparr>i_valid := 0\<rparr>) s)) (\<lambda>s.
               acquire ITABLE s)))))
          else Ok s) (\<lambda>s.
     release ITABLE (set_inode ip (\<lambda>i. i\<lparr>i_ref := i_ref i - 1\<rparr>) s)))"

definition iunlockput :: "'z fsys_scheme world \<Rightarrow> nat \<Rightarrow> 'z fsys_scheme \<Rightarrow> 'z fsys_scheme res" where
  "iunlockput W ip s = bnd (iunlock ip s) (\<lambda>s. iput W ip s)"

record stat =
  st_dev :: uint32
  st_ino :: uint32
  st_type :: uint16
  st_nlink :: uint16
  st_size :: uint64

definition stati :: "inode \<Rightarrow> stat" where
  "stati i = \<lparr>st_dev = i_dev i, st_ino = i_inum i, st_type = i_type i, st_nlink = i_nlink i, st_size = ucast (i_size i)\<rparr>"

text \<open>\<open>m = min(n - tot, BSIZE - off%BSIZE)\<close>\<close>

definition block_rest :: "uint32 \<Rightarrow> uint32 \<Rightarrow> uint32 \<Rightarrow> uint32" where
  "block_rest n tot off = min (n - tot) (of_nat (BSIZE - unat off mod BSIZE))"

lemma block_rest_unat:
  "unat (block_rest n tot off) = min (unat (n - tot)) (BSIZE - unat off mod BSIZE)"
proof -
  have small: "k \<le> BSIZE \<Longrightarrow> unat (of_nat k :: uint32) = k" for k by (simp add: unat_of_nat)
  have "unat (of_nat (BSIZE - unat off mod BSIZE) :: uint32) = BSIZE - unat off mod BSIZE"
    by (rule small) simp
  then show ?thesis by (simp add: block_rest_def min_def word_le_nat_alt)
qed

lemma block_rest_measure: "tot < n \<Longrightarrow> unat (n - (tot + block_rest n tot off)) < unat (n - tot)"
proof -
  assume "tot < n"
  then have "0 < unat (n - tot)" using unat_sub [of tot n] by (simp add: word_less_nat_alt word_le_nat_alt)
  then have "0 < unat (block_rest n tot off)" "unat (block_rest n tot off) \<le> unat (n - tot)"
    by (simp_all add: block_rest_unat)
  then show ?thesis by (simp add: diff_diff_eq [symmetric] unat_sub word_le_nat_alt)
qed

text \<open>The loops of \<open>readi\<close> and \<open>writei\<close>. \<open>readi\<close> collects the bytes it delivers to a local object.\<close>

function readi_loop :: "'z fsys_scheme world \<Rightarrow> nat \<Rightarrow> target \<Rightarrow> uint32 \<Rightarrow> uint32 \<Rightarrow> uint32 \<Rightarrow> uint8 list \<Rightarrow> 'z fsys_scheme \<Rightarrow>
    (int \<times> uint8 list \<times> 'z fsys_scheme) res" where
  "readi_loop W ip dst off n tot acc s =
     (if tot < n
      then bnd (bmap W ip (off div 1024) s) (\<lambda>(addr, s).
           if addr = 0 then Ok (sint tot, acc, s)
           else bnd (bread W (i_dev (itable s ip)) addr s) (\<lambda>(bp, s).
             let m = block_rest n tot off in
             bnd (either_copyout dst (drop (unat off mod BSIZE) (b_data (bufs s bp))) (ucast m) s) (\<lambda>(r, bs, s).
             if r = -1 then bnd (brelse bp s) (\<lambda>s. Ok (-1, acc @ bs, s))
             else bnd (brelse bp s) (\<lambda>s.
               readi_loop W ip (target_add dst (ucast m)) (off + m) n (tot + m) (acc @ bs) s))))
      else Ok (sint tot, acc, s))"
  by pat_completeness auto
termination
  by (relation "measure (\<lambda>(W, ip, dst, off, n, tot, acc, s). unat (n - tot))") (auto intro: block_rest_measure)

definition readi :: "'z fsys_scheme world \<Rightarrow> nat \<Rightarrow> target \<Rightarrow> uint32 \<Rightarrow> uint32 \<Rightarrow> 'z fsys_scheme \<Rightarrow>
    (int \<times> uint8 list \<times> 'z fsys_scheme) res" where
  "readi W ip dst off n s =
     (let size = i_size (itable s ip)
      in if off > size \<or> off + n < off then Ok (0, [], s)
         else let n = (if off + n > size then size - off else n)
              in readi_loop W ip dst off n 0 [] s)"

function writei_loop :: "'z fsys_scheme world \<Rightarrow> nat \<Rightarrow> origin \<Rightarrow> uint32 \<Rightarrow> uint32 \<Rightarrow> uint32 \<Rightarrow> 'z fsys_scheme \<Rightarrow>
    (uint32 \<times> uint32 \<times> 'z fsys_scheme) res" where
  "writei_loop W ip src off n tot s =
     (if tot < n
      then bnd (bmap W ip (off div 1024) s) (\<lambda>(addr, s).
           if addr = 0 then Ok (tot, off, s)
           else bnd (bread W (i_dev (itable s ip)) addr s) (\<lambda>(bp, s).
             let m = block_rest n tot off in
             bnd (either_copyin src (ucast m) s) (\<lambda>(r, bs, s).
             let s = set_data bp (\<lambda>d. put_data d (unat off mod BSIZE) bs) s in
             if r = -1 then bnd (brelse bp s) (\<lambda>s. Ok (tot, off, s))
             else bnd (log_write bp s) (\<lambda>s.
               bnd (brelse bp s) (\<lambda>s.
               writei_loop W ip (origin_add src (ucast m)) (off + m) n (tot + m) s)))))
      else Ok (tot, off, s))"
  by pat_completeness auto
termination
  by (relation "measure (\<lambda>(W, ip, src, off, n, tot, s). unat (n - tot))") (auto intro: block_rest_measure)

declare readi_loop.simps [simp del] writei_loop.simps [simp del]

definition writei :: "'z fsys_scheme world \<Rightarrow> nat \<Rightarrow> origin \<Rightarrow> uint32 \<Rightarrow> uint32 \<Rightarrow> 'z fsys_scheme \<Rightarrow>
    (int \<times> 'z fsys_scheme) res" where
  "writei W ip src off n s =
     (if off > i_size (itable s ip) \<or> off + n < off then Ok (-1, s)
      else if off + n > of_nat (MAXFILE * BSIZE) then Ok (-1, s)
      else bnd (writei_loop W ip src off n 0 s) (\<lambda>(tot, off, s).
        let s = (if off > i_size (itable s ip) then set_inode ip (\<lambda>i. i\<lparr>i_size := off\<rparr>) s else s) in
        bnd (iupdate W ip s) (\<lambda>s. Ok (sint tot, s))))"

section \<open>Directories\<close>

text \<open>The byte a string pointer points to: 0 at the end of the list.\<close>

definition hd0 :: "uint8 list \<Rightarrow> uint8" where
  "hd0 xs = (case xs of [] \<Rightarrow> 0 | x # _ \<Rightarrow> x)"

primrec strncmp_bytes :: "nat \<Rightarrow> uint8 list \<Rightarrow> uint8 list \<Rightarrow> int" where
  "strncmp_bytes 0 p q = 0"
| "strncmp_bytes (Suc n) p q =
     (if hd0 p \<noteq> 0 \<and> hd0 p = hd0 q then strncmp_bytes n (tl p) (tl q)
      else uint (hd0 p) - uint (hd0 q))"

definition namecmp :: "uint8 list \<Rightarrow> uint8 list \<Rightarrow> int" where
  "namecmp s t = strncmp_bytes DIRSIZ s t"

text \<open>\<open>strncpy\<close> into an array of \<open>n\<close> bytes: the string, padded with zeros.\<close>

primrec strncpy_bytes :: "nat \<Rightarrow> uint8 list \<Rightarrow> uint8 list" where
  "strncpy_bytes 0 t = []"
| "strncpy_bytes (Suc n) t =
     (if hd0 t = 0 then 0 # replicate n 0 else hd0 t # strncpy_bytes n (tl t))"

definition de_inum :: "uint8 list \<Rightarrow> uint16" where
  "de_inum de = data16 de 0"

definition de_name :: "uint8 list \<Rightarrow> uint8 list" where
  "de_name de = drop 2 de"

text \<open>
  The loops over the entries of a directory. The bound is the number of entries that fit in its size:
  the directory is locked, so the size does not change.
\<close>

definition dir_bound :: "inode \<Rightarrow> nat" where
  "dir_bound i = Suc ((unat (i_size i) + 15) div 16)"

primrec dirlookup_loop :: "nat \<Rightarrow> 'z fsys_scheme world \<Rightarrow> nat \<Rightarrow> uint8 list \<Rightarrow> uint32 \<Rightarrow> 'z fsys_scheme \<Rightarrow>
    ((nat \<times> uint32) option \<times> 'z fsys_scheme) res" where
  "dirlookup_loop 0 W dp name off s = Hang"
| "dirlookup_loop (Suc k) W dp name off s =
     (if off < i_size (itable s dp)
      then bnd (readi W dp ToLocal off 16 s) (\<lambda>(r, de, s).
           if r \<noteq> 16 then Panic ''dirlookup read''
           else if de_inum de = 0 then dirlookup_loop k W dp name (off + 16) s
           else if namecmp name (de_name de) = 0
           then bnd (iget (i_dev (itable s dp)) (ucast (de_inum de)) s) (\<lambda>(ip, s). Ok (Some (ip, off), s))
           else dirlookup_loop k W dp name (off + 16) s)
      else Ok (None, s))"

text \<open>The result carries \<open>*poff\<close> along with the inode.\<close>

definition dirlookup :: "'z fsys_scheme world \<Rightarrow> nat \<Rightarrow> uint8 list \<Rightarrow> 'z fsys_scheme \<Rightarrow>
    ((nat \<times> uint32) option \<times> 'z fsys_scheme) res" where
  "dirlookup W dp name s =
     (if i_type (itable s dp) \<noteq> T_DIR then Panic ''dirlookup not DIR''
      else dirlookup_loop (dir_bound (itable s dp)) W dp name 0 s)"

primrec empty_dirent :: "nat \<Rightarrow> 'z fsys_scheme world \<Rightarrow> nat \<Rightarrow> uint32 \<Rightarrow> 'z fsys_scheme \<Rightarrow> (uint32 \<times> 'z fsys_scheme) res" where
  "empty_dirent 0 W dp off s = Hang"
| "empty_dirent (Suc k) W dp off s =
     (if off < i_size (itable s dp)
      then bnd (readi W dp ToLocal off 16 s) (\<lambda>(r, de, s).
           if r \<noteq> 16 then Panic ''dirlink read''
           else if de_inum de = 0 then Ok (off, s)
           else empty_dirent k W dp (off + 16) s)
      else Ok (off, s))"

definition dirlink :: "'z fsys_scheme world \<Rightarrow> nat \<Rightarrow> uint8 list \<Rightarrow> uint32 \<Rightarrow> 'z fsys_scheme \<Rightarrow> (int \<times> 'z fsys_scheme) res" where
  "dirlink W dp name inum s =
     bnd (dirlookup W dp name s) (\<lambda>(r, s).
     case r of
       Some (ip, _) \<Rightarrow> bnd (iput W ip s) (\<lambda>s. Ok (-1, s))
     | None \<Rightarrow>
         bnd (empty_dirent (dir_bound (itable s dp)) W dp 0 s) (\<lambda>(off, s).
         let de = nat_le 2 (unat inum mod 65536) @ strncpy_bytes DIRSIZ name in
         bnd (writei W dp (FromLocal de) off 16 s) (\<lambda>(r, s).
         Ok (if r \<noteq> 16 then -1 else 0, s))))"

section \<open>Path names\<close>

definition slash :: uint8 where "slash = 47"

definition skip_slashes :: "uint8 list \<Rightarrow> uint8 list" where
  "skip_slashes path = dropWhile (\<lambda>c. c = slash) path"

text \<open>
  \<open>skipelem\<close> returns the rest of the path and the new contents of \<open>name\<close>, or \<open>None\<close> for a null pointer,
  with \<open>name\<close> untouched.
\<close>

definition skipelem :: "uint8 list \<Rightarrow> uint8 list \<Rightarrow> (uint8 list \<times> uint8 list) option" where
  "skipelem path name =
     (let path = skip_slashes path
      in if hd0 path = 0 then None
         else let el = takeWhile (\<lambda>c. c \<noteq> slash \<and> c \<noteq> 0) path;
                  path = dropWhile (\<lambda>c. c \<noteq> slash \<and> c \<noteq> 0) path;
                  name = (if DIRSIZ \<le> length el then put_data name 0 (take DIRSIZ el)
                          else put_data name 0 (el @ [0]))
              in Some (skip_slashes path, name))"

lemma skipelem_shorter: "skipelem path name = Some (path', name') \<Longrightarrow> length path' < length path"
proof -
  assume a: "skipelem path name = Some (path', name')"
  let ?p = "skip_slashes path"
  let ?q = "dropWhile (\<lambda>c. c \<noteq> slash \<and> c \<noteq> 0) ?p"
  from a have hd: "hd0 ?p \<noteq> 0" and p': "path' = skip_slashes ?q"
    by (auto simp: skipelem_def Let_def split: if_splits)
  from hd obtain x xs where x: "?p = x # xs" "x \<noteq> 0" by (cases ?p) (auto simp: hd0_def)
  then have "x \<noteq> slash" using hd_dropWhile [of "\<lambda>c. c = slash" path] by (auto simp: skip_slashes_def)
  with x have "length ?q \<le> length xs" by (simp add: length_dropWhile_le)
  moreover have "length path' \<le> length ?q" by (simp add: p' skip_slashes_def length_dropWhile_le)
  moreover have "length ?p \<le> length path" by (simp add: skip_slashes_def length_dropWhile_le)
  ultimately show ?thesis using x by simp
qed

function namex_loop :: "'z fsys_scheme world \<Rightarrow> uint8 list \<Rightarrow> bool \<Rightarrow> uint8 list \<Rightarrow> nat \<Rightarrow> 'z fsys_scheme \<Rightarrow>
    (nat option \<times> uint8 list \<times> 'z fsys_scheme) res" where
  "namex_loop W path nameiparent name ip s =
     (case skipelem path name of
        None \<Rightarrow>
          if nameiparent then bnd (iput W ip s) (\<lambda>s. Ok (None, name, s)) else Ok (Some ip, name, s)
      | Some (path', name') \<Rightarrow>
          bnd (ilock W ip s) (\<lambda>s.
          if i_type (itable s ip) \<noteq> T_DIR
          then bnd (iunlockput W ip s) (\<lambda>s. Ok (None, name', s))
          else if nameiparent \<and> hd0 path' = 0
          then bnd (iunlock ip s) (\<lambda>s. Ok (Some ip, name', s))
          else bnd (dirlookup W ip name' s) (\<lambda>(r, s).
            case r of
              None \<Rightarrow> bnd (iunlockput W ip s) (\<lambda>s. Ok (None, name', s))
            | Some (next, _) \<Rightarrow> bnd (iunlockput W ip s) (\<lambda>s. namex_loop W path' nameiparent name' next s))))"
  by pat_completeness auto
termination
  by (relation "measure (\<lambda>(W, path, np, name, ip, s). length path)") (auto intro: skipelem_shorter)

declare namex_loop.simps [simp del]

definition namex :: "'z fsys_scheme world \<Rightarrow> uint8 list \<Rightarrow> bool \<Rightarrow> uint8 list \<Rightarrow> 'z fsys_scheme \<Rightarrow>
    (nat option \<times> uint8 list \<times> 'z fsys_scheme) res" where
  "namex W path nameiparent name s =
     bnd (if hd0 path = slash then iget ROOTDEV ROOTINO s
          else bnd (myproc s) (\<lambda>(p, s). bnd (deref p) (\<lambda>p.
               bnd (deref (p_cwd (procs s p))) (\<lambda>cwd. idup cwd s)))) (\<lambda>(ip, s).
     namex_loop W path nameiparent name ip s)"

definition namei :: "'z fsys_scheme world \<Rightarrow> uint8 list \<Rightarrow> 'z fsys_scheme \<Rightarrow> (nat option \<times> 'z fsys_scheme) res" where
  "namei W path s =
     bnd (namex W path False (replicate DIRSIZ 0) s) (\<lambda>(ip, name, s). Ok (ip, s))"

definition nameiparent :: "'z fsys_scheme world \<Rightarrow> uint8 list \<Rightarrow> uint8 list \<Rightarrow> 'z fsys_scheme \<Rightarrow>
    (nat option \<times> uint8 list \<times> 'z fsys_scheme) res" where
  "nameiparent W path name s = namex W path True name s"

end
