(* ===== verification/File.thy ===== *)
theory File
  imports Fs
begin

text \<open>
  Open files (\<open>kernel/file.c\<close>) and pipes (\<open>kernel/pipe.c\<close>). A pipe lives in a page of physical memory,
  its fields at their offsets in \<open>struct pipe\<close>; its lock is named after the address of the page.
\<close>

section \<open>State\<close>

abbreviation NFILE :: nat where "NFILE \<equiv> 100"
abbreviation NDEV :: nat where "NDEV \<equiv> 10"
abbreviation PIPESIZE :: nat where "PIPESIZE \<equiv> 512"

datatype ftype = FD_NONE | FD_PIPE | FD_INODE | FD_DEVICE

record kfile =
  f_type :: ftype
  f_ref :: int
  f_readable :: bool
  f_writable :: bool
  f_pipe :: addr
  f_ip :: nat
  f_off :: uint32
  f_major :: uint16

record files = fsys +
  ftable :: "nat \<Rightarrow> kfile"

definition set_file :: "nat \<Rightarrow> (kfile \<Rightarrow> kfile) \<Rightarrow> 'z files_scheme \<Rightarrow> 'z files_scheme" where
  "set_file f g s = s\<lparr>ftable := (ftable s)(f := g (ftable s f))\<rparr>"

text \<open>The fields of a pipe.\<close>

definition pipe_data :: "addr \<Rightarrow> nat \<Rightarrow> addr" where "pipe_data pi i = pi + 24 + of_nat (i mod PIPESIZE)"
definition pipe_nread :: "addr \<Rightarrow> addr" where "pipe_nread pi = pi + 536"
definition pipe_nwrite :: "addr \<Rightarrow> addr" where "pipe_nwrite pi = pi + 540"
definition pipe_readopen :: "addr \<Rightarrow> addr" where "pipe_readopen pi = pi + 544"
definition pipe_writeopen :: "addr \<Rightarrow> addr" where "pipe_writeopen pi = pi + 548"

definition nread :: "addr \<Rightarrow> memory \<Rightarrow> uint32" where "nread pi m = load32 m (pipe_nread pi)"
definition nwrite :: "addr \<Rightarrow> memory \<Rightarrow> uint32" where "nwrite pi m = load32 m (pipe_nwrite pi)"
definition readopen :: "addr \<Rightarrow> memory \<Rightarrow> uint32" where "readopen pi m = load32 m (pipe_readopen pi)"
definition writeopen :: "addr \<Rightarrow> memory \<Rightarrow> uint32" where "writeopen pi m = load32 m (pipe_writeopen pi)"

definition set32 :: "addr \<Rightarrow> uint32 \<Rightarrow> 'z machine_scheme \<Rightarrow> 'z machine_scheme" where
  "set32 a v s = s\<lparr>mem := store32 (mem s) a v\<rparr>"

section \<open>File structures\<close>

definition fileinit :: "'z files_scheme \<Rightarrow> 'z files_scheme" where
  "fileinit s = initlock FTABLE s"

primrec filealloc_scan :: "nat \<Rightarrow> nat \<Rightarrow> (nat \<Rightarrow> kfile) \<Rightarrow> nat option" where
  "filealloc_scan 0 f t = None"
| "filealloc_scan (Suc n) f t = (if f_ref (t f) = 0 then Some f else filealloc_scan n (Suc f) t)"

definition filealloc :: "'z files_scheme \<Rightarrow> (nat option \<times> 'z files_scheme) res" where
  "filealloc s =
     bnd (acquire FTABLE s) (\<lambda>s.
     case filealloc_scan NFILE 0 (ftable s) of
       Some f \<Rightarrow> bnd (release FTABLE (set_file f (\<lambda>u. u\<lparr>f_ref := 1\<rparr>) s)) (\<lambda>s. Ok (Some f, s))
     | None \<Rightarrow> bnd (release FTABLE s) (\<lambda>s. Ok (None, s)))"

definition filedup :: "nat \<Rightarrow> 'z files_scheme \<Rightarrow> (nat \<times> 'z files_scheme) res" where
  "filedup f s =
     bnd (acquire FTABLE s) (\<lambda>s.
     if f_ref (ftable s f) < 1 then Panic ''filedup''
     else bnd (release FTABLE (set_file f (\<lambda>u. u\<lparr>f_ref := f_ref u + 1\<rparr>) s)) (\<lambda>s. Ok (f, s)))"

definition pipeclose :: "addr \<Rightarrow> bool \<Rightarrow> 'z proctab_scheme \<Rightarrow> 'z proctab_scheme res" where
  "pipeclose pi wr s =
     bnd (acquire (PIPE pi) s) (\<lambda>s.
     bnd (if wr then wakeup (Some (ChPipeRead pi)) (set32 (pipe_writeopen pi) 0 s)
          else wakeup (Some (ChPipeWrite pi)) (set32 (pipe_readopen pi) 0 s)) (\<lambda>s.
     if readopen pi (mem s) = 0 \<and> writeopen pi (mem s) = 0
     then bnd (release (PIPE pi) s) (\<lambda>s. kfree pi s)
     else release (PIPE pi) s))"

definition fileclose :: "'z files_scheme world \<Rightarrow> nat \<Rightarrow> 'z files_scheme \<Rightarrow> 'z files_scheme res" where
  "fileclose W f s =
     bnd (acquire FTABLE s) (\<lambda>s.
     if f_ref (ftable s f) < 1 then Panic ''fileclose''
     else
       let s = set_file f (\<lambda>u. u\<lparr>f_ref := f_ref u - 1\<rparr>) s in
       if f_ref (ftable s f) > 0 then release FTABLE s
       else
         let ff = ftable s f;
             s = set_file f (\<lambda>u. u\<lparr>f_ref := 0, f_type := FD_NONE\<rparr>) s in
         bnd (release FTABLE s) (\<lambda>s.
         if f_type ff = FD_PIPE then pipeclose (f_pipe ff) (f_writable ff) s
         else if f_type ff = FD_INODE \<or> f_type ff = FD_DEVICE
         then bnd (begin_op W s) (\<lambda>s. bnd (iput W (f_ip ff) s) (\<lambda>s. end_op W s))
         else Ok s))"

section \<open>Pipes\<close>

text \<open>The label \<open>bad\<close> of \<open>pipealloc\<close>, where no page has been allocated.\<close>

definition pipealloc_bad :: "'z files_scheme world \<Rightarrow> nat option \<Rightarrow> nat option \<Rightarrow> 'z files_scheme \<Rightarrow>
    ((nat \<times> nat) option \<times> 'z files_scheme) res" where
  "pipealloc_bad W f0 f1 s =
     bnd (case f0 of Some f \<Rightarrow> fileclose W f s | None \<Rightarrow> Ok s) (\<lambda>s.
     bnd (case f1 of Some f \<Rightarrow> fileclose W f s | None \<Rightarrow> Ok s) (\<lambda>s.
     Ok (None, s)))"

text \<open>\<open>None\<close> is the result -1, \<open>Some (f0, f1)\<close> is 0 with the two files.\<close>

definition pipealloc :: "'z files_scheme world \<Rightarrow> 'z files_scheme \<Rightarrow> ((nat \<times> nat) option \<times> 'z files_scheme) res" where
  "pipealloc W s =
     bnd (filealloc s) (\<lambda>(f0, s).
     case f0 of
       None \<Rightarrow> pipealloc_bad W None None s
     | Some f0 \<Rightarrow>
         bnd (filealloc s) (\<lambda>(f1, s).
         case f1 of
           None \<Rightarrow> pipealloc_bad W (Some f0) None s
         | Some f1 \<Rightarrow>
             bnd (kalloc s) (\<lambda>(pi, s).
             if pi = 0 then pipealloc_bad W (Some f0) (Some f1) s
             else
               let s = set32 (pipe_readopen pi) 1 s;
                   s = set32 (pipe_writeopen pi) 1 s;
                   s = set32 (pipe_nwrite pi) 0 s;
                   s = set32 (pipe_nread pi) 0 s;
                   s = initlock (PIPE pi) s;
                   s = set_file f0 (\<lambda>u. u\<lparr>f_type := FD_PIPE, f_readable := True, f_writable := False, f_pipe := pi\<rparr>) s;
                   s = set_file f1 (\<lambda>u. u\<lparr>f_type := FD_PIPE, f_readable := False, f_writable := True, f_pipe := pi\<rparr>) s
               in Ok (Some (f0, f1), s))))"

definition pipe_put :: "addr \<Rightarrow> uint8 \<Rightarrow> 'z machine_scheme \<Rightarrow> 'z machine_scheme" where
  "pipe_put pi c s =
     (let i = unat (nwrite pi (mem s));
          s = set32 (pipe_nwrite pi) (nwrite pi (mem s) + 1) s
      in s\<lparr>mem := (mem s)(pipe_data pi i := c)\<rparr>)"

definition pipe_get :: "addr \<Rightarrow> 'z machine_scheme \<Rightarrow> uint8 \<times> 'z machine_scheme" where
  "pipe_get pi s =
     (mem s (pipe_data pi (unat (nread pi (mem s)))), set32 (pipe_nread pi) (nread pi (mem s) + 1) s)"

definition pipewrite_end :: "addr \<Rightarrow> nat \<Rightarrow> 'z proctab_scheme \<Rightarrow> (int \<times> 'z proctab_scheme) res" where
  "pipewrite_end pi i s =
     bnd (wakeup (Some (ChPipeRead pi)) s) (\<lambda>s. bnd (release (PIPE pi) s) (\<lambda>s. Ok (int i, s)))"

text \<open>The loop of \<open>pipewrite\<close>: it may sleep \<open>k\<close> more times and has \<open>m\<close> bytes to go, with \<open>i\<close> written.\<close>

fun pipewrite_loop :: "nat \<Rightarrow> nat \<Rightarrow> 'z proctab_scheme world \<Rightarrow> addr \<Rightarrow> uint64 \<Rightarrow> nat \<Rightarrow> nat \<Rightarrow> 'z proctab_scheme \<Rightarrow>
    (int \<times> 'z proctab_scheme) res" where
  "pipewrite_loop k 0 W pi addr i pr s = pipewrite_end pi i s"
| "pipewrite_loop k (Suc m) W pi addr i pr s =
     bnd (if readopen pi (mem s) = 0 then Ok (1, s) else killed pr s) (\<lambda>(d, s).
     if d \<noteq> 0 then bnd (release (PIPE pi) s) (\<lambda>s. Ok (-1, s))
     else if nwrite pi (mem s) = nread pi (mem s) + of_nat PIPESIZE
     then (case k of
             0 \<Rightarrow> Hang
           | Suc k' \<Rightarrow> bnd (wakeup (Some (ChPipeRead pi)) s) (\<lambda>s.
               bnd (sleep W (ChPipeWrite pi) (PIPE pi) s) (\<lambda>s. pipewrite_loop k' (Suc m) W pi addr i pr s)))
     else bnd (copyin (p_pagetable (procs s pr)) (addr + of_nat i) 1 s) (\<lambda>(r, ch).
       if r = -1 then pipewrite_end pi i s
       else pipewrite_loop k m W pi addr (Suc i) pr (pipe_put pi (hd ch) s)))"

definition pipewrite :: "'z proctab_scheme world \<Rightarrow> addr \<Rightarrow> uint64 \<Rightarrow> int \<Rightarrow> 'z proctab_scheme \<Rightarrow>
    (int \<times> 'z proctab_scheme) res" where
  "pipewrite W pi addr n s =
     bnd (myproc s) (\<lambda>(p, s). bnd (deref p) (\<lambda>pr.
     bnd (acquire (PIPE pi) s) (\<lambda>s.
     pipewrite_loop (rounds W) (nat n) W pi addr 0 pr s)))"

text \<open>Waiting while the pipe is empty; \<open>False\<close> when the process was killed, with the lock released.\<close>

primrec piperead_wait :: "nat \<Rightarrow> 'z proctab_scheme world \<Rightarrow> addr \<Rightarrow> nat \<Rightarrow> 'z proctab_scheme \<Rightarrow>
    (bool \<times> 'z proctab_scheme) res" where
  "piperead_wait 0 W pi pr s =
     (if nread pi (mem s) = nwrite pi (mem s) \<and> writeopen pi (mem s) \<noteq> 0 then Hang else Ok (True, s))"
| "piperead_wait (Suc k) W pi pr s =
     (if nread pi (mem s) = nwrite pi (mem s) \<and> writeopen pi (mem s) \<noteq> 0
      then bnd (killed pr s) (\<lambda>(d, s).
           if d \<noteq> 0 then bnd (release (PIPE pi) s) (\<lambda>s. Ok (False, s))
           else bnd (sleep W (ChPipeRead pi) (PIPE pi) s) (\<lambda>s. piperead_wait k W pi pr s))
      else Ok (True, s))"

text \<open>The copying loop: \<open>m\<close> bytes to go, \<open>i\<close> copied.\<close>

primrec piperead_copy :: "nat \<Rightarrow> addr \<Rightarrow> uint64 \<Rightarrow> nat \<Rightarrow> nat \<Rightarrow> 'z proctab_scheme \<Rightarrow> (nat \<times> 'z proctab_scheme) res" where
  "piperead_copy 0 pi addr i pr s = Ok (i, s)"
| "piperead_copy (Suc m) pi addr i pr s =
     (if nread pi (mem s) = nwrite pi (mem s) then Ok (i, s)
      else let (ch, s) = pipe_get pi s
           in bnd (copyout (p_pagetable (procs s pr)) (addr + of_nat i) [ch] 1 s) (\<lambda>(r, s).
              if r = -1 then Ok (i, s) else piperead_copy m pi addr (Suc i) pr s))"

definition piperead :: "'z proctab_scheme world \<Rightarrow> addr \<Rightarrow> uint64 \<Rightarrow> int \<Rightarrow> 'z proctab_scheme \<Rightarrow>
    (int \<times> 'z proctab_scheme) res" where
  "piperead W pi addr n s =
     bnd (myproc s) (\<lambda>(p, s). bnd (deref p) (\<lambda>pr.
     bnd (acquire (PIPE pi) s) (\<lambda>s.
     bnd (piperead_wait (rounds W) W pi pr s) (\<lambda>(ok, s).
     if \<not> ok then Ok (-1, s)
     else bnd (piperead_copy (nat n) pi addr 0 pr s) (\<lambda>(i, s).
       bnd (wakeup (Some (ChPipeWrite pi)) s) (\<lambda>s.
       bnd (release (PIPE pi) s) (\<lambda>s.
       Ok (int i, s))))))))"

section \<open>Reading and writing files\<close>

text \<open>\<open>struct stat\<close> has four bytes of padding, which are whatever the stack holds.\<close>

definition stat_bytes :: "uint8 list \<Rightarrow> stat \<Rightarrow> uint8 list" where
  "stat_bytes pad st = nat_le 4 (unat (st_dev st)) @ nat_le 4 (unat (st_ino st)) @ nat_le 2 (unat (st_type st))
     @ nat_le 2 (unat (st_nlink st)) @ take 4 (pad @ replicate 4 0) @ nat_le 8 (unat (st_size st))"

definition filestat :: "'z files_scheme world \<Rightarrow> uint8 list \<Rightarrow> nat \<Rightarrow> uint64 \<Rightarrow> 'z files_scheme \<Rightarrow> (int \<times> 'z files_scheme) res" where
  "filestat W pad f addr s =
     bnd (myproc s) (\<lambda>(p, s).
     if f_type (ftable s f) = FD_INODE \<or> f_type (ftable s f) = FD_DEVICE
     then let ip = f_ip (ftable s f) in
          bnd (ilock W ip s) (\<lambda>s.
          let st = stati (itable s ip) in
          bnd (iunlock ip s) (\<lambda>s.
          bnd (deref p) (\<lambda>p.
          bnd (copyout (p_pagetable (procs s p)) addr (stat_bytes pad st) 24 s) (\<lambda>(r, s).
          Ok (if r < 0 then -1 else 0, s)))))
     else Ok (-1, s))"

definition dev_ok :: "nat \<Rightarrow> 'z files_scheme \<Rightarrow> bool" where
  "dev_ok f s \<longleftrightarrow> 0 \<le> sint (f_major (ftable s f)) \<and> sint (f_major (ftable s f)) < int NDEV
     \<and> devsw s (unat (f_major (ftable s f)))"

definition fileread :: "'z files_scheme world \<Rightarrow> nat \<Rightarrow> uint64 \<Rightarrow> int \<Rightarrow> 'z files_scheme \<Rightarrow> (int \<times> 'z files_scheme) res" where
  "fileread W f addr n s =
     (if \<not> f_readable (ftable s f) then Ok (-1, s)
      else case f_type (ftable s f) of
        FD_PIPE \<Rightarrow> piperead W (f_pipe (ftable s f)) addr n s
      | FD_DEVICE \<Rightarrow> if dev_ok f s then consoleread W (ToUser addr) n s else Ok (-1, s)
      | FD_INODE \<Rightarrow>
          let ip = f_ip (ftable s f) in
          bnd (ilock W ip s) (\<lambda>s.
          bnd (readi W ip (ToUser addr) (f_off (ftable s f)) (of_int n) s) (\<lambda>(r, _, s).
          let s = (if r > 0 then set_file f (\<lambda>u. u\<lparr>f_off := f_off u + of_int r\<rparr>) s else s) in
          bnd (iunlock ip s) (\<lambda>s. Ok (r, s))))
      | FD_NONE \<Rightarrow> Panic ''fileread'')"

definition max_write :: int where "max_write = int ((MAXOPBLOCKS - 1 - 1 - 2) div 2 * BSIZE)"

function filewrite_loop :: "'z files_scheme world \<Rightarrow> nat \<Rightarrow> uint64 \<Rightarrow> int \<Rightarrow> int \<Rightarrow> 'z files_scheme \<Rightarrow> (int \<times> 'z files_scheme) res" where
  "filewrite_loop W f addr n i s =
     (if i < n
      then let n1 = min (n - i) max_write; ip = f_ip (ftable s f) in
           bnd (begin_op W s) (\<lambda>s.
           bnd (ilock W ip s) (\<lambda>s.
           bnd (writei W ip (FromUser (addr + of_int i)) (f_off (ftable s f)) (of_int n1) s) (\<lambda>(r, s).
           let s = (if r > 0 then set_file f (\<lambda>u. u\<lparr>f_off := f_off u + of_int r\<rparr>) s else s) in
           bnd (iunlock ip s) (\<lambda>s.
           bnd (end_op W s) (\<lambda>s.
           if r \<noteq> n1 then Ok (i, s) else filewrite_loop W f addr n (i + r) s)))))
      else Ok (i, s))"
  by pat_completeness auto
termination
  by (relation "measure (\<lambda>(W, f, addr, n, i, s). nat (n - i))") (auto simp: max_write_def)

declare filewrite_loop.simps [simp del]

definition filewrite :: "'z files_scheme world \<Rightarrow> nat \<Rightarrow> uint64 \<Rightarrow> int \<Rightarrow> 'z files_scheme \<Rightarrow> (int \<times> 'z files_scheme) res" where
  "filewrite W f addr n s =
     (if \<not> f_writable (ftable s f) then Ok (-1, s)
      else case f_type (ftable s f) of
        FD_PIPE \<Rightarrow> pipewrite W (f_pipe (ftable s f)) addr n s
      | FD_DEVICE \<Rightarrow> if dev_ok f s then consolewrite W (FromUser addr) n s else Ok (-1, s)
      | FD_INODE \<Rightarrow> bnd (filewrite_loop W f addr n 0 s) (\<lambda>(i, s). Ok (if i = n then n else -1, s))
      | FD_NONE \<Rightarrow> Panic ''filewrite'')"

end
