(* ===== verification/Process.thy ===== *)
theory Process
  imports File
begin

text \<open>
  Creation and end of processes (\<open>fork\<close>, \<open>exit\<close> and \<open>userinit\<close> of \<open>kernel/proc.c\<close>), over the process table
  and the file layer.
\<close>

section \<open>Names\<close>

text \<open>
  The bytes \<open>safestrcpy\<close> writes into an array of \<open>n\<close> bytes: when the terminator is copied, the pointer
  has moved on and a second zero is stored behind it.
\<close>

primrec safestrcpy_run :: "nat \<Rightarrow> uint8 list \<Rightarrow> uint8 list" where
  "safestrcpy_run 0 t = [0]"
| "safestrcpy_run (Suc k) t = hd0 t # (if hd0 t = 0 then [0] else safestrcpy_run k (tl t))"

definition safestrcpy_bytes :: "nat \<Rightarrow> uint8 list \<Rightarrow> uint8 list \<Rightarrow> uint8 list" where
  "safestrcpy_bytes n a t = (if n = 0 then a else put_data a 0 (safestrcpy_run (n - 1) t))"

section \<open>The first process\<close>

definition initcode :: "uint8 list" where
  "initcode = [
  0x17, 0x05, 0x00, 0x00, 0x13, 0x05, 0x45, 0x02,
  0x97, 0x05, 0x00, 0x00, 0x93, 0x85, 0x35, 0x02,
  0x93, 0x08, 0x70, 0x00, 0x73, 0x00, 0x00, 0x00,
  0x93, 0x08, 0x20, 0x00, 0x73, 0x00, 0x00, 0x00,
  0xef, 0xf0, 0x9f, 0xff, 0x2f, 0x69, 0x6e, 0x69,
  0x74, 0x00, 0x00, 0x24, 0x00, 0x00, 0x00, 0x00,
  0x00, 0x00, 0x00, 0x00]"

definition set_tf :: "nat \<Rightarrow> addr \<Rightarrow> uint64 \<Rightarrow> 'z proctab_scheme \<Rightarrow> 'z proctab_scheme" where
  "set_tf p off v s = s\<lparr>mem := store64 (mem s) (p_trapframe (procs s p) + off) v\<rparr>"

definition get_tf :: "nat \<Rightarrow> addr \<Rightarrow> 'z proctab_scheme \<Rightarrow> uint64" where
  "get_tf p off s = load64 (mem s) (p_trapframe (procs s p) + off)"

definition userinit :: "'z files_scheme world \<Rightarrow> 'z files_scheme \<Rightarrow> 'z files_scheme res" where
  "userinit W s =
     bnd (allocproc s) (\<lambda>(p, s).
     let s = s\<lparr>initproc := p\<rparr> in
     bnd (deref p) (\<lambda>p.
     bnd (uvmfirst (p_pagetable (procs s p)) initcode (of_nat (length initcode)) s) (\<lambda>s.
     let s = set_proc p (\<lambda>q. q\<lparr>p_sz := 4096\<rparr>) s;
         s = set_tf p tf_epc 0 s;
         s = set_tf p tf_sp 4096 s;
         s = set_proc p (\<lambda>q. q\<lparr>p_name := safestrcpy_bytes 16 (p_name q) (bytes ''initcode'')\<rparr>) s in
     bnd (namei W (bytes ''/'') s) (\<lambda>(cwd, s).
     let s = set_proc p (\<lambda>q. q\<lparr>p_cwd := cwd, p_state := RUNNABLE\<rparr>) s in
     release (PROC p) s))))"

section \<open>fork\<close>

definition fork_files :: "nat \<Rightarrow> nat \<Rightarrow> 'z files_scheme \<Rightarrow> 'z files_scheme res" where
  "fork_files p np s =
     for_upto 0 NOFILE (\<lambda>i s.
       case p_ofile (procs s p) i of
         Some f \<Rightarrow> bnd (filedup f s) (\<lambda>(f, s). Ok (set_proc np (\<lambda>q. q\<lparr>p_ofile := (p_ofile q)(i := Some f)\<rparr>) s))
       | None \<Rightarrow> Ok s) s"

definition fork :: "'z files_scheme \<Rightarrow> (int \<times> 'z files_scheme) res" where
  "fork s =
     bnd (myproc s) (\<lambda>(p, s).
     bnd (allocproc s) (\<lambda>(np, s).
     case np of
       None \<Rightarrow> Ok (-1, s)
     | Some np \<Rightarrow>
         bnd (deref p) (\<lambda>p.
         bnd (uvmcopy (p_pagetable (procs s p)) (p_pagetable (procs s np)) (p_sz (procs s p)) s) (\<lambda>(r, s).
         if r < 0
         then bnd (freeproc np s) (\<lambda>s. bnd (release (PROC np) s) (\<lambda>s. Ok (-1, s)))
         else
           let s = set_proc np (\<lambda>q. q\<lparr>p_sz := p_sz (procs s p)\<rparr>) s;
               s = s\<lparr>mem := store_bytes (mem s) (p_trapframe (procs s np))
                     (load_bytes (mem s) (p_trapframe (procs s p)) sizeof_trapframe)\<rparr>;
               s = set_tf np (tf_a 0) 0 s in
           bnd (fork_files p np s) (\<lambda>s.
           bnd (deref (p_cwd (procs s p))) (\<lambda>cwd.
           bnd (idup cwd s) (\<lambda>(cwd, s).
           let s = set_proc np (\<lambda>q. q\<lparr>p_cwd := Some cwd\<rparr>) s;
               s = set_proc np (\<lambda>q. q\<lparr>p_name := safestrcpy_bytes 16 (p_name q) (p_name (procs s p))\<rparr>) s;
               pid = p_pid (procs s np) in
           bnd (release (PROC np) s) (\<lambda>s.
           bnd (acquire WAIT_LOCK s) (\<lambda>s.
           let s = set_proc np (\<lambda>q. q\<lparr>p_parent := Some p\<rparr>) s in
           bnd (release WAIT_LOCK s) (\<lambda>s.
           bnd (acquire (PROC np) s) (\<lambda>s.
           let s = set_proc np (\<lambda>q. q\<lparr>p_state := RUNNABLE\<rparr>) s in
           bnd (release (PROC np) s) (\<lambda>s.
           Ok (sint pid, s)))))))))))))"

section \<open>exit\<close>

definition exit_files :: "'z files_scheme world \<Rightarrow> nat \<Rightarrow> 'z files_scheme \<Rightarrow> 'z files_scheme res" where
  "exit_files W p s =
     for_upto 0 NOFILE (\<lambda>fd s.
       case p_ofile (procs s p) fd of
         Some f \<Rightarrow> bnd (fileclose W f s) (\<lambda>s. Ok (set_proc p (\<lambda>q. q\<lparr>p_ofile := (p_ofile q)(fd := None)\<rparr>) s))
       | None \<Rightarrow> Ok s) s"

text \<open>\<open>exit\<close> does not return: the process is never switched back in, or \<open>panic\<close> stops the machine.\<close>

definition exit :: "'z files_scheme world \<Rightarrow> uint32 \<Rightarrow> 'z files_scheme \<Rightarrow> 'z files_scheme res" where
  "exit W status s =
     bnd (myproc s) (\<lambda>(p, s).
     if p = initproc s then Panic ''init exiting''
     else bnd (deref p) (\<lambda>p.
       bnd (exit_files W p s) (\<lambda>s.
       bnd (begin_op W s) (\<lambda>s.
       bnd (deref (p_cwd (procs s p))) (\<lambda>cwd.
       bnd (iput W cwd s) (\<lambda>s.
       bnd (end_op W s) (\<lambda>s.
       let s = set_proc p (\<lambda>q. q\<lparr>p_cwd := None\<rparr>) s in
       bnd (acquire WAIT_LOCK s) (\<lambda>s.
       bnd (reparent p s) (\<lambda>s.
       bnd (wakeup (map_option ChProc (p_parent (procs s p))) s) (\<lambda>s.
       bnd (acquire (PROC p) s) (\<lambda>s.
       let s = set_proc p (\<lambda>q. q\<lparr>p_xstate := status, p_state := ZOMBIE\<rparr>) s in
       bnd (release WAIT_LOCK s) (\<lambda>s.
       bnd (sched W s) (\<lambda>s.
       Panic ''zombie exit'')))))))))))))"

end
