(* ===== verification/Exec.thy ===== *)
theory Exec
  imports Process
begin

text \<open>
  Loading a program (\<open>kernel/exec.c\<close>). The header structures are decoded from the bytes \<open>readi\<close> delivers;
  the argument strings are byte lists without their terminators.
\<close>

section \<open>ELF headers\<close>

definition data64 :: "uint8 list \<Rightarrow> nat \<Rightarrow> uint64" where
  "data64 bs off = of_nat (le_nat (take 8 (drop off bs)))"

definition ELF_MAGIC_K :: uint32 where "ELF_MAGIC_K = 0x464C457F"
definition ELF_PROG_LOAD :: uint32 where "ELF_PROG_LOAD = 1"

record kelfhdr =
  e_magic :: uint32
  e_entry :: uint64
  e_phoff :: uint64
  e_phnum :: uint16

definition decode_elfhdr :: "uint8 list \<Rightarrow> kelfhdr" where
  "decode_elfhdr bs = \<lparr>e_magic = data32 bs 0, e_entry = data64 bs 24, e_phoff = data64 bs 32, e_phnum = data16 bs 56\<rparr>"

record kproghdr =
  pp_type :: uint32
  pp_flags :: uint32
  pp_off :: uint64
  pp_vaddr :: uint64
  pp_filesz :: uint64
  pp_memsz :: uint64

definition decode_proghdr :: "uint8 list \<Rightarrow> kproghdr" where
  "decode_proghdr bs = \<lparr>pp_type = data32 bs 0, pp_flags = data32 bs 4, pp_off = data64 bs 8, pp_vaddr = data64 bs 16,
     pp_filesz = data64 bs 32, pp_memsz = data64 bs 40\<rparr>"

definition flags2perm :: "uint32 \<Rightarrow> uint64" where
  "flags2perm flags =
     (let perm = (if flags AND 1 \<noteq> 0 then PTE_X else 0)
      in if flags AND 2 \<noteq> 0 then perm OR PTE_W else perm)"

section \<open>Segments\<close>

lemma loadseg_measure:
  assumes "i < sz" "i + 4096 > i"
  shows "unat sz - unat (i + 4096) < unat sz - unat (i :: uint32)"
  using assms by (simp add: word_less_nat_alt)

text \<open>
  The loop counter is a 32-bit \<open>uint\<close>: with a size in the last page below \<open>2 ^ 32\<close> it wraps to 0 and the
  loop does not end.
\<close>

function loadseg_loop :: "'z files_scheme world \<Rightarrow> addr \<Rightarrow> uint64 \<Rightarrow> nat \<Rightarrow> uint32 \<Rightarrow> uint32 \<Rightarrow> uint32 \<Rightarrow> 'z files_scheme \<Rightarrow>
    (int \<times> 'z files_scheme) res" where
  "loadseg_loop W pagetable va ip offset sz i s =
     (if i < sz
      then bnd (walkaddr pagetable (va + ucast i) s) (\<lambda>(pa, s).
           if pa = 0 then Panic ''loadseg: address should exist''
           else
             let n = (if sz - i < 4096 then sz - i else 4096) in
             bnd (readi W ip (ToKernel pa) (offset + i) n s) (\<lambda>(r, _, s).
             if r \<noteq> sint n then Ok (-1, s)
             else if i + 4096 > i then loadseg_loop W pagetable va ip offset sz (i + 4096) s
             else Hang))
      else Ok (0, s))"
  by pat_completeness auto
termination
  by (relation "measure (\<lambda>(W, pt, va, ip, offset, sz, i, s). unat sz - unat i)") (auto intro: loadseg_measure)

declare loadseg_loop.simps [simp del]

definition loadseg :: "'z files_scheme world \<Rightarrow> addr \<Rightarrow> uint64 \<Rightarrow> nat \<Rightarrow> uint32 \<Rightarrow> uint32 \<Rightarrow> 'z files_scheme \<Rightarrow>
    (int \<times> 'z files_scheme) res" where
  "loadseg W pagetable va ip offset sz s = loadseg_loop W pagetable va ip offset sz 0 s"

text \<open>
  The loop over the program headers: \<open>Inr sz\<close> after the last one, \<open>Inl sz\<close> where the code goes to \<open>bad\<close>.
\<close>

primrec load_segments :: "nat \<Rightarrow> 'z files_scheme world \<Rightarrow> addr \<Rightarrow> nat \<Rightarrow> uint32 \<Rightarrow> uint64 \<Rightarrow> 'z files_scheme \<Rightarrow>
    ((uint64 + uint64) \<times> 'z files_scheme) res" where
  "load_segments 0 W pagetable ip off sz s = Ok (Inr sz, s)"
| "load_segments (Suc n) W pagetable ip off sz s =
     bnd (readi W ip ToLocal off 56 s) (\<lambda>(r, bs, s).
     if r \<noteq> 56 then Ok (Inl sz, s)
     else
       let ph = decode_proghdr bs in
       if pp_type ph \<noteq> ELF_PROG_LOAD then load_segments n W pagetable ip (off + 56) sz s
       else if pp_memsz ph < pp_filesz ph then Ok (Inl sz, s)
       else if pp_vaddr ph + pp_memsz ph < pp_vaddr ph then Ok (Inl sz, s)
       else if pp_vaddr ph mod 4096 \<noteq> 0 then Ok (Inl sz, s)
       else bnd (uvmalloc pagetable sz (pp_vaddr ph + pp_memsz ph) (flags2perm (pp_flags ph)) s) (\<lambda>(sz1, s).
         if sz1 = 0 then Ok (Inl sz, s)
         else bnd (loadseg W pagetable (pp_vaddr ph) ip (ucast (pp_off ph)) (ucast (pp_filesz ph)) s) (\<lambda>(r, s).
           if r < 0 then Ok (Inl sz1, s)
           else load_segments n W pagetable ip (off + 56) sz1 s)))"

section \<open>The argument stack\<close>

abbreviation MAXARG :: nat where "MAXARG \<equiv> 32"

text \<open>
  Push the strings; \<open>ustack\<close> is the list of their addresses so far. \<open>None\<close> where the code goes to \<open>bad\<close>.
\<close>

primrec push_args :: "uint8 list list \<Rightarrow> addr \<Rightarrow> uint64 \<Rightarrow> uint64 \<Rightarrow> uint64 list \<Rightarrow> 'z kmem_scheme \<Rightarrow>
    ((uint64 \<times> uint64 list) option \<times> 'z kmem_scheme) res" where
  "push_args [] pagetable sp stackbase ustack s = Ok (Some (sp, ustack), s)"
| "push_args (a # as) pagetable sp stackbase ustack s =
     (if MAXARG \<le> length ustack then Ok (None, s)
      else
        let sp = sp - of_nat (length a + 1);
            sp = sp - sp mod 16
        in if sp < stackbase then Ok (None, s)
           else bnd (copyout pagetable sp (a @ [0]) (of_nat (length a + 1)) s) (\<lambda>(r, s).
             if r < 0 then Ok (None, s)
             else push_args as pagetable sp stackbase (ustack @ [sp]) s))"

text \<open>The strings and then the array of pointers to them, ended by a null pointer.\<close>

definition push_argv :: "uint8 list list \<Rightarrow> addr \<Rightarrow> uint64 \<Rightarrow> uint64 \<Rightarrow> 'z kmem_scheme \<Rightarrow> (uint64 option \<times> 'z kmem_scheme) res" where
  "push_argv argv pagetable sp stackbase s =
     bnd (push_args argv pagetable sp stackbase [] s) (\<lambda>(r, s).
     case r of
       None \<Rightarrow> Ok (None, s)
     | Some (sp, ustack) \<Rightarrow>
         let sp = sp - of_nat (8 * (length ustack + 1));
             sp = sp - sp mod 16
         in if sp < stackbase then Ok (None, s)
            else bnd (copyout pagetable sp (concat (map (\<lambda>a. nat_le 8 (unat a)) (ustack @ [0])))
                        (of_nat (8 * (length ustack + 1))) s) (\<lambda>(r, s).
              Ok (if r < 0 then None else Some sp, s)))"

text \<open>The part of the path after its last slash.\<close>

fun last_elem :: "uint8 list \<Rightarrow> uint8 list \<Rightarrow> uint8 list" where
  "last_elem la [] = la"
| "last_elem la (c # cs) = (if c = 0 then la else if c = slash then last_elem cs cs else last_elem la cs)"

section \<open>exec\<close>

text \<open>The label \<open>bad\<close>.\<close>

definition exec_bad :: "'z files_scheme world \<Rightarrow> addr \<Rightarrow> uint64 \<Rightarrow> nat option \<Rightarrow> 'z files_scheme \<Rightarrow> (int \<times> 'z files_scheme) res" where
  "exec_bad W pagetable sz ip s =
     bnd (if pagetable \<noteq> 0 then proc_freepagetable pagetable sz s else Ok s) (\<lambda>s.
     bnd (case ip of
            Some ip \<Rightarrow> bnd (iunlockput W ip s) (\<lambda>s. end_op W s)
          | None \<Rightarrow> Ok s) (\<lambda>s.
     Ok (-1, s)))"

text \<open>From the stack allocation to the commit.\<close>

definition exec_commit :: "'z files_scheme world \<Rightarrow> uint8 list \<Rightarrow> uint8 list list \<Rightarrow> kelfhdr \<Rightarrow> addr \<Rightarrow> uint64 \<Rightarrow> 'z files_scheme \<Rightarrow>
    (int \<times> 'z files_scheme) res" where
  "exec_commit W path argv elf pagetable sz s =
     bnd (myproc s) (\<lambda>(p, s). bnd (deref p) (\<lambda>p.
     let oldsz = p_sz (procs s p);
         sz = PGROUNDUP sz in
     bnd (uvmalloc pagetable sz (sz + 8192) PTE_W s) (\<lambda>(sz1, s).
     if sz1 = 0 then exec_bad W pagetable sz None s
     else
       let sz = sz1 in
       bnd (uvmclear pagetable (sz - 8192) s) (\<lambda>s.
       bnd (push_argv argv pagetable sz (sz - 4096) s) (\<lambda>(r, s).
       case r of
         None \<Rightarrow> exec_bad W pagetable sz None s
       | Some sp \<Rightarrow>
           let s = set_tf p (tf_a 1) sp s;
               s = set_proc p (\<lambda>q. q\<lparr>p_name := safestrcpy_bytes 16 (p_name q) (last_elem path path)\<rparr>) s;
               oldpagetable = p_pagetable (procs s p);
               s = set_proc p (\<lambda>q. q\<lparr>p_pagetable := pagetable, p_sz := sz\<rparr>) s;
               s = set_tf p tf_epc (e_entry elf) s;
               s = set_tf p tf_sp sp s in
           bnd (proc_freepagetable oldpagetable oldsz s) (\<lambda>s.
           Ok (int (length argv), s)))))))"

definition exec :: "'z files_scheme world \<Rightarrow> uint8 list \<Rightarrow> uint8 list list \<Rightarrow> 'z files_scheme \<Rightarrow> (int \<times> 'z files_scheme) res" where
  "exec W path argv s =
     bnd (myproc s) (\<lambda>(p, s). bnd (deref p) (\<lambda>p.
     bnd (begin_op W s) (\<lambda>s.
     bnd (namei W path s) (\<lambda>(ip, s).
     case ip of
       None \<Rightarrow> bnd (end_op W s) (\<lambda>s. Ok (-1, s))
     | Some ip \<Rightarrow>
         bnd (ilock W ip s) (\<lambda>s.
         bnd (readi W ip ToLocal 0 64 s) (\<lambda>(r, bs, s).
         let elf = decode_elfhdr bs in
         if r \<noteq> 64 \<or> e_magic elf \<noteq> ELF_MAGIC_K then exec_bad W 0 0 (Some ip) s
         else bnd (proc_pagetable p s) (\<lambda>(pagetable, s).
           if pagetable = 0 then exec_bad W 0 0 (Some ip) s
           else bnd (load_segments (unat (e_phnum elf)) W pagetable ip (ucast (e_phoff elf)) 0 s) (\<lambda>(r, s).
             case r of
               Inl sz \<Rightarrow> exec_bad W pagetable sz (Some ip) s
             | Inr sz \<Rightarrow>
                 bnd (iunlockput W ip s) (\<lambda>s.
                 bnd (end_op W s) (\<lambda>s.
                 exec_commit W path argv elf pagetable sz s))))))))))"

end
