(* ===== verification/Sysfile.thy ===== *)
theory Sysfile
  imports Exec
begin

text \<open>
  System call arguments (\<open>kernel/syscall.c\<close>) and the system calls on files (\<open>kernel/sysfile.c\<close>). A result is
  the value the handler returns; \<open>syscall\<close> stores it as a 64-bit word.
\<close>

section \<open>The kernel's state\<close>

text \<open>
  The last fields: the tick counter; the registers of the traps; what the interrupt controller answers
  and what was written to it; the addresses of assembly routines; and the padding of a \<open>struct stat\<close> on
  the kernel stack.
\<close>

record kernel_state = files +
  ticks :: uint32
  stack_pad :: "uint8 list"
  forkret_first :: bool
  started :: bool
  stvec :: "hart \<Rightarrow> uint64"
  sepc :: "hart \<Rightarrow> uint64"
  scause :: "hart \<Rightarrow> uint64"
  stval :: "hart \<Rightarrow> uint64"
  spp :: "hart \<Rightarrow> bool"
  spie :: "hart \<Rightarrow> bool"
  rtime :: uint64
  stimecmp :: "hart \<Rightarrow> uint64"
  plic_irq :: "hart \<Rightarrow> uint32"
  plic_out :: "(addr \<times> uint32) list"
  uart_burst :: nat
  kernelvec :: uint64
  uservec :: uint64
  userret :: uint64
  usertrap_addr :: uint64
  user_jump :: "(uint64 \<times> uint64) option"

section \<open>Arguments\<close>

definition fetchaddr :: "uint64 \<Rightarrow> 'z proctab_scheme \<Rightarrow> (int \<times> uint64 \<times> 'z proctab_scheme) res" where
  "fetchaddr addr s =
     bnd (myproc s) (\<lambda>(p, s). bnd (deref p) (\<lambda>p.
     let sz = p_sz (procs s p) in
     if addr \<ge> sz \<or> addr + 8 > sz then Ok (-1, 0, s)
     else bnd (copyin (p_pagetable (procs s p)) addr 8 s) (\<lambda>(r, bs).
       if r \<noteq> 0 then Ok (-1, 0, s) else Ok (0, data64 bs 0, s))))"

text \<open>The bytes are those written to the buffer; the string is what precedes the terminator.\<close>

definition fetchstr :: "uint64 \<Rightarrow> uint64 \<Rightarrow> 'z proctab_scheme \<Rightarrow> (int \<times> uint8 list \<times> 'z proctab_scheme) res" where
  "fetchstr addr mx s =
     bnd (myproc s) (\<lambda>(p, s). bnd (deref p) (\<lambda>p.
     bnd (copyinstr (p_pagetable (procs s p)) addr mx s) (\<lambda>(r, bs).
     if r < 0 then Ok (-1, bs, s)
     else Ok (int (length (takeWhile (\<lambda>c. c \<noteq> 0) bs)), bs, s))))"

definition argraw :: "nat \<Rightarrow> 'z proctab_scheme \<Rightarrow> (uint64 \<times> 'z proctab_scheme) res" where
  "argraw n s =
     bnd (myproc s) (\<lambda>(p, s).
     if n \<le> 5 then bnd (deref p) (\<lambda>p. Ok (get_tf p (tf_a n) s, s))
     else Panic ''argraw'')"

definition argint :: "nat \<Rightarrow> 'z proctab_scheme \<Rightarrow> (int \<times> 'z proctab_scheme) res" where
  "argint n s = bnd (argraw n s) (\<lambda>(v, s). Ok (sint (ucast v :: uint32), s))"

definition argaddr :: "nat \<Rightarrow> 'z proctab_scheme \<Rightarrow> (uint64 \<times> 'z proctab_scheme) res" where
  "argaddr n s = argraw n s"

definition argstr :: "nat \<Rightarrow> uint64 \<Rightarrow> 'z proctab_scheme \<Rightarrow> (int \<times> uint8 list \<times> 'z proctab_scheme) res" where
  "argstr n mx s = bnd (argaddr n s) (\<lambda>(addr, s). fetchstr addr mx s)"

definition MAXPATH :: uint64 where "MAXPATH = 128"

definition argfd :: "nat \<Rightarrow> 'z proctab_scheme \<Rightarrow> ((nat \<times> nat) option \<times> 'z proctab_scheme) res" where
  "argfd n s =
     bnd (argint n s) (\<lambda>(fd, s).
     if fd < 0 \<or> fd \<ge> int NOFILE then Ok (None, s)
     else bnd (myproc s) (\<lambda>(p, s). bnd (deref p) (\<lambda>p.
       Ok (case p_ofile (procs s p) (nat fd) of None \<Rightarrow> None | Some f \<Rightarrow> Some (nat fd, f), s))))"

primrec fd_scan :: "nat \<Rightarrow> nat \<Rightarrow> (nat \<Rightarrow> nat option) \<Rightarrow> nat option" where
  "fd_scan 0 fd o' = None"
| "fd_scan (Suc n) fd o' = (if o' fd = None then Some fd else fd_scan n (Suc fd) o')"

definition set_fd :: "nat \<Rightarrow> nat \<Rightarrow> nat option \<Rightarrow> 'z proctab_scheme \<Rightarrow> 'z proctab_scheme" where
  "set_fd p fd f s = set_proc p (\<lambda>q. q\<lparr>p_ofile := (p_ofile q)(fd := f)\<rparr>) s"

definition fdalloc :: "nat \<Rightarrow> 'z proctab_scheme \<Rightarrow> (int \<times> 'z proctab_scheme) res" where
  "fdalloc f s =
     bnd (myproc s) (\<lambda>(p, s). bnd (deref p) (\<lambda>p.
     case fd_scan NOFILE 0 (p_ofile (procs s p)) of
       Some fd \<Rightarrow> Ok (int fd, set_fd p fd (Some f) s)
     | None \<Rightarrow> Ok (-1, s)))"

section \<open>Descriptors\<close>

definition sys_dup :: "'z kernel_state_scheme \<Rightarrow> (int \<times> 'z kernel_state_scheme) res" where
  "sys_dup s =
     bnd (argfd 0 s) (\<lambda>(r, s).
     case r of
       None \<Rightarrow> Ok (-1, s)
     | Some (_, f) \<Rightarrow>
         bnd (fdalloc f s) (\<lambda>(fd, s).
         if fd < 0 then Ok (-1, s)
         else bnd (filedup f s) (\<lambda>(_, s). Ok (fd, s))))"

definition sys_read :: "'z kernel_state_scheme world \<Rightarrow> 'z kernel_state_scheme \<Rightarrow> (int \<times> 'z kernel_state_scheme) res" where
  "sys_read W s =
     bnd (argaddr 1 s) (\<lambda>(p, s).
     bnd (argint 2 s) (\<lambda>(n, s).
     bnd (argfd 0 s) (\<lambda>(r, s).
     case r of None \<Rightarrow> Ok (-1, s) | Some (_, f) \<Rightarrow> fileread W f p n s)))"

definition sys_write :: "'z kernel_state_scheme world \<Rightarrow> 'z kernel_state_scheme \<Rightarrow> (int \<times> 'z kernel_state_scheme) res" where
  "sys_write W s =
     bnd (argaddr 1 s) (\<lambda>(p, s).
     bnd (argint 2 s) (\<lambda>(n, s).
     bnd (argfd 0 s) (\<lambda>(r, s).
     case r of None \<Rightarrow> Ok (-1, s) | Some (_, f) \<Rightarrow> filewrite W f p n s)))"

definition sys_close :: "'z kernel_state_scheme world \<Rightarrow> 'z kernel_state_scheme \<Rightarrow> (int \<times> 'z kernel_state_scheme) res" where
  "sys_close W s =
     bnd (argfd 0 s) (\<lambda>(r, s).
     case r of
       None \<Rightarrow> Ok (-1, s)
     | Some (fd, f) \<Rightarrow>
         bnd (myproc s) (\<lambda>(p, s). bnd (deref p) (\<lambda>p.
         bnd (fileclose W f (set_fd p fd None s)) (\<lambda>s. Ok (0, s)))))"

definition sys_fstat :: "'z kernel_state_scheme world \<Rightarrow> 'z kernel_state_scheme \<Rightarrow> (int \<times> 'z kernel_state_scheme) res" where
  "sys_fstat W s =
     bnd (argaddr 1 s) (\<lambda>(st, s).
     bnd (argfd 0 s) (\<lambda>(r, s).
     case r of None \<Rightarrow> Ok (-1, s) | Some (_, f) \<Rightarrow> filestat W (stack_pad s) f st s))"

section \<open>Links\<close>

text \<open>\<open>end_op()\<close> and a return value.\<close>

definition op_return :: "'z kernel_state_scheme world \<Rightarrow> int \<Rightarrow> 'z kernel_state_scheme \<Rightarrow> (int \<times> 'z kernel_state_scheme) res" where
  "op_return W r s = bnd (end_op W s) (\<lambda>s. Ok (r, s))"

definition add_nlink :: "nat \<Rightarrow> uint16 \<Rightarrow> 'z fsys_scheme \<Rightarrow> 'z fsys_scheme" where
  "add_nlink ip k s = set_inode ip (\<lambda>i. i\<lparr>i_nlink := i_nlink i + k\<rparr>) s"

definition sys_link_bad :: "'z kernel_state_scheme world \<Rightarrow> nat \<Rightarrow> 'z kernel_state_scheme \<Rightarrow> (int \<times> 'z kernel_state_scheme) res" where
  "sys_link_bad W ip s =
     bnd (ilock W ip s) (\<lambda>s.
     bnd (iupdate W ip (add_nlink ip (-1) s)) (\<lambda>s.
     bnd (iunlockput W ip s) (\<lambda>s.
     op_return W (-1) s)))"

definition sys_link :: "'z kernel_state_scheme world \<Rightarrow> 'z kernel_state_scheme \<Rightarrow> (int \<times> 'z kernel_state_scheme) res" where
  "sys_link W s =
     bnd (argstr 0 MAXPATH s) (\<lambda>(r, old, s).
     if r < 0 then Ok (-1, s)
     else bnd (argstr 1 MAXPATH s) (\<lambda>(r, new, s).
       if r < 0 then Ok (-1, s)
       else bnd (begin_op W s) (\<lambda>s.
         bnd (namei W old s) (\<lambda>(ip, s).
         case ip of
           None \<Rightarrow> op_return W (-1) s
         | Some ip \<Rightarrow>
             bnd (ilock W ip s) (\<lambda>s.
             if i_type (itable s ip) = T_DIR then bnd (iunlockput W ip s) (\<lambda>s. op_return W (-1) s)
             else bnd (iupdate W ip (add_nlink ip 1 s)) (\<lambda>s.
               bnd (iunlock ip s) (\<lambda>s.
               bnd (nameiparent W new (replicate DIRSIZ 0) s) (\<lambda>(dp, name, s).
               case dp of
                 None \<Rightarrow> sys_link_bad W ip s
               | Some dp \<Rightarrow>
                   bnd (ilock W dp s) (\<lambda>s.
                   bnd (if i_dev (itable s dp) \<noteq> i_dev (itable s ip) then Ok (-1, s)
                        else dirlink W dp name (i_inum (itable s ip)) s) (\<lambda>(r, s).
                   if r < 0 then bnd (iunlockput W dp s) (\<lambda>s. sys_link_bad W ip s)
                   else bnd (iunlockput W dp s) (\<lambda>s.
                     bnd (iput W ip s) (\<lambda>s.
                     op_return W 0 s))))))))))))"

primrec isdirempty_loop :: "nat \<Rightarrow> 'z fsys_scheme world \<Rightarrow> nat \<Rightarrow> uint32 \<Rightarrow> 'z fsys_scheme \<Rightarrow> (bool \<times> 'z fsys_scheme) res" where
  "isdirempty_loop 0 W dp off s = Hang"
| "isdirempty_loop (Suc k) W dp off s =
     (if off < i_size (itable s dp)
      then bnd (readi W dp ToLocal off 16 s) (\<lambda>(r, de, s).
           if r \<noteq> 16 then Panic ''isdirempty: readi''
           else if de_inum de \<noteq> 0 then Ok (False, s)
           else isdirempty_loop k W dp (off + 16) s)
      else Ok (True, s))"

definition isdirempty :: "'z fsys_scheme world \<Rightarrow> nat \<Rightarrow> 'z fsys_scheme \<Rightarrow> (bool \<times> 'z fsys_scheme) res" where
  "isdirempty W dp s = isdirempty_loop (dir_bound (itable s dp)) W dp 32 s"

definition unlink_bad :: "'z kernel_state_scheme world \<Rightarrow> nat \<Rightarrow> 'z kernel_state_scheme \<Rightarrow> (int \<times> 'z kernel_state_scheme) res" where
  "unlink_bad W dp s = bnd (iunlockput W dp s) (\<lambda>s. op_return W (-1) s)"

definition sys_unlink :: "'z kernel_state_scheme world \<Rightarrow> 'z kernel_state_scheme \<Rightarrow> (int \<times> 'z kernel_state_scheme) res" where
  "sys_unlink W s =
     bnd (argstr 0 MAXPATH s) (\<lambda>(r, path, s).
     if r < 0 then Ok (-1, s)
     else bnd (begin_op W s) (\<lambda>s.
       bnd (nameiparent W path (replicate DIRSIZ 0) s) (\<lambda>(dp, name, s).
       case dp of
         None \<Rightarrow> op_return W (-1) s
       | Some dp \<Rightarrow>
           bnd (ilock W dp s) (\<lambda>s.
           if namecmp name (bytes ''.'') = 0 \<or> namecmp name (bytes ''..'') = 0 then unlink_bad W dp s
           else bnd (dirlookup W dp name s) (\<lambda>(r, s).
             case r of
               None \<Rightarrow> unlink_bad W dp s
             | Some (ip, off) \<Rightarrow>
                 bnd (ilock W ip s) (\<lambda>s.
                 if sint (i_nlink (itable s ip)) < 1 then Panic ''unlink: nlink < 1''
                 else bnd (if i_type (itable s ip) = T_DIR then isdirempty W ip s else Ok (True, s)) (\<lambda>(em, s).
                   if \<not> em then bnd (iunlockput W ip s) (\<lambda>s. unlink_bad W dp s)
                   else bnd (writei W dp (FromLocal (replicate 16 0)) off 16 s) (\<lambda>(r, s).
                     if r \<noteq> 16 then Panic ''unlink: writei''
                     else bnd (if i_type (itable s ip) = T_DIR then iupdate W dp (add_nlink dp (-1) s) else Ok s) (\<lambda>s.
                       bnd (iunlockput W dp s) (\<lambda>s.
                       bnd (iupdate W ip (add_nlink ip (-1) s)) (\<lambda>s.
                       bnd (iunlockput W ip s) (\<lambda>s.
                       op_return W 0 s))))))))))))"

section \<open>Creating and opening\<close>

text \<open>The label \<open>fail\<close> of \<open>create\<close>.\<close>

definition create_fail :: "'z fsys_scheme world \<Rightarrow> nat \<Rightarrow> nat \<Rightarrow> 'z fsys_scheme \<Rightarrow> (nat option \<times> 'z fsys_scheme) res" where
  "create_fail W ip dp s =
     bnd (iupdate W ip (set_inode ip (\<lambda>i. i\<lparr>i_nlink := 0\<rparr>) s)) (\<lambda>s.
     bnd (iunlockput W ip s) (\<lambda>s.
     bnd (iunlockput W dp s) (\<lambda>s.
     Ok (None, s))))"

text \<open>The entries \<open>.\<close> and \<open>..\<close> of a new directory; the second is not written when the first fails.\<close>

definition link_dots :: "'z fsys_scheme world \<Rightarrow> nat \<Rightarrow> nat \<Rightarrow> 'z fsys_scheme \<Rightarrow> (int \<times> 'z fsys_scheme) res" where
  "link_dots W ip dp s =
     bnd (dirlink W ip (bytes ''.'') (i_inum (itable s ip)) s) (\<lambda>(r, s).
     if r < 0 then Ok (-1, s) else dirlink W ip (bytes ''..'') (i_inum (itable s dp)) s)"

definition create :: "'z fsys_scheme world \<Rightarrow> uint8 list \<Rightarrow> uint16 \<Rightarrow> uint16 \<Rightarrow> uint16 \<Rightarrow> 'z fsys_scheme \<Rightarrow>
    (nat option \<times> 'z fsys_scheme) res" where
  "create W path type major minor s =
     bnd (nameiparent W path (replicate DIRSIZ 0) s) (\<lambda>(dp, name, s).
     case dp of
       None \<Rightarrow> Ok (None, s)
     | Some dp \<Rightarrow>
         bnd (ilock W dp s) (\<lambda>s.
         bnd (dirlookup W dp name s) (\<lambda>(r, s).
         case r of
           Some (ip, _) \<Rightarrow>
             bnd (iunlockput W dp s) (\<lambda>s.
             bnd (ilock W ip s) (\<lambda>s.
             if type = T_FILE \<and> (i_type (itable s ip) = T_FILE \<or> i_type (itable s ip) = T_DEVICE)
             then Ok (Some ip, s)
             else bnd (iunlockput W ip s) (\<lambda>s. Ok (None, s))))
         | None \<Rightarrow>
             bnd (ialloc W (i_dev (itable s dp)) type s) (\<lambda>(ip, s).
             case ip of
               None \<Rightarrow> bnd (iunlockput W dp s) (\<lambda>s. Ok (None, s))
             | Some ip \<Rightarrow>
                 bnd (ilock W ip s) (\<lambda>s.
                 bnd (iupdate W ip (set_inode ip (\<lambda>i. i\<lparr>i_major := major, i_minor := minor, i_nlink := 1\<rparr>) s)) (\<lambda>s.
                 bnd (if type = T_DIR then link_dots W ip dp s else Ok (0, s)) (\<lambda>(r, s).
                 if r < 0 then create_fail W ip dp s
                 else bnd (dirlink W dp name (i_inum (itable s ip)) s) (\<lambda>(r, s).
                   if r < 0 then create_fail W ip dp s
                   else bnd (if type = T_DIR then iupdate W dp (add_nlink dp 1 s) else Ok s) (\<lambda>s.
                     bnd (iunlockput W dp s) (\<lambda>s.
                     Ok (Some ip, s)))))))))))"

definition O_WRONLY :: uint32 where "O_WRONLY = 1"
definition O_RDWR :: uint32 where "O_RDWR = 2"
definition O_CREATE :: uint32 where "O_CREATE = 0x200"
definition O_TRUNC :: uint32 where "O_TRUNC = 0x400"

text \<open>The inode \<open>sys_open\<close> goes on with, locked; \<open>None\<close> when it has to give up.\<close>

definition open_inode :: "'z fsys_scheme world \<Rightarrow> uint8 list \<Rightarrow> uint32 \<Rightarrow> 'z fsys_scheme \<Rightarrow> (nat option \<times> 'z fsys_scheme) res" where
  "open_inode W path omode s =
     bnd (if omode AND O_CREATE \<noteq> 0 then create W path T_FILE 0 0 s
          else bnd (namei W path s) (\<lambda>(ip, s).
            case ip of
              None \<Rightarrow> Ok (None, s)
            | Some ip \<Rightarrow>
                bnd (ilock W ip s) (\<lambda>s.
                if i_type (itable s ip) = T_DIR \<and> omode \<noteq> 0 then bnd (iunlockput W ip s) (\<lambda>s. Ok (None, s))
                else Ok (Some ip, s)))) (\<lambda>(ip, s).
     case ip of
       None \<Rightarrow> Ok (None, s)
     | Some ip \<Rightarrow>
         if i_type (itable s ip) = T_DEVICE
            \<and> (sint (i_major (itable s ip)) < 0 \<or> sint (i_major (itable s ip)) \<ge> int NDEV)
         then bnd (iunlockput W ip s) (\<lambda>s. Ok (None, s))
         else Ok (Some ip, s))"

definition open_file :: "nat \<Rightarrow> nat \<Rightarrow> uint32 \<Rightarrow> 'z files_scheme \<Rightarrow> 'z files_scheme" where
  "open_file f ip omode s =
     (let s = (if i_type (itable s ip) = T_DEVICE
               then set_file f (\<lambda>u. u\<lparr>f_type := FD_DEVICE, f_major := i_major (itable s ip)\<rparr>) s
               else set_file f (\<lambda>u. u\<lparr>f_type := FD_INODE, f_off := 0\<rparr>) s)
      in set_file f (\<lambda>u. u\<lparr>f_ip := ip, f_readable := (omode AND O_WRONLY = 0),
           f_writable := (omode AND O_WRONLY \<noteq> 0 \<or> omode AND O_RDWR \<noteq> 0)\<rparr>) s)"

definition sys_open :: "'z kernel_state_scheme world \<Rightarrow> 'z kernel_state_scheme \<Rightarrow> (int \<times> 'z kernel_state_scheme) res" where
  "sys_open W s =
     bnd (argint 1 s) (\<lambda>(om, s).
     bnd (argstr 0 MAXPATH s) (\<lambda>(n, path, s).
     if n < 0 then Ok (-1, s)
     else
       let omode = of_int om :: uint32 in
       bnd (begin_op W s) (\<lambda>s.
       bnd (open_inode W path omode s) (\<lambda>(ip, s).
       case ip of
         None \<Rightarrow> op_return W (-1) s
       | Some ip \<Rightarrow>
           bnd (filealloc s) (\<lambda>(f, s).
           bnd (case f of None \<Rightarrow> Ok (-1, s) | Some f \<Rightarrow> fdalloc f s) (\<lambda>(fd, s).
           if fd < 0
           then bnd (case f of None \<Rightarrow> Ok s | Some f \<Rightarrow> fileclose W f s) (\<lambda>s.
                bnd (iunlockput W ip s) (\<lambda>s.
                op_return W (-1) s))
           else
             let s = open_file (the f) ip omode s in
             bnd (if omode AND O_TRUNC \<noteq> 0 \<and> i_type (itable s ip) = T_FILE then itrunc W ip s else Ok s) (\<lambda>s.
             bnd (iunlock ip s) (\<lambda>s.
             op_return W fd s))))))))"

text \<open>Create, and give the inode back.\<close>

definition make_node :: "'z kernel_state_scheme world \<Rightarrow> int \<Rightarrow> uint8 list \<Rightarrow> uint16 \<Rightarrow> uint16 \<Rightarrow> uint16 \<Rightarrow> 'z kernel_state_scheme \<Rightarrow>
    (int \<times> 'z kernel_state_scheme) res" where
  "make_node W n path type major minor s =
     (if n < 0 then op_return W (-1) s
      else bnd (create W path type major minor s) (\<lambda>(ip, s).
        case ip of
          None \<Rightarrow> op_return W (-1) s
        | Some ip \<Rightarrow> bnd (iunlockput W ip s) (\<lambda>s. op_return W 0 s)))"

definition sys_mkdir :: "'z kernel_state_scheme world \<Rightarrow> 'z kernel_state_scheme \<Rightarrow> (int \<times> 'z kernel_state_scheme) res" where
  "sys_mkdir W s =
     bnd (begin_op W s) (\<lambda>s.
     bnd (argstr 0 MAXPATH s) (\<lambda>(n, path, s).
     make_node W n path T_DIR 0 0 s))"

definition sys_mknod :: "'z kernel_state_scheme world \<Rightarrow> 'z kernel_state_scheme \<Rightarrow> (int \<times> 'z kernel_state_scheme) res" where
  "sys_mknod W s =
     bnd (begin_op W s) (\<lambda>s.
     bnd (argint 1 s) (\<lambda>(major, s).
     bnd (argint 2 s) (\<lambda>(minor, s).
     bnd (argstr 0 MAXPATH s) (\<lambda>(n, path, s).
     make_node W n path T_DEVICE (of_int major) (of_int minor) s))))"

definition sys_chdir :: "'z kernel_state_scheme world \<Rightarrow> 'z kernel_state_scheme \<Rightarrow> (int \<times> 'z kernel_state_scheme) res" where
  "sys_chdir W s =
     bnd (myproc s) (\<lambda>(p, s). bnd (deref p) (\<lambda>p.
     bnd (begin_op W s) (\<lambda>s.
     bnd (argstr 0 MAXPATH s) (\<lambda>(n, path, s).
     if n < 0 then op_return W (-1) s
     else bnd (namei W path s) (\<lambda>(ip, s).
       case ip of
         None \<Rightarrow> op_return W (-1) s
       | Some ip \<Rightarrow>
           bnd (ilock W ip s) (\<lambda>s.
           if i_type (itable s ip) \<noteq> T_DIR then bnd (iunlockput W ip s) (\<lambda>s. op_return W (-1) s)
           else bnd (iunlock ip s) (\<lambda>s.
             bnd (deref (p_cwd (procs s p))) (\<lambda>cwd.
             bnd (iput W cwd s) (\<lambda>s.
             bnd (end_op W s) (\<lambda>s.
             Ok (0, set_proc p (\<lambda>q. q\<lparr>p_cwd := Some ip\<rparr>) s)))))))))))"

section \<open>exec and pipe\<close>

text \<open>
  The argument loop of \<open>sys_exec\<close>, with \<open>n\<close> slots of \<open>argv\<close> left: the pages allocated so far, and the
  strings, or \<open>None\<close> where the code goes to \<open>bad\<close>.
\<close>

primrec exec_args :: "nat \<Rightarrow> uint64 \<Rightarrow> addr list \<Rightarrow> uint8 list list \<Rightarrow> 'z proctab_scheme \<Rightarrow>
    (addr list \<times> uint8 list list option \<times> 'z proctab_scheme) res" where
  "exec_args 0 uargv pages args s = Ok (pages, None, s)"
| "exec_args (Suc n) uargv pages args s =
     bnd (fetchaddr uargv s) (\<lambda>(r, uarg, s).
     if r < 0 then Ok (pages, None, s)
     else if uarg = 0 then Ok (pages, Some args, s)
     else bnd (kalloc s) (\<lambda>(pg, s).
       if pg = 0 then Ok (pages, None, s)
       else bnd (fetchstr uarg 4096 s) (\<lambda>(r, bs, s).
         let s = s\<lparr>mem := store_bytes (mem s) pg bs\<rparr> in
         if r < 0 then Ok (pages @ [pg], None, s)
         else exec_args n (uargv + 8) (pages @ [pg]) (args @ [takeWhile (\<lambda>c. c \<noteq> 0) bs]) s)))"

primrec free_args :: "addr list \<Rightarrow> 'z kmem_scheme \<Rightarrow> 'z kmem_scheme res" where
  "free_args [] s = Ok s"
| "free_args (pg # pages) s = bnd (kfree pg s) (\<lambda>s. free_args pages s)"

definition sys_exec :: "'z kernel_state_scheme world \<Rightarrow> 'z kernel_state_scheme \<Rightarrow> (int \<times> 'z kernel_state_scheme) res" where
  "sys_exec W s =
     bnd (argaddr 1 s) (\<lambda>(uargv, s).
     bnd (argstr 0 MAXPATH s) (\<lambda>(n, path, s).
     if n < 0 then Ok (-1, s)
     else bnd (exec_args MAXARG uargv [] [] s) (\<lambda>(pages, argv, s).
       case argv of
         None \<Rightarrow> bnd (free_args pages s) (\<lambda>s. Ok (-1, s))
       | Some argv \<Rightarrow>
           bnd (exec W path argv s) (\<lambda>(ret, s).
           bnd (free_args pages s) (\<lambda>s. Ok (ret, s))))))"

definition pipe_fail :: "'z kernel_state_scheme world \<Rightarrow> nat \<Rightarrow> nat \<Rightarrow> 'z kernel_state_scheme \<Rightarrow> (int \<times> 'z kernel_state_scheme) res" where
  "pipe_fail W rfl wfl s =
     bnd (fileclose W rfl s) (\<lambda>s. bnd (fileclose W wfl s) (\<lambda>s. Ok (-1, s)))"

definition sys_pipe :: "'z kernel_state_scheme world \<Rightarrow> 'z kernel_state_scheme \<Rightarrow> (int \<times> 'z kernel_state_scheme) res" where
  "sys_pipe W s =
     bnd (myproc s) (\<lambda>(p, s). bnd (deref p) (\<lambda>p.
     bnd (argaddr 0 s) (\<lambda>(fdarray, s).
     bnd (pipealloc W s) (\<lambda>(r, s).
     case r of
       None \<Rightarrow> Ok (-1, s)
     | Some (rfl, wfl) \<Rightarrow>
         bnd (fdalloc rfl s) (\<lambda>(fd0, s).
         bnd (if fd0 < 0 then Ok (-1, s) else fdalloc wfl s) (\<lambda>(fd1, s).
         if fd0 < 0 \<or> fd1 < 0
         then pipe_fail W rfl wfl (if fd0 \<ge> 0 then set_fd p (nat fd0) None s else s)
         else
           bnd (copyout (p_pagetable (procs s p)) fdarray (nat_le 4 (nat fd0)) 4 s) (\<lambda>(r, s).
           bnd (if r < 0 then Ok (-1, s)
                else copyout (p_pagetable (procs s p)) (fdarray + 4) (nat_le 4 (nat fd1)) 4 s) (\<lambda>(r, s).
           if r < 0
           then pipe_fail W rfl wfl (set_fd p (nat fd1) None (set_fd p (nat fd0) None s))
           else Ok (0, s)))))))))"

end
