(* ===== verification/Trap.thy ===== *)
theory Trap
  imports Sysfile
begin

text \<open>
  The remaining system calls (\<open>kernel/sysproc.c\<close>), the dispatcher (\<open>kernel/syscall.c\<close>), the interrupt
  controller (\<open>kernel/plic.c\<close>), traps (\<open>kernel/trap.c\<close>, \<open>forkret\<close> of \<open>kernel/proc.c\<close>) and the start of the
  kernel (\<open>kernel/main.c\<close>). Of \<open>sstatus\<close> the bits \<open>SIE\<close>, \<open>SPIE\<close> and \<open>SPP\<close> are modelled. The jump to user mode is recorded
  in \<open>user_jump\<close>.
\<close>

section \<open>System calls on processes\<close>

definition sys_exit :: "'z kernel_state_scheme world \<Rightarrow> 'z kernel_state_scheme \<Rightarrow> (int \<times> 'z kernel_state_scheme) res" where
  "sys_exit W s =
     bnd (argint 0 s) (\<lambda>(n, s).
     bnd (exit W (of_int n) s) (\<lambda>s. Ok (0, s)))"

definition sys_getpid :: "'z kernel_state_scheme \<Rightarrow> (int \<times> 'z kernel_state_scheme) res" where
  "sys_getpid s = bnd (myproc s) (\<lambda>(p, s). bnd (deref p) (\<lambda>p. Ok (sint (p_pid (procs s p)), s)))"

definition sys_fork :: "'z kernel_state_scheme \<Rightarrow> (int \<times> 'z kernel_state_scheme) res" where
  "sys_fork s = fork s"

definition sys_wait :: "'z kernel_state_scheme world \<Rightarrow> 'z kernel_state_scheme \<Rightarrow> (int \<times> 'z kernel_state_scheme) res" where
  "sys_wait W s = bnd (argaddr 0 s) (\<lambda>(p, s). wait W p s)"

definition sys_sbrk :: "'z kernel_state_scheme \<Rightarrow> (int \<times> 'z kernel_state_scheme) res" where
  "sys_sbrk s =
     bnd (argint 0 s) (\<lambda>(n, s).
     bnd (myproc s) (\<lambda>(p, s). bnd (deref p) (\<lambda>p.
     let addr = p_sz (procs s p) in
     bnd (growproc n s) (\<lambda>(r, s).
     Ok (if r < 0 then -1 else uint addr, s)))))"

text \<open>\<open>ticks - ticks0 < n\<close> is a comparison of 32-bit unsigned numbers.\<close>

primrec sleep_ticks :: "nat \<Rightarrow> 'z kernel_state_scheme world \<Rightarrow> uint32 \<Rightarrow> uint32 \<Rightarrow> 'z kernel_state_scheme \<Rightarrow>
    (int \<times> 'z kernel_state_scheme) res" where
  "sleep_ticks 0 W ticks0 n s = (if ticks s - ticks0 < n then Hang else bnd (release TICKS s) (\<lambda>s. Ok (0, s)))"
| "sleep_ticks (Suc k) W ticks0 n s =
     (if ticks s - ticks0 < n
      then bnd (myproc s) (\<lambda>(p, s). bnd (deref p) (\<lambda>p. bnd (killed p s) (\<lambda>(d, s).
           if d \<noteq> 0 then bnd (release TICKS s) (\<lambda>s. Ok (-1, s))
           else bnd (sleep W ChTicks TICKS s) (\<lambda>s. sleep_ticks k W ticks0 n s))))
      else bnd (release TICKS s) (\<lambda>s. Ok (0, s)))"

definition sys_sleep :: "'z kernel_state_scheme world \<Rightarrow> 'z kernel_state_scheme \<Rightarrow> (int \<times> 'z kernel_state_scheme) res" where
  "sys_sleep W s =
     bnd (argint 0 s) (\<lambda>(n, s).
     let n = (if n < 0 then 0 else n) in
     bnd (acquire TICKS s) (\<lambda>s.
     sleep_ticks (rounds W) W (ticks s) (of_int n) s))"

definition sys_kill :: "'z kernel_state_scheme \<Rightarrow> (int \<times> 'z kernel_state_scheme) res" where
  "sys_kill s = bnd (argint 0 s) (\<lambda>(pid, s). kill (of_int pid) s)"

definition sys_uptime :: "'z kernel_state_scheme \<Rightarrow> (int \<times> 'z kernel_state_scheme) res" where
  "sys_uptime s =
     bnd (acquire TICKS s) (\<lambda>s.
     let xticks = ticks s in
     bnd (release TICKS s) (\<lambda>s. Ok (uint xticks, s)))"

section \<open>The dispatcher\<close>

text \<open>The table of handlers.\<close>

definition syscalls :: "int \<Rightarrow> ('z kernel_state_scheme world \<Rightarrow> 'z kernel_state_scheme \<Rightarrow> (int \<times> 'z kernel_state_scheme) res) option" where
  "syscalls num =
     (if num = 1 then Some (\<lambda>W. sys_fork)
      else if num = 2 then Some sys_exit
      else if num = 3 then Some sys_wait
      else if num = 4 then Some sys_pipe
      else if num = 5 then Some sys_read
      else if num = 6 then Some (\<lambda>W. sys_kill)
      else if num = 7 then Some sys_exec
      else if num = 8 then Some sys_fstat
      else if num = 9 then Some sys_chdir
      else if num = 10 then Some (\<lambda>W. sys_dup)
      else if num = 11 then Some (\<lambda>W. sys_getpid)
      else if num = 12 then Some (\<lambda>W. sys_sbrk)
      else if num = 13 then Some sys_sleep
      else if num = 14 then Some (\<lambda>W. sys_uptime)
      else if num = 15 then Some sys_open
      else if num = 16 then Some sys_write
      else if num = 17 then Some sys_mknod
      else if num = 18 then Some sys_unlink
      else if num = 19 then Some sys_link
      else if num = 20 then Some sys_mkdir
      else if num = 21 then Some sys_close
      else None)"

definition syscall :: "'z kernel_state_scheme world \<Rightarrow> 'z kernel_state_scheme \<Rightarrow> 'z kernel_state_scheme res" where
  "syscall W s =
     bnd (myproc s) (\<lambda>(p, s). bnd (deref p) (\<lambda>p.
     let num = sint (ucast (get_tf p (tf_a 7) s) :: uint32) in
     case syscalls num of
       Some handler \<Rightarrow> bnd (handler W s) (\<lambda>(r, s). Ok (set_tf p (tf_a 0) (of_int r) s))
     | None \<Rightarrow>
         bnd (printf (msg ''%d %s: unknown sys call %d'')
                [Num (ucast (p_pid (procs s p))), Str (Some (p_name (procs s p))), Num (of_int num)] s) (\<lambda>s.
         Ok (set_tf p (tf_a 0) (-1) s))))"

section \<open>The interrupt controller\<close>

definition UART0_IRQ :: nat where "UART0_IRQ = 10"
definition VIRTIO0_IRQ :: nat where "VIRTIO0_IRQ = 1"

definition PLIC_SENABLE :: "hart \<Rightarrow> addr" where "PLIC_SENABLE hart = PLIC + 0x2080 + of_nat hart * 0x100"
definition PLIC_SPRIORITY :: "hart \<Rightarrow> addr" where "PLIC_SPRIORITY hart = PLIC + 0x201000 + of_nat hart * 0x2000"
definition PLIC_SCLAIM :: "hart \<Rightarrow> addr" where "PLIC_SCLAIM hart = PLIC + 0x201004 + of_nat hart * 0x2000"

definition plic_write :: "addr \<Rightarrow> uint32 \<Rightarrow> 'z kernel_state_scheme \<Rightarrow> 'z kernel_state_scheme" where
  "plic_write a v s = s\<lparr>plic_out := plic_out s @ [(a, v)]\<rparr>"

definition plicinit :: "'z kernel_state_scheme \<Rightarrow> 'z kernel_state_scheme" where
  "plicinit s = plic_write (PLIC + of_nat (VIRTIO0_IRQ * 4)) 1 (plic_write (PLIC + of_nat (UART0_IRQ * 4)) 1 s)"

definition plicinithart :: "'z kernel_state_scheme \<Rightarrow> 'z kernel_state_scheme" where
  "plicinithart s =
     (let hart = cpuid s;
          s = plic_write (PLIC_SENABLE hart) (push_bit UART0_IRQ 1 OR push_bit VIRTIO0_IRQ 1) s
      in plic_write (PLIC_SPRIORITY hart) 0 s)"

text \<open>The claim register answers with the pending interrupt.\<close>

definition plic_claim :: "'z kernel_state_scheme \<Rightarrow> int" where
  "plic_claim s = sint (plic_irq s (cpuid s))"

definition plic_complete :: "int \<Rightarrow> 'z kernel_state_scheme \<Rightarrow> 'z kernel_state_scheme" where
  "plic_complete irq s = plic_write (PLIC_SCLAIM (cpuid s)) (of_int irq) s"

section \<open>Traps\<close>

definition trapinit :: "'z kernel_state_scheme \<Rightarrow> 'z kernel_state_scheme" where
  "trapinit s = initlock TICKS s"

definition trapinithart :: "'z kernel_state_scheme \<Rightarrow> 'z kernel_state_scheme" where
  "trapinithart s = s\<lparr>stvec := (stvec s)(tp s := kernelvec s)\<rparr>"

definition clockintr :: "'z kernel_state_scheme \<Rightarrow> 'z kernel_state_scheme res" where
  "clockintr s =
     bnd (if cpuid s = 0
          then bnd (acquire TICKS s) (\<lambda>s.
               bnd (wakeup (Some ChTicks) (s\<lparr>ticks := ticks s + 1\<rparr>)) (\<lambda>s.
               release TICKS s))
          else Ok s) (\<lambda>s.
     Ok (s\<lparr>stimecmp := (stimecmp s)(tp s := rtime s + 1000000)\<rparr>))"

definition devintr :: "'z kernel_state_scheme \<Rightarrow> (int \<times> 'z kernel_state_scheme) res" where
  "devintr s =
     (if scause s (tp s) = 0x8000000000000009
      then let irq = plic_claim s in
           bnd (if irq = int UART0_IRQ then uartintr (uart_burst s) s
                else if irq = int VIRTIO0_IRQ then virtio_disk_intr s
                else if irq \<noteq> 0 then printf (msg ''unexpected interrupt irq=%d'') [Num (of_int irq)] s
                else Ok s) (\<lambda>s.
           Ok (1, if irq \<noteq> 0 then plic_complete irq s else s))
      else if scause s (tp s) = 0x8000000000000005
      then bnd (clockintr s) (\<lambda>s. Ok (2, s))
      else Ok (0, s))"

definition usertrapret :: "'z kernel_state_scheme \<Rightarrow> 'z kernel_state_scheme res" where
  "usertrapret s =
     bnd (myproc s) (\<lambda>(p, s).
     let s = intr_off s;
         s = s\<lparr>stvec := (stvec s)(tp s := TRAMPOLINE + (uservec s - trampoline s))\<rparr> in
     bnd (deref p) (\<lambda>p.
     let s = set_tf p tf_kernel_satp (satp s (tp s)) s;
         s = set_tf p tf_kernel_sp (p_kstack (procs s p) + 4096) s;
         s = set_tf p tf_kernel_trap (usertrap_addr s) s;
         s = set_tf p tf_kernel_hartid (of_nat (tp s)) s;
         s = s\<lparr>spp := (spp s)(tp s := False), spie := (spie s)(tp s := True)\<rparr>;
         s = s\<lparr>sepc := (sepc s)(tp s := get_tf p tf_epc s)\<rparr>
     in Ok (s\<lparr>user_jump := Some (TRAMPOLINE + (userret s - trampoline s), MAKE_SATP (p_pagetable (procs s p)))\<rparr>)))"

text \<open>\<open>if(killed(p)) exit(status)\<close>; \<open>exit\<close> does not come back.\<close>

definition exit_if_killed :: "'z kernel_state_scheme world \<Rightarrow> nat \<Rightarrow> 'z kernel_state_scheme \<Rightarrow> 'z kernel_state_scheme res" where
  "exit_if_killed W p s = bnd (killed p s) (\<lambda>(d, s). if d \<noteq> 0 then exit W (-1) s else Ok s)"

definition usertrap :: "'z kernel_state_scheme world \<Rightarrow> 'z kernel_state_scheme \<Rightarrow> 'z kernel_state_scheme res" where
  "usertrap W s =
     (if spp s (tp s) then Panic ''usertrap: not from user mode''
      else
        let s = s\<lparr>stvec := (stvec s)(tp s := kernelvec s)\<rparr> in
        bnd (myproc s) (\<lambda>(p, s). bnd (deref p) (\<lambda>p.
        let s = set_tf p tf_epc (sepc s (tp s)) s in
        bnd (if scause s (tp s) = 8
             then bnd (exit_if_killed W p s) (\<lambda>s.
                  let s = set_tf p tf_epc (get_tf p tf_epc s + 4) s;
                      s = intr_on s in
                  bnd (syscall W s) (\<lambda>s. Ok (0, s)))
             else bnd (devintr s) (\<lambda>(which_dev, s).
               if which_dev \<noteq> 0 then Ok (which_dev, s)
               else bnd (printf (msg ''usertrap(): unexpected scause 0x%lx pid=%d'')
                           [Num (scause s (tp s)), Num (ucast (p_pid (procs s p)))] s) (\<lambda>s.
                 bnd (printf (msg ''            sepc=0x%lx stval=0x%lx'') [Num (sepc s (tp s)), Num (stval s (tp s))] s) (\<lambda>s.
                 bnd (setkilled p s) (\<lambda>s. Ok (0, s)))))) (\<lambda>(which_dev, s).
        bnd (exit_if_killed W p s) (\<lambda>s.
        bnd (if which_dev = 2 then yield W s else Ok s) (\<lambda>s.
        usertrapret s))))))"

definition kerneltrap :: "'z kernel_state_scheme world \<Rightarrow> 'z kernel_state_scheme \<Rightarrow> 'z kernel_state_scheme res" where
  "kerneltrap W s =
     (let sepc0 = sepc s (tp s); spp0 = spp s (tp s); spie0 = spie s (tp s); sie0 = sie s (tp s);
          scause0 = scause s (tp s)
      in if \<not> spp0 then Panic ''kerneltrap: not from supervisor mode''
         else if intr_get s then Panic ''kerneltrap: interrupts enabled''
         else bnd (devintr s) (\<lambda>(which_dev, s).
           if which_dev = 0
           then bnd (printf (msg ''scause=0x%lx sepc=0x%lx stval=0x%lx'')
                       [Num scause0, Num (sepc s (tp s)), Num (stval s (tp s))] s) (\<lambda>s.
                Panic ''kerneltrap'')
           else bnd (if which_dev = 2
                     then bnd (myproc s) (\<lambda>(p, s). if p \<noteq> None then yield W s else Ok s)
                     else Ok s) (\<lambda>s.
             Ok (s\<lparr>sepc := (sepc s)(tp s := sepc0), spp := (spp s)(tp s := spp0),
                   spie := (spie s)(tp s := spie0), sie := (sie s)(tp s := sie0)\<rparr>))))"

definition forkret :: "'z kernel_state_scheme world \<Rightarrow> 'z kernel_state_scheme \<Rightarrow> 'z kernel_state_scheme res" where
  "forkret W s =
     bnd (myproc s) (\<lambda>(p, s). bnd (deref p) (\<lambda>p.
     bnd (release (PROC p) s) (\<lambda>s.
     bnd (if forkret_first s
          then bnd (fsinit W ROOTDEV s) (\<lambda>s. Ok (s\<lparr>forkret_first := False\<rparr>))
          else Ok s) (\<lambda>s.
     usertrapret s))))"

section \<open>Starting the kernel\<close>

text \<open>
  \<open>main\<close> up to the call of \<open>scheduler\<close>. A hart other than 0 spins until the flag is set; in this model it
  does not return when the flag is not set yet.
\<close>

definition main_boot :: "'z kernel_state_scheme world \<Rightarrow> 'z kernel_state_scheme \<Rightarrow> 'z kernel_state_scheme res" where
  "main_boot W s =
     bnd (printf (msg ''xv6 kernel is booting'') [] s) (\<lambda>s.
     let s = consoleinit s;
         s = printfinit s in
     bnd (kinit s) (\<lambda>s.
     bnd (kvminit s) (\<lambda>s.
     let s = kvminithart s in
     bnd (procinit s) (\<lambda>s.
     let s = plicinithart (plicinit (trapinithart (trapinit s))) in
     bnd (binit s) (\<lambda>s.
     bnd (iinit s) (\<lambda>s.
     let s = fileinit s in
     bnd (virtio_disk_init s) (\<lambda>s.
     bnd (userinit W s) (\<lambda>s.
     Ok (s\<lparr>started := True\<rparr>)))))))))"

definition main_hart :: "'z kernel_state_scheme \<Rightarrow> 'z kernel_state_scheme res" where
  "main_hart s =
     (if \<not> started s then Hang
      else bnd (printf (msg ''hart %d starting'') [Num (of_nat (cpuid s))] s) (\<lambda>s.
        Ok (plicinithart (trapinithart (kvminithart s)))))"

definition main :: "nat \<Rightarrow> 'z kernel_state_scheme world \<Rightarrow> 'z kernel_state_scheme \<Rightarrow> 'z kernel_state_scheme res" where
  "main n W s =
     bnd (if cpuid s = 0 then main_boot W s else main_hart s) (\<lambda>s. scheduler n W s)"

end
