(* ===== verification/Sleepwake.thy ===== *)
theory Sleepwake
  imports Proc
begin

text \<open>
  \<open>sleep\<close> and \<open>wakeup\<close> of \<open>kernel/proc.c\<close> as a step relation, for the claim that no wakeup is lost.
\<close>

section \<open>Sleepers and wakers that interleave\<close>

text \<open>
  Processes that run \<open>while(!cond) sleep(chan, lk)\<close> under \<open>lk\<close>, and processes that set the condition and
  call \<open>wakeup(chan)\<close> under \<open>lk\<close>, any number of each. A step is one lock operation or one access of
  \<open>sleep\<close>, \<open>wakeup\<close>, \<open>sched\<close> and \<open>scheduler\<close>. A process that switches to the scheduler has its lock released
  there, and gets it back, held, when the scheduler picks it.
\<close>

datatype sleeper_pc = S_acquire | S_test | S_plock | S_release | S_sleeping | S_switch | S_away | S_resume | S_done
datatype waker_pc = W_acquire | W_cond | W_lock nat | W_wake nat | W_release | W_done
datatype agent = Sleeper nat | Waker nat

record sleep_run =
  sr_lk :: "agent option"
  sr_plock :: "nat \<Rightarrow> agent option"
  sr_cond :: bool
  sr_state :: "nat \<Rightarrow> procstate"
  sr_spc :: "nat \<Rightarrow> sleeper_pc"
  sr_wpc :: "nat \<Rightarrow> waker_pc"

definition s_goto :: "nat \<Rightarrow> sleeper_pc \<Rightarrow> sleep_run \<Rightarrow> sleep_run" where
  "s_goto p c r = r\<lparr>sr_spc := (sr_spc r)(p := c)\<rparr>"

definition w_goto :: "nat \<Rightarrow> waker_pc \<Rightarrow> sleep_run \<Rightarrow> sleep_run" where
  "w_goto w c r = r\<lparr>sr_wpc := (sr_wpc r)(w := c)\<rparr>"

definition set_plock :: "nat \<Rightarrow> agent option \<Rightarrow> sleep_run \<Rightarrow> sleep_run" where
  "set_plock p a r = r\<lparr>sr_plock := (sr_plock r)(p := a)\<rparr>"

definition set_pstate :: "nat \<Rightarrow> procstate \<Rightarrow> sleep_run \<Rightarrow> sleep_run" where
  "set_pstate p st r = r\<lparr>sr_state := (sr_state r)(p := st)\<rparr>"

inductive sleep_step :: "nat \<Rightarrow> sleep_run \<Rightarrow> sleep_run \<Rightarrow> bool" for n :: nat where
  s_acquire: "p < n \<Longrightarrow> sr_spc r p = S_acquire \<Longrightarrow> sr_lk r = None \<Longrightarrow>
    sleep_step n r (s_goto p S_test (r\<lparr>sr_lk := Some (Sleeper p)\<rparr>))"
| s_test: "p < n \<Longrightarrow> sr_spc r p = S_test \<Longrightarrow>
    sleep_step n r (if sr_cond r then s_goto p S_done (r\<lparr>sr_lk := None\<rparr>) else s_goto p S_plock r)"
| s_plock: "p < n \<Longrightarrow> sr_spc r p = S_plock \<Longrightarrow> sr_plock r p = None \<Longrightarrow>
    sleep_step n r (s_goto p S_release (set_plock p (Some (Sleeper p)) r))"
| s_release: "p < n \<Longrightarrow> sr_spc r p = S_release \<Longrightarrow> sleep_step n r (s_goto p S_sleeping (r\<lparr>sr_lk := None\<rparr>))"
| s_sleeping: "p < n \<Longrightarrow> sr_spc r p = S_sleeping \<Longrightarrow> sleep_step n r (s_goto p S_switch (set_pstate p SLEEPING r))"
| s_switch: "p < n \<Longrightarrow> sr_spc r p = S_switch \<Longrightarrow> sleep_step n r (s_goto p S_away (set_plock p None r))"
| s_run: "p < n \<Longrightarrow> sr_spc r p = S_away \<Longrightarrow> sr_plock r p = None \<Longrightarrow> sr_state r p = RUNNABLE \<Longrightarrow>
    sleep_step n r (s_goto p S_resume (set_pstate p RUNNING (set_plock p (Some (Sleeper p)) r)))"
| s_resume: "p < n \<Longrightarrow> sr_spc r p = S_resume \<Longrightarrow> sleep_step n r (s_goto p S_acquire (set_plock p None r))"
| w_acquire: "sr_wpc r w = W_acquire \<Longrightarrow> sr_lk r = None \<Longrightarrow>
    sleep_step n r (w_goto w W_cond (r\<lparr>sr_lk := Some (Waker w)\<rparr>))"
| w_cond: "sr_wpc r w = W_cond \<Longrightarrow> sleep_step n r (w_goto w (W_lock 0) (r\<lparr>sr_cond := True\<rparr>))"
| w_lock: "sr_wpc r w = W_lock p \<Longrightarrow> p < n \<Longrightarrow> sr_plock r p = None \<Longrightarrow>
    sleep_step n r (w_goto w (W_wake p) (set_plock p (Some (Waker w)) r))"
| w_wake: "sr_wpc r w = W_wake p \<Longrightarrow>
    sleep_step n r (w_goto w (W_lock (Suc p)) (set_plock p None
      (if sr_state r p = SLEEPING then set_pstate p RUNNABLE r else r)))"
| w_end: "sr_wpc r w = W_lock n \<Longrightarrow> sleep_step n r (w_goto w W_release r)"
| w_release: "sr_wpc r w = W_release \<Longrightarrow> sleep_step n r (w_goto w W_done (r\<lparr>sr_lk := None\<rparr>))"

definition sleep_start :: sleep_run where
  "sleep_start = \<lparr>sr_lk = None, sr_plock = (\<lambda>_. None), sr_cond = False, sr_state = (\<lambda>_. RUNNING),
     sr_spc = (\<lambda>_. S_acquire), sr_wpc = (\<lambda>_. W_acquire)\<rparr>"

text \<open>
  A waker that holds \<open>lk\<close>, and one that has set the condition and has not passed process \<open>p\<close> yet.
\<close>

fun w_has_lk :: "waker_pc \<Rightarrow> bool" where
  "w_has_lk W_acquire = False"
| "w_has_lk W_done = False"
| "w_has_lk _ = True"

definition s_has_lk :: "sleeper_pc \<Rightarrow> bool" where
  "s_has_lk c \<longleftrightarrow> c \<in> {S_test, S_plock, S_release}"

definition s_has_plock :: "sleeper_pc \<Rightarrow> bool" where
  "s_has_plock c \<longleftrightarrow> c \<in> {S_release, S_sleeping, S_switch, S_resume}"

fun will_visit :: "nat \<Rightarrow> waker_pc \<Rightarrow> bool" where
  "will_visit p (W_lock q) = (q \<le> p)"
| "will_visit p (W_wake q) = (q \<le> p)"
| "will_visit p _ = False"

definition to_sleep :: "sleep_run \<Rightarrow> nat \<Rightarrow> bool" where
  "to_sleep r p \<longleftrightarrow> sr_spc r p = S_sleeping \<or> sr_state r p = SLEEPING"

text \<open>Who holds which lock; what holds before the condition is set; and that a sleeper is visited.\<close>

definition inv_lk :: "sleep_run \<Rightarrow> bool" where
  "inv_lk r \<longleftrightarrow> (\<forall>p. s_has_lk (sr_spc r p) = (sr_lk r = Some (Sleeper p)))
     \<and> (\<forall>w. w_has_lk (sr_wpc r w) = (sr_lk r = Some (Waker w)))"

definition inv_plock :: "sleep_run \<Rightarrow> bool" where
  "inv_plock r \<longleftrightarrow> (\<forall>p. s_has_plock (sr_spc r p) = (sr_plock r p = Some (Sleeper p)))
     \<and> (\<forall>w p. (sr_wpc r w = W_wake p) = (sr_plock r p = Some (Waker w)))"

definition inv_cond :: "sleep_run \<Rightarrow> bool" where
  "inv_cond r \<longleftrightarrow> (\<forall>p. sr_spc r p \<in> {S_plock, S_release} \<longrightarrow> \<not> sr_cond r)"

definition inv_state :: "sleep_run \<Rightarrow> bool" where
  "inv_state r \<longleftrightarrow> (\<forall>p. sr_state r p = SLEEPING \<longrightarrow> sr_spc r p \<in> {S_switch, S_away})"

definition inv_range :: "nat \<Rightarrow> sleep_run \<Rightarrow> bool" where
  "inv_range n r \<longleftrightarrow> (\<forall>p. n \<le> p \<longrightarrow> sr_spc r p = S_acquire \<and> sr_state r p = RUNNING)"

definition inv_visit :: "sleep_run \<Rightarrow> bool" where
  "inv_visit r \<longleftrightarrow> (sr_cond r \<longrightarrow> (\<forall>p. to_sleep r p \<longrightarrow> (\<exists>w. will_visit p (sr_wpc r w))))"

definition sleep_inv :: "nat \<Rightarrow> sleep_run \<Rightarrow> bool" where
  "sleep_inv n r \<longleftrightarrow> inv_lk r \<and> inv_plock r \<and> inv_cond r \<and> inv_state r \<and> inv_range n r \<and> inv_visit r"

lemmas sr_defs = s_goto_def w_goto_def set_plock_def set_pstate_def
lemmas inv_defs = inv_lk_def inv_plock_def inv_cond_def inv_state_def inv_range_def inv_visit_def

lemma sleep_inv_start: "sleep_inv n sleep_start"
  by (simp add: sleep_inv_def inv_defs sleep_start_def s_has_lk_def s_has_plock_def to_sleep_def)

lemma has_lk_simps [simp]:
  "s_has_lk S_acquire = False" "s_has_lk S_test" "s_has_lk S_plock" "s_has_lk S_release" "s_has_lk S_sleeping = False"
  "s_has_lk S_switch = False" "s_has_lk S_away = False" "s_has_lk S_resume = False" "s_has_lk S_done = False"
  "s_has_plock S_acquire = False" "s_has_plock S_test = False" "s_has_plock S_plock = False" "s_has_plock S_release"
  "s_has_plock S_sleeping" "s_has_plock S_switch" "s_has_plock S_away = False" "s_has_plock S_resume" "s_has_plock S_done = False"
  by (simp_all add: s_has_lk_def s_has_plock_def)

lemmas pc_simps = has_lk_simps w_has_lk.simps

lemma inv_lk_step: "sleep_step n r r' \<Longrightarrow> inv_lk r \<Longrightarrow> inv_lk r'"
proof (induction rule: sleep_step.induct)
qed (unfold inv_lk_def sr_defs, (auto; metis pc_simps option.inject agent.inject)+)

lemma inv_plock_step: "sleep_step n r r' \<Longrightarrow> inv_plock r \<Longrightarrow> inv_plock r'"
proof (induction rule: sleep_step.induct)
qed (unfold inv_plock_def sr_defs, (auto; metis pc_simps option.inject agent.inject agent.distinct waker_pc.inject waker_pc.distinct)+)

lemma inv_cond_step: "sleep_step n r r' \<Longrightarrow> inv_lk r \<Longrightarrow> inv_cond r \<Longrightarrow> inv_cond r'"
proof (induction rule: sleep_step.induct)
qed (unfold inv_cond_def inv_lk_def sr_defs, (auto; metis pc_simps option.inject agent.distinct)+)

lemma inv_state_step: "sleep_step n r r' \<Longrightarrow> inv_state r \<Longrightarrow> inv_state r'"
proof (induction rule: sleep_step.induct)
qed (unfold inv_state_def sr_defs, (auto; metis sleeper_pc.distinct)+)

lemma inv_range_step: "sleep_step n r r' \<Longrightarrow> inv_state r \<Longrightarrow> inv_range n r \<Longrightarrow> inv_range n r'"
proof (induction rule: sleep_step.induct)
qed (unfold inv_range_def inv_state_def sr_defs, (auto; metis not_less sleeper_pc.distinct procstate.distinct)+)

lemma visit_kept:
  assumes "inv_visit r" "sr_cond r' = sr_cond r" "\<And>p. to_sleep r' p \<Longrightarrow> to_sleep r p"
    "\<And>p w. to_sleep r' p \<Longrightarrow> will_visit p (sr_wpc r w) \<Longrightarrow> will_visit p (sr_wpc r' w)"
  shows "inv_visit r'"
  using assms unfolding inv_visit_def by blast

lemma sleep_inv_visit: "sleep_inv n r \<Longrightarrow> inv_visit r"
  by (simp add: sleep_inv_def)

lemma inv_visit_step: "sleep_step n r r' \<Longrightarrow> sleep_inv n r \<Longrightarrow> inv_visit r'"
proof (induction rule: sleep_step.induct)
  case (s_release p r)
  then show ?case by (auto simp: sleep_inv_def inv_visit_def inv_cond_def sr_defs)
next
  case (w_cond r w)
  then have "will_visit p (sr_wpc (w_goto w (W_lock 0) (r\<lparr>sr_cond := True\<rparr>)) w)" for p by (simp add: w_goto_def)
  then show ?case by (auto simp: inv_visit_def)
next
  case (w_wake r w p)
  have "sr_spc r p \<noteq> S_sleeping"
    using w_wake unfolding sleep_inv_def inv_plock_def by (metis agent.distinct(1) has_lk_simps(14) option.inject)
  moreover have "inv_visit r" using w_wake by (simp add: sleep_inv_def)
  ultimately show ?case
    using w_wake(1) by (elim visit_kept) (auto simp: to_sleep_def sr_defs le_Suc_eq Suc_le_eq le_less split: if_splits)
next
  case (w_end r w)
  then have "inv_visit r" and ge: "\<And>p. to_sleep r p \<Longrightarrow> p < n"
    by (auto simp: sleep_inv_def inv_range_def to_sleep_def not_less [symmetric])
  then show ?case
    using w_end(1) by (elim visit_kept) (auto simp: to_sleep_def sr_defs not_less [symmetric] split: if_splits)
qed (drule sleep_inv_visit, erule visit_kept; auto simp: to_sleep_def sr_defs split: if_splits)+


lemma sleep_inv_step: "sleep_step n r r' \<Longrightarrow> sleep_inv n r \<Longrightarrow> sleep_inv n r'"
  using inv_lk_step inv_plock_step inv_cond_step inv_state_step inv_range_step inv_visit_step
  unfolding sleep_inv_def by metis

lemma sleep_reachable: "(sleep_step n)\<^sup>*\<^sup>* sleep_start r \<Longrightarrow> sleep_inv n r"
  by (induction rule: rtranclp_induct) (auto intro: sleep_inv_start sleep_inv_step)

section \<open>Properties\<close>

text \<open>
  C20. No wakeup is lost. In every reachable interleaving of sleepers and wakers, a process that sleeps
  although the condition holds will still be visited by a waker that is in its loop; so when no waker
  is in its loop, nobody sleeps on a condition that holds.
\<close>

theorem no_lost_wakeup:
  assumes "(sleep_step n)\<^sup>*\<^sup>* sleep_start r" "sr_cond r" "sr_state r p = SLEEPING"
  shows "\<exists>w q. q \<le> p \<and> (sr_wpc r w = W_lock q \<or> sr_wpc r w = W_wake q)"
proof -
  obtain w where "will_visit p (sr_wpc r w)"
    using sleep_reachable [OF assms(1)] assms(2,3) by (auto simp: sleep_inv_def inv_visit_def to_sleep_def)
  then show ?thesis by (cases "sr_wpc r w") auto
qed

theorem no_lost_wakeup_witness:
  "\<exists>r. (sleep_step 1)\<^sup>*\<^sup>* sleep_start r \<and> sr_cond r \<and> sr_state r 0 = SLEEPING
     \<and> (\<exists>w q. q \<le> 0 \<and> (sr_wpc r w = W_lock q \<or> sr_wpc r w = W_wake q))"
proof -
  note d = sleep_start_def s_goto_def w_goto_def set_plock_def set_pstate_def
  define r1 where "r1 = s_goto 0 S_test (sleep_start\<lparr>sr_lk := Some (Sleeper 0)\<rparr>)"
  define r2 where "r2 = s_goto 0 S_plock r1"
  define r3 where "r3 = s_goto 0 S_release (set_plock 0 (Some (Sleeper 0)) r2)"
  define r4 where "r4 = s_goto 0 S_sleeping (r3\<lparr>sr_lk := None\<rparr>)"
  define r5 where "r5 = s_goto 0 S_switch (set_pstate 0 SLEEPING r4)"
  define r6 where "r6 = s_goto 0 S_away (set_plock 0 None r5)"
  define r7 where "r7 = w_goto 0 W_cond (r6\<lparr>sr_lk := Some (Waker 0)\<rparr>)"
  define r8 where "r8 = w_goto 0 (W_lock 0) (r7\<lparr>sr_cond := True\<rparr>)"
  note rs = r1_def r2_def r3_def r4_def r5_def r6_def r7_def r8_def
  have "sleep_step 1 sleep_start r1" unfolding r1_def by (rule s_acquire) (simp_all add: d)
  moreover have "sleep_step 1 r1 r2" using s_test [of 0 1 r1] by (simp add: rs d)
  moreover have "sleep_step 1 r2 r3" unfolding r3_def by (rule s_plock) (simp_all add: rs d)
  moreover have "sleep_step 1 r3 r4" unfolding r4_def by (rule s_release) (simp_all add: rs d)
  moreover have "sleep_step 1 r4 r5" unfolding r5_def by (rule s_sleeping) (simp_all add: rs d)
  moreover have "sleep_step 1 r5 r6" unfolding r6_def by (rule s_switch) (simp_all add: rs d)
  moreover have "sleep_step 1 r6 r7" unfolding r7_def by (rule w_acquire) (simp_all add: rs d)
  moreover have "sleep_step 1 r7 r8" unfolding r8_def by (rule w_cond) (simp_all add: rs d)
  ultimately have run: "(sleep_step 1)\<^sup>*\<^sup>* sleep_start r8"
    by (meson rtranclp.rtrancl_into_rtrancl rtranclp.rtrancl_refl)
  have "sr_cond r8" "sr_state r8 0 = SLEEPING" by (simp_all add: rs d)
  with run show ?thesis using no_lost_wakeup [OF run, of 0] by blast
qed

end
