(* ===== verification/Pipe.thy ===== *)
theory Pipe
  imports File Ring
begin

text \<open>
  Pipes as queues: the ring of \<open>kernel/pipe.c\<close> in its page of memory, and what \<open>pipewrite\<close> and
  \<open>piperead\<close> make of it.
\<close>

section \<open>The ring\<close>

definition pipe_slot :: "addr \<Rightarrow> 'z machine_scheme \<Rightarrow> nat \<Rightarrow> uint8" where
  "pipe_slot pi s i = mem s (pipe_data pi i)"

definition pipe_rd :: "addr \<Rightarrow> 'z machine_scheme \<Rightarrow> uint32" where
  "pipe_rd pi s = nread pi (mem s)"

definition pipe_wr :: "addr \<Rightarrow> 'z machine_scheme \<Rightarrow> uint32" where
  "pipe_wr pi s = nwrite pi (mem s)"

lemma store32_apply: "store32 m a v x = (if within a 4 x then nat_le 4 (unat v) ! unat (x - a) else m x)"
  by (simp add: store32_def store_bytes_apply)

lemma pipe_data_offset: "unat (pipe_data pi i - pi) = 24 + i mod 512"
proof -
  have "pipe_data pi i - pi = of_nat (24 + i mod 512)" by (simp add: pipe_data_def)
  moreover have "24 + i mod 512 < (18446744073709551616 :: nat)"
    by (rule less_trans [of _ "24 + 512"]) (simp_all del: add_less_cancel_left)
  ultimately show ?thesis by (simp only: unat_of_nat) simp
qed

lemma pipe_data_eq: "pipe_data pi i = pipe_data pi j \<longleftrightarrow> i mod 512 = j mod 512"
proof
  assume "pipe_data pi i = pipe_data pi j"
  then have "24 + i mod 512 = 24 + j mod 512" using pipe_data_offset by metis
  then show "i mod 512 = j mod 512" by (rule add_left_imp_eq)
qed (simp add: pipe_data_def)

lemma pipe_data_outside:
  "\<not> within (pipe_nread pi) 4 (pipe_data pi i)" "\<not> within (pipe_nwrite pi) 4 (pipe_data pi i)"
proof -
  have lt: "unat (pipe_data pi i - pi) < 536"
    unfolding pipe_data_offset using mod_less_divisor [of 512 i] by simp
  show "\<not> within (pipe_nread pi) 4 (pipe_data pi i)"
    using within_offset [of pi 536 4 "pipe_data pi i"] lt by (auto simp: pipe_nread_def)
  show "\<not> within (pipe_nwrite pi) 4 (pipe_data pi i)"
    using within_offset [of pi 540 4 "pipe_data pi i"] lt by (auto simp: pipe_nwrite_def)
qed

lemma load32_upd_data:
  "load32 (m(pipe_data pi i := c)) (pipe_nread pi) = load32 m (pipe_nread pi)"
  "load32 (m(pipe_data pi i := c)) (pipe_nwrite pi) = load32 m (pipe_nwrite pi)"
  unfolding load32_def
  by (rule arg_cong [where f = "\<lambda>b. of_nat (le_nat b)"], rule load_bytes_cong; use pipe_data_outside [of pi i] in auto)+

lemma load32_store32_index:
  "load32 (store32 m (pipe_nread pi) v) (pipe_nwrite pi) = load32 m (pipe_nwrite pi)"
  "load32 (store32 m (pipe_nwrite pi) v) (pipe_nread pi) = load32 m (pipe_nread pi)"
proof -
  have "disjoint_ranges (pipe_nwrite pi) 4 (pipe_nread pi) 4"
    using disjoint_offsets [of 536 4 540 4 pi] by (simp add: pipe_nread_def pipe_nwrite_def)
  then show "load32 (store32 m (pipe_nread pi) v) (pipe_nwrite pi) = load32 m (pipe_nwrite pi)"
    "load32 (store32 m (pipe_nwrite pi) v) (pipe_nread pi) = load32 m (pipe_nread pi)"
    by (simp_all add: load32_def store32_def load_store_disjoint disjoint_ranges_sym)
qed

interpretation pipe: ring "pipe_slot pi :: 'z machine_scheme \<Rightarrow> nat \<Rightarrow> uint8" "pipe_rd pi" "pipe_wr pi" 512
  "pipe_put pi" "\<lambda>s. snd (pipe_get pi s)" for pi
  by unfold_locales
    (auto simp: pipe_slot_def pipe_rd_def pipe_wr_def nread_def nwrite_def pipe_put_def pipe_get_def set32_def Let_def
      load32_upd_data load32_store32_index store32_apply pipe_data_outside pipe_data_eq)

section \<open>The caller\<close>

text \<open>
  Process \<open>pr\<close> runs with the page table \<open>T\<close>; the page of the pipe is neither a table page nor free nor
  open to the user, and no table lock is held.
\<close>

definition pipe_env :: "addr \<Rightarrow> nat \<Rightarrow> ptree \<Rightarrow> addr list \<Rightarrow> 'z proctab_scheme \<Rightarrow> bool" where
  "pipe_env pi pr T ps s \<longleftrightarrow> pt_inv s T ps \<and> user_sep (mem s) T ps \<and> user_inj (mem s) T
     \<and> p_pagetable (procs s pr) = proot T
     \<and> page_aligned pi \<and> pi \<notin> pt_pages T \<union> set ps \<union> user_pages (mem s) T
     \<and> cpu_proc (mycpu s) = Some pr \<and> pr < NPROC \<and> (\<forall>p<NPROC. lock_free (PROC p) s)"

lemma pipe_env_cpu: "pipe_env pi pr T ps s \<Longrightarrow> cpu_ok s"
  by (simp add: pipe_env_def pt_inv_def kmem_inv_def)

lemma pipe_env_can: "pipe_env pi pr T ps s \<Longrightarrow> can_wake s"
  using pipe_env_cpu [of pi pr T ps s] by (auto simp: can_wake_def pipe_env_def)

text \<open>A change of the pipe's page is invisible to the page table and to the user.\<close>

lemma pipe_env_mem:
  assumes "pipe_env pi pr T ps s" "same_outside_pages {pi} (mem s) m"
  shows "pipe_env pi pr T ps (s\<lparr>mem := m\<rparr>)" "lookup m T va = lookup (mem s) T va"
    "readable m T = readable (mem s) T" "writable m T = writable (mem s) T"
    "va < MAXVA \<Longrightarrow> user_pte (lookup (mem s) T va) \<Longrightarrow> ubyte m T va = ubyte (mem s) T va"
proof -
  have pi: "page_aligned pi" "pi \<notin> pt_pages T \<union> set ps" and inv: "pt_inv s T ps"
    using assms(1) by (auto simp: pipe_env_def)
  note l = pt_inv_user_page [OF inv assms(2) pi]
  show "lookup m T va = lookup (mem s) T va" "readable m T = readable (mem s) T" "writable m T = writable (mem s) T"
    using l(2) by (simp_all add: readable_def writable_def fun_eq_iff)
  have "user_pages m T = user_pages (mem s) T" by (rule user_pages_cong) (rule l(2))
  moreover have "user_sep m T ps = user_sep (mem s) T ps" "user_inj m T = user_inj (mem s) T"
    by (simp_all add: user_sep_def user_inj_def l(2))
  moreover have "lock_free lk (s\<lparr>mem := m\<rparr>) = lock_free lk s" "mycpu (s\<lparr>mem := m\<rparr>) = mycpu s" for lk
    by (simp_all add: lock_free_def machine_ops)
  ultimately show "pipe_env pi pr T ps (s\<lparr>mem := m\<rparr>)"
    using assms(1) l(1) by (simp add: pipe_env_def)
  show "ubyte m T va = ubyte (mem s) T va" if "va < MAXVA" "user_pte (lookup (mem s) T va)"
  proof -
    let ?p = "PTE2PA (lookup (mem s) T va)"
    have "?p \<in> user_pages (mem s) T" using that by (auto simp: user_pages_def)
    then have "?p \<noteq> pi" using assms(1) by (auto simp: pipe_env_def)
    then have "disjoint_ranges pi PGSIZE ?p PGSIZE" by (intro pages_disjoint pi aligned_PTE2PA) simp
    moreover have "within ?p PGSIZE (paddr (mem s) T va)" by (simp add: within_def paddr_def page_offset)
    ultimately have "\<not> within pi PGSIZE (paddr (mem s) T va)" by (auto simp: disjoint_ranges_def)
    then have "m (paddr (mem s) T va) = mem s (paddr (mem s) T va)"
      using assms(2) by (simp add: same_outside_pages_def)
    moreover have "paddr m T va = paddr (mem s) T va" unfolding paddr_def l(2) ..
    ultimately show ?thesis by (simp add: ubyte_def)
  qed
qed

lemma pipe_store_outside:
  assumes "i + length bs \<le> 4096" shows "same_outside_pages {pi} m (store_bytes m (pi + of_nat i) bs)"
  unfolding same_outside_pages_def
  using assms within_sub_range [of pi i "length bs" _ PGSIZE] by (auto simp: store_bytes_apply)

lemma pipe_index_outside:
  "same_outside_pages {pi} m (store32 m (pipe_nwrite pi) v)" "same_outside_pages {pi} m (store32 m (pipe_nread pi) v)"
  using pipe_store_outside [of 540 "nat_le 4 (unat v)" pi m] pipe_store_outside [of 536 "nat_le 4 (unat v)" pi m]
  by (simp_all add: store32_def pipe_nwrite_def pipe_nread_def)

lemma pipe_put_mem: "\<exists>m. pipe_put pi c s = s\<lparr>mem := m\<rparr> \<and> same_outside_pages {pi} (mem s) m"
proof -
  have "within pi PGSIZE (pipe_data pi i)" for i
    unfolding within_def pipe_data_offset using mod_less_divisor [of 512 i] by simp
  then have "same_outside_pages {pi} m (m(pipe_data pi i := c))" for m i by (auto simp: same_outside_pages_def)
  then have "same_outside_pages ({pi} \<union> {pi}) (mem s) (mem (pipe_put pi c s))"
    unfolding pipe_put_def set32_def Let_def
    by (intro same_outside_pages_trans [OF pipe_index_outside(1)]) simp
  moreover have "pipe_put pi c s = s\<lparr>mem := mem (pipe_put pi c s)\<rparr>" by (simp add: pipe_put_def set32_def Let_def)
  ultimately show ?thesis by auto
qed

lemma pipe_get_mem: "\<exists>m. snd (pipe_get pi s) = s\<lparr>mem := m\<rparr> \<and> same_outside_pages {pi} (mem s) m"
  using pipe_index_outside(2) [of pi "mem s"] by (auto simp: pipe_get_def set32_def)

lemma pipe_frame:
  assumes "\<And>x. within pi PGSIZE x \<Longrightarrow> mem t x = mem s x"
  shows "pipe.contents pi t = pipe.contents pi s" "pipe.count pi t = pipe.count pi s"
    "readopen pi (mem t) = readopen pi (mem s)" "writeopen pi (mem t) = writeopen pi (mem s)"
proof -
  have in1: "load32 (mem t) (pi + of_nat i) = load32 (mem s) (pi + of_nat i)" if "i + 4 \<le> 4096" for i
    unfolding load32_def using assms within_sub_range [of pi i 4 _ PGSIZE] that
    by (intro arg_cong [where f = "\<lambda>b. of_nat (le_nat b)"] load_bytes_cong) auto
  have "within pi PGSIZE (pipe_data pi i)" for i
    unfolding within_def pipe_data_offset using mod_less_divisor [of 512 i] by simp
  then have "pipe_slot pi t i = pipe_slot pi s i" for i using assms by (simp add: pipe_slot_def)
  moreover have "pipe_rd pi t = pipe_rd pi s" "pipe_wr pi t = pipe_wr pi s"
    using in1 [of 536] in1 [of 540] by (simp_all add: pipe_rd_def pipe_wr_def nread_def nwrite_def pipe_nread_def pipe_nwrite_def)
  ultimately show "pipe.contents pi t = pipe.contents pi s" "pipe.count pi t = pipe.count pi s"
    by (simp_all add: pipe.contents_def pipe.count_def)
  show "readopen pi (mem t) = readopen pi (mem s)" "writeopen pi (mem t) = writeopen pi (mem s)"
    using in1 [of 544] in1 [of 548] by (simp_all add: readopen_def writeopen_def pipe_readopen_def pipe_writeopen_def)
qed

lemma pipe_data_below: "536 \<le> k \<Longrightarrow> k + 4 \<le> 4096 \<Longrightarrow> \<not> within (pi + of_nat k) 4 (pipe_data pi i)"
proof
  assume k: "536 \<le> k" "k + 4 \<le> 4096" and w: "within (pi + of_nat k) 4 (pipe_data pi i)"
  obtain j where "k \<le> j" "unat (pipe_data pi i - pi) = j" using within_offset [OF w] k by auto
  then show False unfolding pipe_data_offset using mod_less_divisor [of 512 i] k(1) by simp
qed

lemma pipe_open_kept:
  "readopen pi (mem (pipe_put pi c s)) = readopen pi (mem s)" "writeopen pi (mem (pipe_put pi c s)) = writeopen pi (mem s)"
  "readopen pi (mem (snd (pipe_get pi s))) = readopen pi (mem s)"
  "writeopen pi (mem (snd (pipe_get pi s))) = writeopen pi (mem s)"
proof -
  have upd: "load32 (m(pipe_data pi i := c)) (pi + of_nat k) = load32 m (pi + of_nat k)"
    if "536 \<le> k" "k + 4 \<le> 4096" for m i k
    unfolding load32_def using pipe_data_below [OF that]
    by (intro arg_cong [where f = "\<lambda>b. of_nat (le_nat b)"] load_bytes_cong) auto
  have st: "load32 (store32 m (pi + of_nat j) v) (pi + of_nat k) = load32 m (pi + of_nat k)"
    if "j + 4 \<le> k" "k + 4 \<le> 4096" for m j k v
    using disjoint_offsets [of j 4 k 4 pi] that by (simp add: load32_def store32_def load_store_disjoint)
  note simps = readopen_def writeopen_def pipe_readopen_def pipe_writeopen_def pipe_put_def pipe_get_def set32_def
    pipe_nwrite_def pipe_nread_def Let_def
  show "readopen pi (mem (pipe_put pi c s)) = readopen pi (mem s)" "writeopen pi (mem (pipe_put pi c s)) = writeopen pi (mem s)"
    "readopen pi (mem (snd (pipe_get pi s))) = readopen pi (mem s)"
    "writeopen pi (mem (snd (pipe_get pi s))) = writeopen pi (mem s)"
    using upd [of 544] upd [of 548] st [of 540 544] st [of 540 548] st [of 536 544] st [of 536 548]
    by (simp_all add: simps)
qed

lemma copyin_byte:
  assumes "pt_inv s T ps"
  shows "copyin (proot T) va 1 s = Ok (if readable (mem s) T va then (0, [ubyte (mem s) T va]) else (-1, []))"
proof -
  obtain k where k: "k \<le> 1" "copyin (proot T) va 1 s = Ok (if k = 1 then 0 else -1, uview (mem s) T va k)"
    "\<forall>i<k. readable (mem s) T (va + of_nat i)" "k < 1 \<longrightarrow> \<not> readable (mem s) T (va + of_nat k)"
    using copyin_spec [OF assms, of 1 va] by auto
  then consider "k = 0" | "k = 1" by linarith
  then show ?thesis using k by cases (simp_all add: uview_def)
qed

section \<open>Writing\<close>

lemma pipewrite_loop_room:
  assumes "pipe_env pi pr T ps s" "noff (mycpu s) \<noteq> 0" "pipe.count pi s + m \<le> 512"
    "readopen pi (mem s) \<noteq> 0" "p_killed (procs s pr) = 0"
  shows "\<exists>k mm. k \<le> m \<and> pipewrite_loop r m W pi addr i pr s = pipewrite_end pi (i + k) (s\<lparr>mem := mm\<rparr>)
    \<and> same_outside_pages {pi} (mem s) mm
    \<and> pipe.contents pi (s\<lparr>mem := mm\<rparr>) = pipe.contents pi s @ uview (mem s) T (addr + of_nat i) k
    \<and> (\<forall>j<k. readable (mem s) T (addr + of_nat i + of_nat j))
    \<and> (k < m \<longrightarrow> \<not> readable (mem s) T (addr + of_nat i + of_nat k))"
  using assms
proof (induction m arbitrary: i s)
  case 0
  show ?case by (intro exI [of _ 0] exI [of _ "mem s"]) (simp add: uview_def)
next
  case (Suc m)
  note env = Suc.prems(1)
  have inv: "pt_inv s T ps" "p_pagetable (procs s pr) = proot T" "lock_free (PROC pr) s"
    using env by (auto simp: pipe_env_def)
  have kl: "killed pr s = Ok (0, s)"
    using killed_eq [OF pipe_env_cpu [OF env] inv(3)] settle_id [OF Suc.prems(2)] Suc.prems(5) by simp
  have lt: "pipe.count pi s < 512" using Suc.prems(3) by simp
  then have nf: "nwrite pi (mem s) \<noteq> nread pi (mem s) + of_nat PIPESIZE"
    using pipe.full_iff [of pi s] by (simp add: pipe.bounded_def pipe_rd_def pipe_wr_def)
  let ?a = "addr + of_nat i"
  show ?case
  proof (cases "readable (mem s) T ?a")
    case False
    then have "pipewrite_loop r (Suc m) W pi addr i pr s = pipewrite_end pi i s"
      using copyin_byte [OF inv(1), of ?a] kl nf Suc.prems(4) inv(2) by simp
    then show ?thesis using False by (intro exI [of _ 0] exI [of _ "mem s"]) (simp add: uview_def)
  next
    case True
    let ?c = "ubyte (mem s) T ?a"
    obtain m1 where m1: "pipe_put pi ?c s = s\<lparr>mem := m1\<rparr>" "same_outside_pages {pi} (mem s) m1"
      using pipe_put_mem by blast
    let ?s = "s\<lparr>mem := m1\<rparr>"
    note e = pipe_env_mem [OF env m1(2)]
    have step: "pipewrite_loop r (Suc m) W pi addr i pr s = pipewrite_loop r m W pi addr (Suc i) pr ?s"
      using copyin_byte [OF inv(1), of ?a] True kl nf Suc.prems(4) inv(2) m1(1) by simp
    have "pipe.count pi ?s + m \<le> 512" using pipe.count_put [OF lt, of ?c] Suc.prems(3) m1(1) by simp
    moreover have "readopen pi (mem ?s) \<noteq> 0" using pipe_open_kept(1) [of pi ?c s] m1(1) Suc.prems(4) by simp
    moreover have "noff (mycpu ?s) \<noteq> 0" "p_killed (procs ?s pr) = 0" using Suc.prems by (simp_all add: machine_ops)
    ultimately obtain k mm where k: "k \<le> m" "pipewrite_loop r m W pi addr (Suc i) pr ?s = pipewrite_end pi (Suc i + k) (s\<lparr>mem := mm\<rparr>)"
      "same_outside_pages {pi} m1 mm"
      "pipe.contents pi (s\<lparr>mem := mm\<rparr>) = pipe.contents pi ?s @ uview m1 T (addr + of_nat (Suc i)) k"
      "\<forall>j<k. readable m1 T (addr + of_nat (Suc i) + of_nat j)"
      "k < m \<longrightarrow> \<not> readable m1 T (addr + of_nat (Suc i) + of_nat k)"
      using Suc.IH [OF e(1), of "Suc i"] by auto
    have shift: "addr + of_nat (Suc i) + of_nat j = ?a + of_nat (Suc j)" for j :: nat by simp
    have rd: "\<forall>j<Suc k. readable (mem s) T (?a + of_nat j)"
      using k(5) True unfolding e(3) shift by (auto simp: less_Suc_eq_0_disj simp del: of_nat_Suc)
    have "uview m1 T (addr + of_nat (Suc i)) k = uview (mem s) T (addr + of_nat (Suc i)) k"
      using k(5) e(5) unfolding e(3) by (auto simp: uview_def readable_def)
    then have "uview (mem s) T ?a (Suc k) = ?c # uview m1 T (addr + of_nat (Suc i)) k"
      using uview_add [of "mem s" T ?a 1 k] by (simp add: uview_def ac_simps)
    moreover have "pipe.contents pi ?s = pipe.contents pi s @ [?c]" using pipe.contents_put [OF lt, of ?c] m1(1) by simp
    moreover have "same_outside_pages {pi} (mem s) mm" using same_outside_pages_trans [OF m1(2) k(3)] by simp
    ultimately show ?thesis
      using k rd step unfolding e(3) shift
      by (intro exI [of _ "Suc k"] exI [of _ mm]) (simp del: of_nat_Suc)
  qed
qed

lemma locking_kmem [simp]: "freelist (locking lk s) = freelist s" "kernel_end (locking lk s) = kernel_end s"
  by (simp_all add: locking_def push_off_def machine_ops Let_def)

lemma pipe_env_locking: "pipe_env pi pr T ps s \<Longrightarrow> pipe_env pi pr T ps (locking (PIPE pi) s)"
  using cpu_ok_locking [OF pipe_env_cpu [of pi pr T ps s], of "PIPE pi"]
  by (simp add: pipe_env_def pt_inv_def kmem_inv_def)

lemma pipe_env_settle: "pipe_env pi pr T ps (settle s) = pipe_env pi pr T ps s"
proof -
  have "freelist (settle s) = freelist s" "kernel_end (settle s) = kernel_end s"
    by (simp_all add: settle_def machine_ops)
  then show ?thesis by (simp add: pipe_env_def pt_inv_def kmem_inv_def)
qed

text \<open>The end of both operations: wake the other side and leave the critical section.\<close>

lemma wake_release:
  assumes "pipe_env pi pr T ps s" "lock_free (PIPE pi) s" "pipe_env pi pr T ps ((locking (PIPE pi) s)\<lparr>mem := m\<rparr>)"
  shows "bnd (wakeup chan ((locking (PIPE pi) s)\<lparr>mem := m\<rparr>)) (release (PIPE pi)) =
    Ok (settle (wake_table chan (Some pr) NPROC (s\<lparr>mem := m\<rparr>)))"
proof -
  let ?t = "(locking (PIPE pi) s)\<lparr>mem := m\<rparr>"
  have me: "cpu_proc (mycpu ?t) = Some pr" using assms(3) by (simp add: pipe_env_def)
  have "mycpu ?t = mycpu (locking (PIPE pi) s)" by (simp add: machine_ops)
  then have "noff (mycpu (wake_table chan (Some pr) NPROC ?t)) \<noteq> 0"
    using pipe_env_cpu [OF assms(1)] by (simp add: cpu_ok_def)
  note st = settle_id [OF this]
  have "wakeup chan ?t = Ok (wake_table chan (Some pr) NPROC ?t)"
    using wakeup_can [OF pipe_env_can [OF assms(3)], of chan] unfolding me st .
  then show ?thesis using release_wake [OF pipe_env_cpu [OF assms(1)] assms(2)] by simp
qed

lemma pipewrite_end_eq:
  "pipewrite_end pi i s = bnd (bnd (wakeup (Some (ChPipeRead pi)) s) (release (PIPE pi))) (\<lambda>s. Ok (int i, s))"
  by (simp add: pipewrite_end_def)

lemma pipewrite_room:
  assumes "pipe_env pi pr T ps s" "lock_free (PIPE pi) s" "pipe.count pi s + nat n \<le> 512"
    "readopen pi (mem s) \<noteq> 0" "p_killed (procs s pr) = 0"
  shows "\<exists>k m. k \<le> nat n \<and> pipewrite W pi addr n s =
      Ok (int k, settle (wake_table (Some (ChPipeRead pi)) (Some pr) NPROC (s\<lparr>mem := m\<rparr>)))
    \<and> same_outside_pages {pi} (mem s) m
    \<and> pipe.contents pi (s\<lparr>mem := m\<rparr>) = pipe.contents pi s @ uview (mem s) T addr k
    \<and> (\<forall>j<k. readable (mem s) T (addr + of_nat j)) \<and> (k < nat n \<longrightarrow> \<not> readable (mem s) T (addr + of_nat k))"
proof -
  let ?s = "settle s" and ?l = "locking (PIPE pi) (settle s)"
  have env: "pipe_env pi pr T ps ?s" "pipe_env pi pr T ps ?l" "lock_free (PIPE pi) ?s"
    using assms(1,2) pipe_env_locking [of pi pr T ps ?s] by (simp_all add: pipe_env_settle)
  have me: "cpu_proc (mycpu s) = Some pr" using assms(1) by (simp add: pipe_env_def)
  have frame: "pipe.contents pi t = pipe.contents pi t'" "pipe.count pi t = pipe.count pi t'" if "mem t = mem t'"
    for t t' :: "'a proctab_scheme" using pipe_frame [of pi t t'] that by simp_all
  have start: "pipewrite W pi addr n s = pipewrite_loop (rounds W) (nat n) W pi addr 0 pr ?l"
    unfolding pipewrite_def using me by (simp add: myproc_eq [OF pipe_env_cpu [OF assms(1)]] deref_def acquire_free [OF env(3)])
  have "noff (mycpu ?l) \<noteq> 0" using pipe_env_cpu [OF env(1)] by (simp add: cpu_ok_def)
  then obtain k m where k: "k \<le> nat n" "pipewrite W pi addr n s = pipewrite_end pi k (?l\<lparr>mem := m\<rparr>)"
    "same_outside_pages {pi} (mem s) m" "pipe.contents pi (?l\<lparr>mem := m\<rparr>) = pipe.contents pi ?l @ uview (mem s) T addr k"
    "\<forall>j<k. readable (mem s) T (addr + of_nat j)" "k < nat n \<longrightarrow> \<not> readable (mem s) T (addr + of_nat k)"
    using pipewrite_loop_room [OF env(2), of "nat n" "rounds W" W addr 0] assms(3-5) frame(2) [of ?l s] unfolding start by auto
  have "pipe_env pi pr T ps (?l\<lparr>mem := m\<rparr>)" using pipe_env_mem(1) [OF env(2)] k(3) by simp
  from wake_release [OF env(1,3) this, of "Some (ChPipeRead pi)"]
  have "pipewrite_end pi k (?l\<lparr>mem := m\<rparr>) =
      Ok (int k, settle (wake_table (Some (ChPipeRead pi)) (Some pr) NPROC (s\<lparr>mem := m\<rparr>)))"
    unfolding pipewrite_end_eq by (simp only: bnd.simps settle_mem [symmetric] settle_wake_table settle_settle)
  then show ?thesis
    using k frame(1) [of "?l\<lparr>mem := m\<rparr>" "s\<lparr>mem := m\<rparr>"] frame(1) [of ?l s] by (intro exI [of _ k] exI [of _ m]) simp
qed

section \<open>Reading\<close>

lemma pipe_env_copied:
  assumes "pipe_env pi pr T ps s" "copied s T ps va src k s'"
  shows "pipe_env pi pr T ps s'" "pipe.contents pi s' = pipe.contents pi s" "pipe.count pi s' = pipe.count pi s"
    "writeopen pi (mem s') = writeopen pi (mem s)"
proof -
  have s': "s' = s\<lparr>mem := mem s'\<rparr>" and out: "same_outside_pages (user_pages (mem s) T) (mem s) (mem s')"
    and l: "\<And>x. lookup (mem s') T x = lookup (mem s) T x"
    using assms(2) unfolding copied_def by blast+
  note v = copied_view [OF assms(2)]
  have "user_pages (mem s') T = user_pages (mem s) T" by (rule user_pages_cong [OF l])
  moreover have "lock_free lk (s\<lparr>mem := m\<rparr>) = lock_free lk s" "mycpu (s\<lparr>mem := m\<rparr>) = mycpu s" for lk m
    by (simp_all add: lock_free_def machine_ops)
  then have "lock_free lk s' = lock_free lk s" "mycpu s' = mycpu s" "procs s' = procs s" for lk
    by (subst s', simp)+
  ultimately show "pipe_env pi pr T ps s'" using assms(1) v by (simp add: pipe_env_def)
  have "mem s' x = mem s x" if x: "within pi PGSIZE x" for x
  proof -
    have "\<not> within p PGSIZE x" if p: "p \<in> user_pages (mem s) T" for p
    proof -
      have "page_aligned pi" "pi \<noteq> p" using assms(1) p by (auto simp: pipe_env_def)
      moreover have "page_aligned p" using p aligned_PTE2PA by (auto simp: user_pages_def)
      ultimately have "disjoint_ranges pi PGSIZE p PGSIZE" by (intro pages_disjoint)
      then show ?thesis using x by (auto simp: disjoint_ranges_def)
    qed
    then show ?thesis using out by (simp add: same_outside_pages_def)
  qed
  from pipe_frame [OF this]
  show "pipe.contents pi s' = pipe.contents pi s" "pipe.count pi s' = pipe.count pi s"
    "writeopen pi (mem s') = writeopen pi (mem s)" by simp_all
qed

text \<open>
  \<open>k\<close> of at most \<open>m\<close> bytes went to the user at \<open>a\<close>. When the next one could not be stored, it is gone.
\<close>

definition pipe_taken :: "addr \<Rightarrow> nat \<Rightarrow> ptree \<Rightarrow> addr list \<Rightarrow> uint64 \<Rightarrow> nat \<Rightarrow> nat \<Rightarrow> 'z proctab_scheme \<Rightarrow> memory \<Rightarrow> bool" where
  "pipe_taken pi pr T ps a m k s mm \<longleftrightarrow> k \<le> m \<and> k \<le> pipe.count pi s \<and> pipe_env pi pr T ps (s\<lparr>mem := mm\<rparr>)
     \<and> pipe.contents pi (s\<lparr>mem := mm\<rparr>) = drop (if k < m then Suc k else k) (pipe.contents pi s)
     \<and> (\<forall>j<k. writable (mem s) T (a + of_nat j))
     \<and> (k < m \<and> k < pipe.count pi s \<longrightarrow> \<not> writable (mem s) T (a + of_nat k))
     \<and> (\<forall>x. x < MAXVA \<longrightarrow> user_pte (lookup (mem s) T x) \<longrightarrow> ubyte mm T x =
          (if unat (x - a) < k then pipe.contents pi s ! unat (x - a) else ubyte (mem s) T x))
     \<and> same_outside_pages (insert pi (user_pages (mem s) T)) (mem s) mm"

lemma pipe_taken_0:
  "pipe_env pi pr T ps s \<Longrightarrow> m = 0 \<or> pipe.count pi s = 0 \<Longrightarrow> pipe_taken pi pr T ps a m 0 s (mem s)"
  by (auto simp: pipe_taken_def simp flip: length_0_conv)

lemma copyout_byte:
  assumes "pipe_env pi pr T ps s"
  shows "if writable (mem s) T va
    then \<exists>s'. copyout (proot T) va [c] 1 s = Ok (0, s') \<and> copied s T ps va [c] 1 s'
    else copyout (proot T) va [c] 1 s = Ok (-1, s)"
proof -
  have inv: "pt_inv s T ps" "user_sep (mem s) T ps" "user_inj (mem s) T" using assms by (auto simp: pipe_env_def)
  obtain k s' where k: "k \<le> 1" "copyout (proot T) va [c] 1 s = Ok (if k = 1 then 0 else -1, s')"
    "copied s T ps va [c] k s'" "\<forall>i<k. writable (mem s) T (va + of_nat i)" "k < 1 \<longrightarrow> \<not> writable (mem s) T (va + of_nat k)"
    using copyout_spec [OF inv, of "[c]" 1 va] by auto
  show ?thesis
  proof (cases "writable (mem s) T va")
    case True
    then have "k = 1" using k(1,5) by (cases k) auto
    then show ?thesis using k(2,3) True by auto
  next
    case False
    then show ?thesis using copyout_unwritable [OF inv(1) _ False, of 1 "[c]"] by simp
  qed
qed

lemma pipe_taken_lost:
  assumes "pipe_env pi pr T ps s" "pipe.count pi s \<noteq> 0" "snd (pipe_get pi s) = s\<lparr>mem := m1\<rparr>"
    "same_outside_pages {pi} (mem s) m1" "\<not> writable (mem s) T a"
  shows "pipe_taken pi pr T ps a (Suc m) 0 s m1"
proof -
  have "pipe.contents pi (s\<lparr>mem := m1\<rparr>) = drop 1 (pipe.contents pi s)"
    using pipe.contents_get [OF assms(2)] assms(3) by simp
  then show ?thesis
    using pipe_env_mem [OF assms(1,4)] assms(4,5) by (simp add: pipe_taken_def same_outside_pages_def)
qed

lemma pipe_taken_Suc:
  assumes "pipe_env pi pr T ps s" "pipe.count pi s \<noteq> 0" "snd (pipe_get pi s) = s\<lparr>mem := m1\<rparr>"
    "same_outside_pages {pi} (mem s) m1" "writable (mem s) T a"
    "copied (s\<lparr>mem := m1\<rparr>) T ps a [fst (pipe_get pi s)] 1 s2" "pipe_taken pi pr T ps (a + 1) m k s2 mm"
  shows "pipe_taken pi pr T ps a (Suc m) (Suc k) s mm"
proof -
  let ?g = "s\<lparr>mem := m1\<rparr>" and ?cs = "pipe.contents pi s"
  note e = pipe_env_mem [OF assms(1,4)]
  note c = pipe_env_copied [OF e(1) assms(6)]
  have s2: "s2 = s\<lparr>mem := mem s2\<rparr>" using assms(6) unfolding copied_def by auto
  have cs: "?cs = fst (pipe_get pi s) # pipe.contents pi s2" "pipe.count pi s = Suc (pipe.count pi s2)"
    using pipe.contents_get [OF assms(2)] pipe.count_get [OF assms(2)] c assms(2,3)
    by (simp_all add: pipe_get_def pipe_slot_def pipe_rd_def pipe_data_def)
  have l: "lookup (mem s2) T x = lookup (mem s) T x" for x using assms(6) pipe_env_mem(2) [OF assms(1,4)] by (simp add: copied_def)
  then have up: "user_pages (mem s2) T = user_pages (mem s) T" "user_pages m1 T = user_pages (mem s) T"
    "writable (mem s2) T = writable (mem s) T"
    using pipe_env_mem(2) [OF assms(1,4)] by (auto simp: writable_def fun_eq_iff intro!: user_pages_cong)
  have mm: "s2\<lparr>mem := mm\<rparr> = s\<lparr>mem := mm\<rparr>" by (subst s2) simp
  have "pipe.count pi s2 < 2 ^ 32" unfolding pipe.count_def by (rule order_less_le_trans [OF unsigned_less]) simp
  then have k: "k < 2 ^ 32" using assms(7) unfolding pipe_taken_def by linarith
  have shift: "a + 1 + of_nat j = a + of_nat (Suc j)" for j by simp
  have wr: "\<forall>j<Suc k. writable (mem s) T (a + of_nat j)"
    using assms(5,7) unfolding pipe_taken_def up shift by (auto simp: less_Suc_eq_0_disj simp del: of_nat_Suc)
  have ub: "ubyte mm T x = (if unat (x - a) < Suc k then ?cs ! unat (x - a) else ubyte (mem s) T x)"
    if x: "x < MAXVA" "user_pte (lookup (mem s) T x)" for x
  proof -
    have "ubyte (mem s2) T x = (if unat (x - a) < 1 then fst (pipe_get pi s) else ubyte (mem s) T x)"
      using assms(6) x e(5) [OF x] pipe_env_mem(2) [OF assms(1,4)] by (auto simp: copied_def)
    moreover have "ubyte mm T x = (if unat (x - (a + 1)) < k then pipe.contents pi s2 ! unat (x - (a + 1)) else ubyte (mem s2) T x)"
      using assms(7) x l by (simp add: pipe_taken_def)
    moreover have "unat (a - (a + 1)) = 2 ^ 64 - 1" by (simp add: unsigned_minus_1_eq_mask mask_eq_exp_minus_1)
    ultimately show ?thesis using cs(1) unat_minus_step [of x a] k by (cases "x = a") auto
  qed
  have "same_outside_pages (insert pi (user_pages (mem s) T)) (mem s) mm"
    using assms(4,6,7) by (simp add: pipe_taken_def copied_def same_outside_pages_def up)
  then show ?thesis
    using assms(7) wr ub cs unfolding pipe_taken_def up mm shift
    by (simp del: of_nat_Suc)
qed

lemma piperead_copy_spec:
  assumes "pipe_env pi pr T ps s"
  shows "\<exists>k mm. piperead_copy m pi addr i pr s = Ok (i + k, s\<lparr>mem := mm\<rparr>) \<and> pipe_taken pi pr T ps (addr + of_nat i) m k s mm"
  using assms
proof (induction m arbitrary: i s)
  case 0
  then show ?case using pipe_taken_0 [OF 0, of 0] by (intro exI [of _ 0] exI [of _ "mem s"]) simp
next
  case (Suc m)
  show ?case
  proof (cases "pipe.count pi s = 0")
    case True
    then have "nread pi (mem s) = nwrite pi (mem s)" using pipe.count_0_iff [of pi s] by (simp add: pipe_rd_def pipe_wr_def)
    then show ?thesis using pipe_taken_0 [OF Suc.prems, of "Suc m"] True by (intro exI [of _ 0] exI [of _ "mem s"]) simp
  next
    case False
    then have ne: "nread pi (mem s) \<noteq> nwrite pi (mem s)" using pipe.count_0_iff [of pi s] by (auto simp: pipe_rd_def pipe_wr_def)
    obtain m1 where m1: "snd (pipe_get pi s) = s\<lparr>mem := m1\<rparr>" "same_outside_pages {pi} (mem s) m1"
      using pipe_get_mem by blast
    note e = pipe_env_mem [OF Suc.prems m1(2)]
    have pt: "p_pagetable (procs s pr) = proot T" using Suc.prems by (simp add: pipe_env_def)
    note co = copyout_byte [OF e(1), of "addr + of_nat i" "fst (pipe_get pi s)"]
    show ?thesis
    proof (cases "writable (mem s) T (addr + of_nat i)")
      case False
      then have "piperead_copy (Suc m) pi addr i pr s = Ok (i, s\<lparr>mem := m1\<rparr>)"
        using ne co pt m1(1) e(4) by (simp add: case_prod_beta)
      then show ?thesis using pipe_taken_lost [OF Suc.prems \<open>pipe.count pi s \<noteq> 0\<close> m1 False]
        by (intro exI [of _ 0] exI [of _ m1]) simp
    next
      case True
      then obtain s2 where s2: "copyout (proot T) (addr + of_nat i) [fst (pipe_get pi s)] 1 (s\<lparr>mem := m1\<rparr>) = Ok (0, s2)"
        "copied (s\<lparr>mem := m1\<rparr>) T ps (addr + of_nat i) [fst (pipe_get pi s)] 1 s2"
        using co e(4) by auto
      have "s2 = s\<lparr>mem := mem s2\<rparr>" using s2(2) unfolding copied_def by auto
      then have mm: "s2\<lparr>mem := mm\<rparr> = s\<lparr>mem := mm\<rparr>" for mm by (metis machine.update_convs(1) machine.surjective)
      have step: "piperead_copy (Suc m) pi addr i pr s = piperead_copy m pi addr (Suc i) pr s2"
        using ne s2(1) pt m1(1) by (simp add: case_prod_beta)
      have a: "addr + of_nat (Suc i) = addr + of_nat i + 1" by simp
      obtain k mm where k: "piperead_copy (Suc m) pi addr i pr s = Ok (Suc i + k, s\<lparr>mem := mm\<rparr>)"
        "pipe_taken pi pr T ps (addr + of_nat i + 1) m k s2 mm"
        using Suc.IH [OF pipe_env_copied(1) [OF e(1) s2(2)], of "Suc i"] unfolding step mm a by blast
      then show ?thesis using pipe_taken_Suc [OF Suc.prems False m1 True s2(2) k(2)]
        by (intro exI [of _ "Suc k"] exI [of _ mm]) simp
    qed
  qed
qed

lemma pipe_env_unlock:
  assumes "pipe_env pi pr T ps ((locking (PIPE pi) (settle s))\<lparr>mem := m\<rparr>)" "pipe_env pi pr T ps s"
  shows "pipe_env pi pr T ps (s\<lparr>mem := m\<rparr>)"
proof -
  have "lock_free lk (t\<lparr>mem := m\<rparr>) = lock_free lk t" "mycpu (t\<lparr>mem := m\<rparr>) = mycpu t" "cpu_ok (t\<lparr>mem := m\<rparr>) = cpu_ok t"
    "freelist (settle t) = freelist t" "kernel_end (settle t) = kernel_end t" for lk and t :: "'a proctab_scheme"
    by (simp_all add: lock_free_def cpu_ok_def settle_def machine_ops)
  then show ?thesis using assms by (simp add: pipe_env_def pt_inv_def kmem_inv_def)
qed

lemma piperead_now:
  assumes "pipe_env pi pr T ps s" "lock_free (PIPE pi) s" "pipe.count pi s \<noteq> 0 \<or> writeopen pi (mem s) = 0"
  shows "\<exists>k m. piperead W pi addr n s =
      Ok (int k, settle (wake_table (Some (ChPipeWrite pi)) (Some pr) NPROC (s\<lparr>mem := m\<rparr>)))
    \<and> pipe_taken pi pr T ps addr (nat n) k s m"
proof -
  let ?s = "settle s" and ?l = "locking (PIPE pi) (settle s)"
  have env: "pipe_env pi pr T ps ?s" "pipe_env pi pr T ps ?l" "lock_free (PIPE pi) ?s"
    using assms(1,2) pipe_env_locking [of pi pr T ps ?s] by (simp_all add: pipe_env_settle)
  have me: "cpu_proc (mycpu s) = Some pr" using assms(1) by (simp add: pipe_env_def)
  have frame: "pipe.contents pi t = pipe.contents pi t'" "pipe.count pi t = pipe.count pi t'" if "mem t = mem t'"
    for t t' :: "'a proctab_scheme" using pipe_frame [of pi t t'] that by simp_all
  have "\<not> (nread pi (mem s) = nwrite pi (mem s) \<and> writeopen pi (mem s) \<noteq> 0)"
    using assms(3) pipe.count_0_iff [of pi s] by (auto simp: pipe_rd_def pipe_wr_def)
  then have wait: "piperead_wait r W pi pr ?l = Ok (True, ?l)" for r by (cases r) auto
  obtain k m where k: "piperead_copy (nat n) pi addr 0 pr ?l = Ok (k, ?l\<lparr>mem := m\<rparr>)"
    "pipe_taken pi pr T ps addr (nat n) k ?l m"
    using piperead_copy_spec [OF env(2), of "nat n" addr 0] by auto
  have "pipe_env pi pr T ps (?l\<lparr>mem := m\<rparr>)" using k(2) by (simp add: pipe_taken_def)
  note w = wake_release [OF env(1,3) this, of "Some (ChPipeWrite pi)"]
  have "piperead W pi addr n s = bnd (bnd (wakeup (Some (ChPipeWrite pi)) (?l\<lparr>mem := m\<rparr>)) (release (PIPE pi))) (\<lambda>s. Ok (int k, s))"
    unfolding piperead_def using me wait k(1)
    by (simp add: myproc_eq [OF pipe_env_cpu [OF assms(1)]] deref_def acquire_free [OF env(3)])
  moreover have "pipe_env pi pr T ps (s\<lparr>mem := m\<rparr>)"
    using \<open>pipe_env pi pr T ps (?l\<lparr>mem := m\<rparr>)\<close> assms(1) by (rule pipe_env_unlock)
  ultimately show ?thesis using k(2) w frame(1) [of "?l\<lparr>mem := m\<rparr>" "s\<lparr>mem := m\<rparr>"] frame [of ?l s]
    by (auto simp: pipe_taken_def settle_wake_table simp flip: settle_mem)
qed

section \<open>From writer to reader\<close>

lemma pipe_env_wake: "pipe_env pi pr T ps (wake_table chan (Some pr) n s) = pipe_env pi pr T ps s"
proof -
  have "mem (wake_table chan (Some pr) n s) = mem s" "freelist (wake_table chan (Some pr) n s) = freelist s"
    "kernel_end (wake_table chan (Some pr) n s) = kernel_end s" "procs (wake_table chan (Some pr) n s) pr = procs s pr"
    by (simp_all add: wake_table_def)
  then show ?thesis by (simp add: pipe_env_def pt_inv_def kmem_inv_def)
qed

lemma pipe_contents_mem: "mem t = mem (s :: 'z proctab_scheme) \<Longrightarrow> pipe.contents pi (t :: 'z proctab_scheme) = pipe.contents pi s"
  "mem t = mem s \<Longrightarrow> pipe.count pi t = pipe.count pi s"
  using pipe_frame [of pi t s] by simp_all

text \<open>The bytes at \<open>src\<close> arrive at \<open>dst\<close>.\<close>

lemma pipe_write_read:
  assumes "pipe_env pi pr T ps s" "lock_free (PIPE pi) s" "pipe.count pi s = 0" "0 < n" "n \<le> 512"
    "readopen pi (mem s) \<noteq> 0" "p_killed (procs s pr) = 0"
    "\<And>j. j < n \<Longrightarrow> readable (mem s) T (src + of_nat j)" "\<And>j. j < n \<Longrightarrow> writable (mem s) T (dst + of_nat j)"
  shows "\<exists>s1 s2. pipewrite W pi src (int n) s = Ok (int n, s1) \<and> piperead W' pi dst (int n) s1 = Ok (int n, s2)
    \<and> uview (mem s2) T dst n = uview (mem s) T src n \<and> pipe.contents pi s2 = []"
proof -
  let ?w = "\<lambda>c m (s :: 'a proctab_scheme). settle (wake_table (Some c) (Some pr) NPROC (s\<lparr>mem := m\<rparr>))"
  obtain m where w: "pipewrite W pi src (int n) s = Ok (int n, ?w (ChPipeRead pi) m s)" (is "_ = Ok (_, ?s1)")
    and out: "same_outside_pages {pi} (mem s) m" and c: "pipe.contents pi (s\<lparr>mem := m\<rparr>) = uview (mem s) T src n"
  proof -
    obtain k m where k: "k \<le> n" "pipewrite W pi src (int n) s = Ok (int k, ?w (ChPipeRead pi) m s)"
      "same_outside_pages {pi} (mem s) m" "pipe.contents pi (s\<lparr>mem := m\<rparr>) = pipe.contents pi s @ uview (mem s) T src k"
      "k < n \<longrightarrow> \<not> readable (mem s) T (src + of_nat k)"
      using pipewrite_room [OF assms(1,2) _ assms(6,7), of "int n" W src] assms(3,5) by auto
    have "k = n" using k(1,5) assms(8) by (cases "k < n") auto
    moreover have "pipe.contents pi s = []" using assms(3) by (simp flip: length_0_conv)
    ultimately show ?thesis using that k by simp
  qed
  note e = pipe_env_mem [OF assms(1) out]
  have env: "pipe_env pi pr T ps ?s1" "lock_free (PIPE pi) ?s1"
    using e(1) assms(2) by (simp_all add: pipe_env_settle pipe_env_wake lock_free_mem)
  have c1: "pipe.contents pi ?s1 = uview (mem s) T src n" unfolding c [symmetric] by (rule pipe_contents_mem) simp
  then have n1: "pipe.count pi ?s1 = n" by (metis length_map length_upt minus_nat.diff_0 pipe.length_contents uview_def)
  obtain k m2 where k: "piperead W' pi dst (int n) ?s1 = Ok (int k, ?w (ChPipeWrite pi) m2 ?s1)" "pipe_taken pi pr T ps dst n k ?s1 m2"
    using piperead_now [OF env, of W' dst "int n"] n1 assms(4) by auto
  have wr: "writable (mem ?s1) T = writable (mem s) T" by (simp add: e(4))
  have kn: "k = n" using k(2) assms(9) n1 unfolding pipe_taken_def wr by force
  have "ubyte m2 T (dst + of_nat j) = uview (mem s) T src n ! j" if j: "j < n" for j
  proof -
    have u: "dst + of_nat j < MAXVA" "user_pte (lookup (mem ?s1) T (dst + of_nat j))"
      using assms(9) [OF j] by (simp_all add: writable_def e(2))
    have "unat (of_nat j :: uint64) = j" using j assms(5) by (simp add: unat_of_nat)
    then show ?thesis using k(2) u j unfolding pipe_taken_def c1 kn by simp
  qed
  then have "uview m2 T dst n = uview (mem s) T src n"
    by (intro nth_equalityI) (simp_all add: uview_def)
  moreover have "pipe.contents pi (?w (ChPipeWrite pi) m2 ?s1) = []"
  proof -
    have "pipe.contents pi (?s1\<lparr>mem := m2\<rparr>) = []" using k(2) n1 unfolding pipe_taken_def kn by simp
    then show ?thesis using pipe_contents_mem(1) [of "?w (ChPipeWrite pi) m2 ?s1" "?s1\<lparr>mem := m2\<rparr>" pi] by simp
  qed
  ultimately show ?thesis using w k(1) unfolding kn by auto
qed

section \<open>Properties\<close>

text \<open>An empty pipe in the page \<open>0x88ff7000\<close>, open at both ends, and a process with one user page.\<close>

definition open_pipe :: "addr \<Rightarrow> memory \<Rightarrow> memory" where
  "open_pipe pi m = store32 (store32 (store32 (store32 m (pipe_readopen pi) 1) (pipe_writeopen pi) 1)
     (pipe_nwrite pi) 0) (pipe_nread pi) 0"

lemma open_pipe_outside: "same_outside_pages {pi} m (open_pipe pi m)"
proof -
  have one: "same_outside_pages {pi} m (store32 m' (pi + of_nat i) v)" if "same_outside_pages {pi} m m'" "i + 4 \<le> 4096" for m' i v
    using same_outside_pages_trans [OF that(1) pipe_store_outside [of i "nat_le 4 (unat v)" pi m']] that(2)
    by (simp add: store32_def)
  show ?thesis unfolding open_pipe_def pipe_readopen_def pipe_writeopen_def pipe_nwrite_def pipe_nread_def
    using one [OF one [OF one [OF one [OF same_outside_pages_refl, of 544 1], of 548 1], of 540 0], of 536 0] by simp
qed

lemma open_pipe_fields:
  "nread pi (open_pipe pi m) = 0" "nwrite pi (open_pipe pi m) = 0"
  "readopen pi (open_pipe pi m) = 1" "writeopen pi (open_pipe pi m) = 1"
proof -
  have st: "load32 (store32 m (pi + of_nat j) v) (pi + of_nat k) = load32 m (pi + of_nat k)"
    if "j + 4 \<le> k \<or> k + 4 \<le> j" "k + 4 \<le> 4096" "j + 4 \<le> 4096" for m j k v
    using disjoint_offsets [of j 4 k 4 pi] disjoint_offsets [of k 4 j 4 pi] that
    by (auto simp: load32_def store32_def load_store_disjoint disjoint_ranges_sym)
  note st' = st [of 544 548] st [of 540 548] st [of 536 548] st [of 548 544] st [of 540 544] st [of 536 544]
    st [of 536 540] st [of 540 536]
  show "nread pi (open_pipe pi m) = 0" "nwrite pi (open_pipe pi m) = 0"
    "readopen pi (open_pipe pi m) = 1" "writeopen pi (open_pipe pi m) = 1"
    using st' by (simp_all add: open_pipe_def nread_def nwrite_def readopen_def writeopen_def
      pipe_readopen_def pipe_writeopen_def pipe_nwrite_def pipe_nread_def)
qed

definition sample_reader :: "kmem \<Rightarrow> addr \<Rightarrow> proctab" where
  "sample_reader k r = sample_procs\<lparr>mem := open_pipe 0x88ff7000 (mem k), freelist := freelist k, kernel_end := kernel_end k,
     procs := (\<lambda>_. sample_proc\<lparr>p_pagetable := r\<rparr>)\<rparr>"

definition is_sample :: "ptree \<Rightarrow> addr list \<Rightarrow> proctab \<Rightarrow> bool" where
  "is_sample T ps s \<longleftrightarrow> pipe_env 0x88ff7000 0 T ps s \<and> (\<forall>lk. lock_free lk s) \<and> pipe.count 0x88ff7000 s = 0
     \<and> readopen 0x88ff7000 (mem s) = 1 \<and> p_killed (procs s 0) = 0 \<and> maps_page3 (mem s) T"

lemma sample_pipe: obtains T ps s where "is_sample T ps s"
proof -
  obtain k :: kmem and T ps where k: "pt_inv k T ps" "proot T = 0x88ff5000" "user_sep (mem k) T ps" "user_inj (mem k) T"
    "maps_page3 (mem k) T" and pages: "pt_pages T \<union> set ps = {0x88ff0000, 0x88ff1000, 0x88ff2000, 0x88ff3000, 0x88ff4000, 0x88ff5000}"
    by (rule sample_user_pages)
  let ?pi = "0x88ff7000 :: addr" and ?s = "sample_reader k (proot T)"
  have al: "page_aligned ?pi" "?pi \<notin> pt_pages T \<union> set ps" unfolding pages by (simp_all add: page_aligned_def)
  note inv = pt_inv_user_page [OF k(1) open_pipe_outside al]
  have mem: "mem ?s = open_pipe ?pi (mem k)" by (simp add: sample_reader_def)
  have l: "user_sep (mem ?s) T ps" "user_inj (mem ?s) T" "maps_page3 (mem ?s) T"
    using k(3-5) unfolding mem user_sep_def user_inj_def maps_page3_def inv(2) .
  have ok: "lock_free lk ?s" "cpu_ok ?s" "cpu_proc (mycpu ?s) = Some 0" for lk
    by (simp_all add: sample_reader_def sample_procs_def lock_free_def cpu_ok_def machine_ops)
  have "pt_inv ?s T ps" using inv(1) ok by (simp add: pt_inv_def kmem_inv_def mem) (simp add: sample_reader_def)
  moreover have "PTE2PA (PA2PTE 0x88ff6000 OR (PTE_R OR PTE_W OR PTE_U) OR PTE_V) = 0x88ff6000"
    using PTE2PA_PA2PTE [of "0x88ff6000" "(PTE_R OR PTE_W OR PTE_U) OR PTE_V"]
    by (simp add: page_aligned_def PTE_R_def PTE_W_def PTE_U_def PTE_V_def)
  then have "user_pages (mem ?s) T \<subseteq> {0x88ff6000}"
    using l(3) by (auto simp: user_pages_def maps_page3_def user_pte_def)
  then have "?pi \<notin> user_pages (mem ?s) T" by auto
  moreover have "p_pagetable (procs ?s 0) = proot T" "p_killed (procs ?s 0) = 0" by (simp_all add: sample_reader_def sample_proc_def)
  moreover have "pipe.count ?pi ?s = 0" by (simp add: pipe.count_def pipe_wr_def pipe_rd_def mem open_pipe_fields)
  ultimately have "is_sample T ps ?s" using l ok al by (simp add: is_sample_def pipe_env_def mem open_pipe_fields)
  then show ?thesis by (rule that)
qed

text \<open>
  C23. \<open>pipewrite\<close> into a pipe with room for all \<open>n\<close> bytes appends to the queue the bytes the user
  program sees at \<open>addr\<close>, in order, up to the first one it may not read, returns their number, and
  wakes the sleeping readers. It does not sleep, and of memory it changes the pipe's page only.
\<close>

theorem pipewrite_appends:
  assumes "pipe_env pi pr T ps s" "lock_free (PIPE pi) s" "pipe.count pi s + nat n \<le> PIPESIZE"
    "readopen pi (mem s) \<noteq> 0" "p_killed (procs s pr) = 0"
  shows "\<exists>k m. k \<le> nat n \<and> pipewrite W pi addr n s =
      Ok (int k, settle (wake_table (Some (ChPipeRead pi)) (Some pr) NPROC (s\<lparr>mem := m\<rparr>)))
    \<and> pipe.contents pi (s\<lparr>mem := m\<rparr>) = pipe.contents pi s @ uview (mem s) T addr k
    \<and> (\<forall>j<k. readable (mem s) T (addr + of_nat j)) \<and> (k < nat n \<longrightarrow> \<not> readable (mem s) T (addr + of_nat k))
    \<and> same_outside_pages {pi} (mem s) m"
  using pipewrite_room [OF assms] by blast

theorem pipewrite_appends_witness:
  "\<exists>T ps s m s'. is_sample T ps s \<and> pipewrite idle_world 0x88ff7000 0x3ff8 16 s = Ok (8, s')
    \<and> pipe.contents 0x88ff7000 (s\<lparr>mem := m\<rparr>) = uview (mem s) T 0x3ff8 8"
proof -
  obtain T ps s where s: "is_sample T ps s" by (rule sample_pipe)
  then have rd: "readable (mem s) T va \<longleftrightarrow> vpn va = 3" for va using sample_user_readable(1) by (simp add: is_sample_def)
  have c: "pipe.contents 0x88ff7000 s = []" using s by (simp add: is_sample_def flip: length_0_conv)
  obtain k m s' where k: "k \<le> 16" "pipewrite idle_world 0x88ff7000 0x3ff8 16 s = Ok (int k, s')"
    "pipe.contents 0x88ff7000 (s\<lparr>mem := m\<rparr>) = uview (mem s) T 0x3ff8 k"
    "\<forall>j<k. vpn (0x3ff8 + of_nat j) = 3" "k < 16 \<longrightarrow> vpn (0x3ff8 + of_nat k) \<noteq> 3"
    using pipewrite_appends [of "0x88ff7000" 0 T ps s 16 idle_world "0x3ff8"] s c
    by (auto simp: is_sample_def rd)
  have "k = 8" using k(1,4,5) by (rule page3_end)
  with s k show ?thesis by auto
qed

text \<open>
  C24. \<open>piperead\<close> of a pipe that is not empty, or that nobody writes to any more, returns at most \<open>n\<close>
  bytes: the oldest bytes of the queue are in the user's memory at \<open>addr\<close>, in order, as many as there
  are and as the user may write, and are gone from the queue; with an empty queue it returns 0. When
  a byte cannot be stored because the user may not write there, that byte is lost: it has left the
  queue and is not counted in the result.
\<close>

theorem piperead_takes:
  assumes "pipe_env pi pr T ps s" "lock_free (PIPE pi) s" "pipe.count pi s \<noteq> 0 \<or> writeopen pi (mem s) = 0"
  shows "\<exists>k m. piperead W pi addr n s =
      Ok (int k, settle (wake_table (Some (ChPipeWrite pi)) (Some pr) NPROC (s\<lparr>mem := m\<rparr>)))
    \<and> k \<le> nat n \<and> k \<le> pipe.count pi s
    \<and> pipe.contents pi (s\<lparr>mem := m\<rparr>) = drop (if k < nat n then Suc k else k) (pipe.contents pi s)
    \<and> (\<forall>j<k. writable (mem s) T (addr + of_nat j))
    \<and> (k < nat n \<and> k < pipe.count pi s \<longrightarrow> \<not> writable (mem s) T (addr + of_nat k))
    \<and> (\<forall>x. x < MAXVA \<longrightarrow> user_pte (lookup (mem s) T x) \<longrightarrow> ubyte m T x =
         (if unat (x - addr) < k then pipe.contents pi s ! unat (x - addr) else ubyte (mem s) T x))"
  using piperead_now [OF assms, of W addr n] unfolding pipe_taken_def by blast

theorem piperead_takes_witness:
  "\<exists>T ps s s'. is_sample T ps s \<and> piperead idle_world 0x88ff7000 0x3000 4 (s\<lparr>mem := store32 (mem s) (pipe_writeopen 0x88ff7000) 0\<rparr>) = Ok (0, s')"
proof -
  let ?pi = "0x88ff7000 :: addr"
  obtain T ps s where s: "is_sample T ps s" by (rule sample_pipe)
  let ?m = "store32 (mem s) (pipe_writeopen ?pi) 0"
  have out: "same_outside_pages {?pi} (mem s) ?m"
    using pipe_store_outside [of 548 "nat_le 4 0" ?pi "mem s"] by (simp add: store32_def pipe_writeopen_def)
  have e: "pipe_env ?pi 0 T ps (s\<lparr>mem := ?m\<rparr>)" using s by (intro pipe_env_mem(1) [OF _ out]) (simp add: is_sample_def)
  moreover have "writeopen ?pi ?m = 0" by (simp add: writeopen_def)
  moreover have "pipe.count ?pi (s\<lparr>mem := ?m\<rparr>) = 0"
    using s disjoint_offsets [of 536 4 548 4 ?pi] disjoint_offsets [of 540 4 548 4 ?pi]
    by (simp add: is_sample_def pipe.count_def pipe_wr_def pipe_rd_def nread_def nwrite_def load32_def store32_def
      pipe_nread_def pipe_nwrite_def pipe_writeopen_def load_store_disjoint disjoint_ranges_sym)
  ultimately show ?thesis
    using s piperead_takes [OF e, of idle_world "0x3000" 4] by (auto simp: is_sample_def lock_free_mem)
qed

text \<open>
  C25. Bytes go through a pipe unchanged and in order: when a process writes \<open>n\<close> bytes, at least one and at
  most 512, into an empty pipe and \<open>n\<close> bytes are read from it into memory the user may write, then both
  calls return \<open>n\<close>, the destination holds exactly the bytes the source held before the write, and the
  pipe is empty again.
\<close>

theorem pipe_roundtrip:
  assumes "pipe_env pi pr T ps s" "lock_free (PIPE pi) s" "pipe.count pi s = 0" "0 < n" "n \<le> PIPESIZE"
    "readopen pi (mem s) \<noteq> 0" "p_killed (procs s pr) = 0"
    "\<And>j. j < n \<Longrightarrow> readable (mem s) T (src + of_nat j)" "\<And>j. j < n \<Longrightarrow> writable (mem s) T (dst + of_nat j)"
  shows "\<exists>s1 s2. pipewrite W pi src (int n) s = Ok (int n, s1) \<and> piperead W' pi dst (int n) s1 = Ok (int n, s2)
    \<and> uview (mem s2) T dst n = uview (mem s) T src n \<and> pipe.contents pi s2 = []"
  using assms by (rule pipe_write_read)

theorem pipe_roundtrip_witness:
  "\<exists>T ps s s1 s2. is_sample T ps s \<and> pipewrite idle_world 0x88ff7000 0x3010 2 s = Ok (2, s1)
    \<and> piperead idle_world 0x88ff7000 0x3020 2 s1 = Ok (2, s2) \<and> uview (mem s2) T 0x3020 2 = uview (mem s) T 0x3010 2"
proof -
  obtain T ps s where s: "is_sample T ps s" by (rule sample_pipe)
  then have rd: "readable (mem s) T va \<longleftrightarrow> vpn va = 3" "writable (mem s) T va \<longleftrightarrow> vpn va = 3" for va
    using sample_user_readable by (simp_all add: is_sample_def)
  have j: "j \<in> {0, 1}" if "j < 2" for j :: nat using that by auto
  have "readable (mem s) T (0x3010 + of_nat j)" "writable (mem s) T (0x3020 + of_nat j)" if "j < 2" for j
    using j [OF that] by (auto simp: rd vpn_def)
  then obtain s1 s2 where "pipewrite idle_world 0x88ff7000 0x3010 2 s = Ok (2, s1)"
    "piperead idle_world 0x88ff7000 0x3020 2 s1 = Ok (2, s2)" "uview (mem s2) T 0x3020 2 = uview (mem s) T 0x3010 2"
    using s pipe_roundtrip [of "0x88ff7000" 0 T ps s 2 "0x3010" "0x3020" idle_world idle_world]
    by (auto simp: is_sample_def)
  with s show ?thesis by blast
qed

end
