(* ===== verification/Linked.thy ===== *)
theory Linked
  imports Main
begin

text \<open>
  Linked lists: \<open>chain f x zs y\<close> says that from \<open>x\<close> the links \<open>f\<close> lead through the elements of \<open>zs\<close> to \<open>y\<close>.
  The lemmas are on removing and inserting elements by changing links. The buffer cache and the
  allocator of the user library have such lists, both circular.
\<close>

section \<open>Chains\<close>

primrec chain :: "('a \<Rightarrow> 'a) \<Rightarrow> 'a \<Rightarrow> 'a list \<Rightarrow> 'a \<Rightarrow> bool" where
  "chain f x [] y \<longleftrightarrow> f x = y"
| "chain f x (z # zs) y \<longleftrightarrow> f x = z \<and> chain f z zs y"

lemma chain_append: "chain f x (us @ z # vs) y \<longleftrightarrow> chain f x us z \<and> chain f z vs y"
  by (induction us arbitrary: x) auto

lemma chain_upd: "a \<notin> set (x # zs) \<Longrightarrow> chain (f(a := c)) x zs y = chain f x zs y"
  by (induction zs arbitrary: x) auto

lemma chain_upd_last: "distinct (x # us) \<Longrightarrow> chain f x us z \<Longrightarrow> chain (f(last (x # us) := y)) x us y"
  by (induction us arbitrary: x) (auto simp: chain_upd)

lemma chain_start: "chain f x zs y \<Longrightarrow> f x = hd (zs @ [y])"
  by (cases zs) auto

lemma chain_last: "chain f x zs y \<Longrightarrow> f (last (x # zs)) = y"
  by (induction zs arbitrary: x) auto

lemma chain_cong_start: "distinct (x # zs) \<Longrightarrow> x' \<notin> set zs \<Longrightarrow> f x = f' x' \<Longrightarrow> (\<And>z. z \<in> set zs \<Longrightarrow> f z = f' z) \<Longrightarrow>
   chain f x zs y = chain f' x' zs y"
proof (cases zs)
  case (Cons w ws)
  have "chain f v vs y = chain f' v vs y" if "\<And>z. z \<in> set (v # vs) \<Longrightarrow> f z = f' z" for v vs
    using that by (induction vs arbitrary: v) auto
  then show "f x = f' x' \<Longrightarrow> (\<And>z. z \<in> set zs \<Longrightarrow> f z = f' z) \<Longrightarrow> ?thesis" using Cons by auto
qed simp

lemma chain_remove:
  assumes "chain f x (us @ b # vs) y" "distinct (x # us @ b # vs)"
  shows "chain (f(last (x # us) := f b)) x (us @ vs) y"
proof (cases vs)
  case Nil
  then show ?thesis using assms chain_upd_last [of x us f b "f b"] by (simp add: chain_append)
next
  case (Cons v vs')
  have "last (x # us) \<in> set (x # us)" by (rule last_in_set) simp
  then have "last (x # us) \<notin> set (v # vs')" using assms(2) Cons by auto
  then show ?thesis
    using assms Cons chain_upd_last [of x us f b v] chain_upd [of "last (x # us)" v vs' f v y]
    by (auto simp: chain_append)
qed

lemma chain_insert:
  assumes "chain f x zs y" "distinct (b # x # zs)"
  shows "chain (f(b := f x, x := b)) x (b # zs) y"
proof -
  have "(f(b := f x, x := b)) z = f z" if "z \<in> set zs" for z using that assms(2) by auto
  then have "chain (f(b := f x, x := b)) b zs y = chain f x zs y"
    using assms(2) by (intro chain_cong_start) auto
  then show ?thesis using assms by auto
qed

lemma chain_insert_last:
  assumes "chain f x zs y" "distinct (b # x # zs)"
  shows "chain (f(b := y, last (x # zs) := b)) x (zs @ [b]) y"
proof -
  have "chain (f(b := y)) x zs y" using assms chain_upd [of b x zs f y y] by auto
  then have "chain (f(b := y, last (x # zs) := b)) x zs b" using assms by (intro chain_upd_last) auto
  moreover have "last (x # zs) \<in> set (x # zs)" by (rule last_in_set) simp
  then have "last (x # zs) \<noteq> b" using assms(2) by auto
  ultimately show ?thesis by (simp add: chain_append)
qed

lemma chain_insert_at:
  assumes "chain f x (us @ vs) y" "distinct (b # x # us @ vs)"
  shows "chain (f(b := f (last (x # us)), last (x # us) := b)) x (us @ b # vs) y"
proof -
  let ?l = "last (x # us)" and ?z = "hd (vs @ [y])"
  have l: "?l \<in> set (x # us)" by (rule last_in_set) simp
  have us: "chain f x us ?z" using assms(1) by (cases vs) (auto simp: chain_append)
  then have z: "f ?l = ?z" by (rule chain_last)
  have "chain (f(b := ?z)) x us ?z" using us chain_upd [of b x us f] assms(2) by auto
  then have "chain (f(b := ?z, ?l := b)) x us b" using assms(2) by (intro chain_upd_last) auto
  moreover have "chain (f(b := ?z, ?l := b)) b vs y"
  proof (cases vs)
    case Nil
    then show ?thesis using l assms(2) by auto
  next
    case (Cons v ws)
    have "chain f v ws y" using assms(1) Cons by (simp add: chain_append)
    moreover have "b \<notin> set (v # ws)" "?l \<notin> set (v # ws)" "?l \<noteq> b" using l assms(2) Cons by auto
    ultimately show ?thesis using Cons by (simp add: chain_upd)
  qed
  ultimately show ?thesis unfolding z by (simp add: chain_append)
qed

end
