(* ===== verification/Bufcache.thy ===== *)
theory Bufcache
  imports Bio Linked
begin

text \<open>
  The list of the buffer cache as a list: the two chains of indices of \<open>kernel/bio.c\<close> stand for one
  Isabelle list, the most recently used buffer first, and the operations on them for list operations.
\<close>

section \<open>The list of buffers\<close>

definition nx :: "'z vdisk_scheme \<Rightarrow> nat \<Rightarrow> nat" where "nx s b = b_next (bufs s b)"
definition pv :: "'z vdisk_scheme \<Rightarrow> nat \<Rightarrow> nat" where "pv s b = b_prev (bufs s b)"

definition blist :: "'z vdisk_scheme \<Rightarrow> nat list \<Rightarrow> bool" where
  "blist s xs \<longleftrightarrow> chain (nx s) bhead xs bhead \<and> chain (pv s) bhead (rev xs) bhead \<and> distinct (bhead # xs)"

lemma nx_set_buf [simp]:
  "nx (set_buf x (\<lambda>u. u\<lparr>b_next := v\<rparr>) s) = (nx s)(x := v)" "nx (set_buf x (\<lambda>u. u\<lparr>b_prev := v\<rparr>) s) = nx s"
  "pv (set_buf x (\<lambda>u. u\<lparr>b_prev := v\<rparr>) s) = (pv s)(x := v)" "pv (set_buf x (\<lambda>u. u\<lparr>b_next := v\<rparr>) s) = pv s"
  by (auto simp: nx_def pv_def set_buf_def fun_eq_iff)

lemma link_nx:
  "b_next (bufs s b) = nx s b" "b_prev (bufs s b) = pv s b"
  by (simp_all add: nx_def pv_def)

lemma chain_back: "chain f x us z \<Longrightarrow> chain g z (rev us) x \<Longrightarrow> g z = last (x # us)"
  using chain_start [of g z "rev us" x] by (cases us rule: rev_cases) auto

lemma blist_split:
  assumes "blist s xs" "b \<in> set xs"
  obtains us vs where "xs = us @ b # vs" "pv s b = last (bhead # us)" "nx s b = last (bhead # rev vs)"
    "b \<noteq> bhead" "distinct (bhead # us @ b # vs)"
    "chain (nx s) bhead (us @ b # vs) bhead" "chain (pv s) bhead (rev vs @ b # rev us) bhead"
proof -
  obtain us vs where xs: "xs = us @ b # vs" using assms(2) by (meson split_list)
  then have c: "chain (nx s) bhead (us @ b # vs) bhead" "chain (pv s) bhead (rev vs @ b # rev us) bhead"
    "distinct (bhead # us @ b # vs)" using assms(1) by (auto simp: blist_def)
  then have "pv s b = last (bhead # us)" "nx s b = last (bhead # rev vs)"
    using chain_back [of "nx s" bhead us b "pv s"] chain_back [of "pv s" bhead "rev vs" b "nx s"] by (auto simp: chain_append)
  then show ?thesis using that xs c by auto
qed

lemma blist_insert:
  assumes "blist s xs" "b \<noteq> bhead" "b \<notin> set xs"
    "nx t = (nx s)(b := nx s bhead, bhead := b)" "pv t = (pv s)(b := bhead, nx s bhead := b)"
  shows "blist t (b # xs)"
proof -
  have "nx s bhead = last (bhead # rev xs)"
    using assms(1) chain_back [of "pv s" bhead "rev xs" bhead "nx s"] by (simp add: blist_def)
  then show ?thesis
    using assms chain_insert [of "nx s" bhead xs bhead b] chain_insert_last [of "pv s" bhead "rev xs" bhead b]
    by (auto simp: blist_def)
qed

lemma blist_move_to_front:
  assumes "blist s xs" "b \<in> set xs"
  shows "blist (move_to_front b s) (b # remove1 b xs)"
proof -
  obtain us vs where xs: "xs = us @ b # vs" and p: "pv s b = last (bhead # us)" and n: "nx s b = last (bhead # rev vs)"
    and b: "b \<noteq> bhead" and d: "distinct (bhead # us @ b # vs)"
    and c: "chain (nx s) bhead (us @ b # vs) bhead" "chain (pv s) bhead (rev vs @ b # rev us) bhead"
    by (rule blist_split [OF assms])
  have d': "distinct (bhead # rev vs @ b # rev us)" using d by auto
  let ?s1 = "set_buf (nx s b) (\<lambda>u. u\<lparr>b_prev := pv s b\<rparr>) s"
  let ?s2 = "set_buf (pv s b) (\<lambda>u. u\<lparr>b_next := nx s b\<rparr>) ?s1"
  have ne: "pv s b \<noteq> b" "nx s b \<noteq> b"
    using last_in_set [of "bhead # us"] last_in_set [of "bhead # rev vs"] d b unfolding p n by auto
  have "blist ?s2 (us @ vs)"
    using chain_remove [OF c(1) d] chain_remove [OF c(2) d'] d by (simp add: blist_def p n)
  then have "blist (move_to_front b s) (b # us @ vs)"
    by (rule blist_insert) (use b d ne in \<open>auto simp: move_to_front_def Let_def link_nx fun_eq_iff\<close>)
  moreover have "remove1 b xs = us @ vs" using d xs by (simp add: remove1_append)
  ultimately show ?thesis by simp
qed

section \<open>Searches\<close>

text \<open>With more fuel than buffers the searches of \<open>bget\<close> end, and are searches in the list.\<close>

lemma bget_cached_find:
  assumes "chain (\<lambda>b. b_next (bs b)) x ys bhead" "bhead \<notin> set ys" "length ys < n"
  shows "bget_cached n (b_next (bs x)) dev bno bs = Ok (find (\<lambda>b. b_dev (bs b) = dev \<and> b_blockno (bs b) = bno) ys)"
  using assms
proof (induction ys arbitrary: n x)
  case Nil
  then show ?case by (cases n) auto
next
  case (Cons y ys)
  then obtain m where n: "n = Suc m" by (cases n) auto
  show ?case using Cons.IH [of y m] Cons.prems n by auto
qed

lemma bget_unused_find:
  assumes "chain (\<lambda>b. b_prev (bs b)) x ys bhead" "bhead \<notin> set ys" "length ys < n"
  shows "bget_unused n (b_prev (bs x)) bs = Ok (find (\<lambda>b. b_refcnt (bs b) = 0) ys)"
  using assms
proof (induction ys arbitrary: n x)
  case Nil
  then show ?case by (cases n) auto
next
  case (Cons y ys)
  then obtain m where n: "n = Suc m" by (cases n) auto
  show ?case using Cons.IH [of y m] Cons.prems n by auto
qed

section \<open>The invariant\<close>

definition is_block :: "uint32 \<Rightarrow> uint32 \<Rightarrow> buf \<Rightarrow> bool" where
  "is_block dev bno u \<longleftrightarrow> b_dev u = dev \<and> b_blockno u = bno"

text \<open>
  The list has every buffer once, and no block of a device is in two buffers. Device number 0, which
  buffers have before their first use, does not count.
\<close>

definition bcache_inv :: "'z vdisk_scheme \<Rightarrow> nat list \<Rightarrow> bool" where
  "bcache_inv s xs \<longleftrightarrow> blist s xs \<and> set xs = {..<NBUF}
     \<and> (\<forall>b<NBUF. \<forall>c<NBUF. b_dev (bufs s b) \<noteq> 0 \<longrightarrow> is_block (b_dev (bufs s b)) (b_blockno (bufs s b)) (bufs s c) \<longrightarrow> b = c)"

lemma bufs_frame [simp]:
  "bufs (settle s) = bufs s" "bufs (locking lk s) = bufs s" "bufs (set_slock lk l s) = bufs s"
  "bufs (wake_table chan me n s) = bufs s" "bufs (set_buf b f s) = (bufs s)(b := f (bufs s b))"
  by (simp_all add: settle_def locking_def push_off_def set_slock_def wake_table_def set_buf_def machine_ops Let_def)

lemma set_buf_simps [simp]:
  "cpus (set_buf b f s) = cpus s" "tp (set_buf b f s) = tp s" "locks (set_buf b f s) = locks s"
  "sie (set_buf b f s) = sie s" "mycpu (set_buf b f s) = mycpu s" "cpu_ok (set_buf b f s) = cpu_ok s"
  "lock_free lk (set_buf b f s) = lock_free lk s" "procs (set_buf b f s) = procs s" "slocks (set_buf b f s) = slocks s"
  by (simp_all add: set_buf_def lock_free_def cpu_ok_def machine_ops)

lemma bcache_inv_cong:
  assumes "bufs s = bufs t" shows "bcache_inv s xs = bcache_inv t xs"
proof -
  have "nx s = nx t" "pv s = pv t" using assms by (simp_all add: nx_def pv_def fun_eq_iff)
  then show ?thesis using assms by (simp add: bcache_inv_def blist_def)
qed

lemma bcache_length: "bcache_inv s xs \<Longrightarrow> length xs = NBUF"
  using distinct_card [of xs] by (simp add: bcache_inv_def blist_def)

definition find_cached :: "uint32 \<Rightarrow> uint32 \<Rightarrow> (nat \<Rightarrow> buf) \<Rightarrow> nat list \<Rightarrow> nat option" where
  "find_cached dev bno bs xs = find (\<lambda>b. is_block dev bno (bs b)) xs"

definition find_unused :: "(nat \<Rightarrow> buf) \<Rightarrow> nat list \<Rightarrow> nat option" where
  "find_unused bs xs = find (\<lambda>b. b_refcnt (bs b) = 0) (rev xs)"

lemma bget_searches:
  assumes "bcache_inv s xs"
  shows "bget_cached (Suc NBUF) (b_next (bufs s bhead)) dev bno (bufs s) = Ok (find_cached dev bno (bufs s) xs)"
    "bget_unused (Suc NBUF) (b_prev (bufs s bhead)) (bufs s) = Ok (find_unused (bufs s) xs)"
proof -
  have nx: "nx s = (\<lambda>b. b_next (bufs s b))" and pv: "pv s = (\<lambda>b. b_prev (bufs s b))" by (simp_all add: nx_def pv_def fun_eq_iff)
  have c: "chain (\<lambda>b. b_next (bufs s b)) bhead xs bhead" "chain (\<lambda>b. b_prev (bufs s b)) bhead (rev xs) bhead"
    "bhead \<notin> set xs" using assms unfolding bcache_inv_def blist_def nx pv by auto
  show "bget_cached (Suc NBUF) (b_next (bufs s bhead)) dev bno (bufs s) = Ok (find_cached dev bno (bufs s) xs)"
    using bget_cached_find [OF c(1,3)] bcache_length [OF assms] by (simp add: find_cached_def is_block_def)
  show "bget_unused (Suc NBUF) (b_prev (bufs s bhead)) (bufs s) = Ok (find_unused (bufs s) xs)"
    using bget_unused_find [OF c(2)] c(3) bcache_length [OF assms] by (simp add: find_unused_def)
qed

lemma bcache_inv_buf:
  assumes "bcache_inv s xs" "\<And>u. b_next (f u) = b_next u \<and> b_prev (f u) = b_prev u \<and> b_dev (f u) = b_dev u \<and> b_blockno (f u) = b_blockno u"
  shows "bcache_inv (set_buf b f s) xs"
proof -
  have "nx (set_buf b f s) = nx s" "pv (set_buf b f s) = pv s" using assms(2) by (simp_all add: nx_def pv_def fun_eq_iff)
  then show ?thesis using assms by (auto simp: bcache_inv_def blist_def is_block_def)
qed

lemma bcache_inv_recycle:
  assumes "bcache_inv s xs" "find_cached dev bno (bufs s) xs = None" "dev \<noteq> 0"
  shows "bcache_inv (set_buf b (\<lambda>u. u\<lparr>b_dev := dev, b_blockno := bno, b_valid := v, b_refcnt := r\<rparr>) s) xs"
proof -
  let ?t = "set_buf b (\<lambda>u. u\<lparr>b_dev := dev, b_blockno := bno, b_valid := v, b_refcnt := r\<rparr>) s"
  have "nx ?t = nx s" "pv ?t = pv s" by (simp_all add: nx_def pv_def fun_eq_iff)
  moreover have "\<not> is_block dev bno (bufs s c)" if "c < NBUF" for c
    using assms(1,2) that by (auto simp: find_cached_def find_None_iff bcache_inv_def)
  ultimately show ?thesis using assms(1) by (auto simp: bcache_inv_def blist_def is_block_def)
qed

lemma find_set: "find P xs = Some x \<Longrightarrow> x \<in> set xs \<and> P x"
  by (auto simp: find_Some_iff)

lemma find_cached_range: "bcache_inv s xs \<Longrightarrow> find_cached dev bno bs xs = Some b \<Longrightarrow> b < NBUF \<and> is_block dev bno (bs b)"
  by (auto simp: find_cached_def bcache_inv_def dest!: find_set)

lemma find_unused_range: "bcache_inv s xs \<Longrightarrow> find_unused bs xs = Some b \<Longrightarrow> b < NBUF \<and> b_refcnt (bs b) = 0"
  by (auto simp: find_unused_def bcache_inv_def dest!: find_set)

lemma release_bufs:
  assumes "cpu_ok s" "lock_free lk s"
  shows "release lk ((locking lk s)\<lparr>bufs := bs\<rparr>) = Ok (settle (s\<lparr>bufs := bs\<rparr>))"
  by (subst release_after [OF assms(1) _ _ _ _ assms(2)])
    (simp_all add: locking_def push_off_def settle_def machine_ops Let_def)

lemma release_set_buf:
  assumes "cpu_ok s" "lock_free lk s"
  shows "release lk (set_buf b f (locking lk s)) = Ok (settle (set_buf b f s))"
  using release_bufs [OF assms] by (simp add: set_buf_def)

text \<open>The buffer \<open>bget\<close> answers with, and what it makes of its header.\<close>

definition bget_buf :: "uint32 \<Rightarrow> uint32 \<Rightarrow> 'z vdisk_scheme \<Rightarrow> nat list \<Rightarrow> (nat \<times> (buf \<Rightarrow> buf)) option" where
  "bget_buf dev bno s xs = (case find_cached dev bno (bufs s) xs of
     Some b \<Rightarrow> Some (b, \<lambda>u. u\<lparr>b_refcnt := b_refcnt u + 1\<rparr>)
   | None \<Rightarrow> map_option (\<lambda>b. (b, \<lambda>u. u\<lparr>b_dev := dev, b_blockno := bno, b_valid := 0, b_refcnt := 1\<rparr>)) (find_unused (bufs s) xs))"

definition bheld :: "nat \<Rightarrow> (buf \<Rightarrow> buf) \<Rightarrow> nat \<Rightarrow> 'z vdisk_scheme \<Rightarrow> 'z vdisk_scheme" where
  "bheld b f p s = settle (set_slock (SLEEP_BUF b) \<lparr>sl_locked = 1, sl_pid = p_pid (procs s p)\<rparr> (set_buf b f s))"

lemma bget_eq:
  assumes "bcache_inv s xs" "cpu_ok s" "lock_free BCACHE s" "cpu_proc (mycpu s) = Some p"
    "\<And>b f. bget_buf dev bno s xs = Some (b, f) \<Longrightarrow> lock_free (SLEEP_BUF b) s \<and> sl_locked (slocks s (SLEEP_BUF b)) = 0"
  shows "bget W dev bno s = (case bget_buf dev bno s xs of
      Some (b, f) \<Rightarrow> Ok (b, bheld b f p s) | None \<Rightarrow> Panic ''bget: no buffers'')"
proof -
  let ?l = "locking BCACHE s"
  have inv: "bcache_inv ?l xs" using assms(1) bcache_inv_cong [of ?l s] by simp
  have fin: "bnd (release BCACHE (set_buf b f ?l)) (\<lambda>s. bnd (acquiresleep W (SLEEP_BUF b) s) (\<lambda>s. Ok (b, s))) = Ok (b, bheld b f p s)"
    if "bget_buf dev bno s xs = Some (b, f)" for b f
  proof -
    have "acquiresleep W (SLEEP_BUF b) (settle (set_buf b f s)) = Ok (bheld b f p s)"
      using acquiresleep_free [of "settle (set_buf b f s)" "SLEEP_BUF b" p W] assms(2,4,5) that
      by (simp add: bheld_def settle_set_slock)
    then show ?thesis by (simp add: release_set_buf [OF assms(2,3)])
  qed
  note sr = bget_searches [OF inv, simplified]
  show ?thesis
  proof (cases "find_cached dev bno (bufs s) xs")
    case (Some b)
    then show ?thesis unfolding bget_def using fin [of b "\<lambda>u. u\<lparr>b_refcnt := b_refcnt u + 1\<rparr>"]
      by (simp add: acquire_free [OF assms(3)] sr bget_buf_def Let_def)
  next
    case None
    show ?thesis
    proof (cases "find_unused (bufs s) xs")
      case (Some b)
      then show ?thesis unfolding bget_def
        using None fin [of b "\<lambda>u. u\<lparr>b_dev := dev, b_blockno := bno, b_valid := 0, b_refcnt := 1\<rparr>"]
        by (simp add: acquire_free [OF assms(3)] sr bget_buf_def Let_def)
    qed (simp add: bget_def acquire_free [OF assms(3)] sr bget_buf_def None)
  qed
qed

lemma bget_inv:
  assumes "bcache_inv s xs" "bget_buf dev bno s xs = Some (b, f)" "dev \<noteq> 0"
  shows "bcache_inv (bheld b f p s) xs" "b < NBUF" "is_block dev bno (bufs (bheld b f p s) b)"
    "b_refcnt (bufs (bheld b f p s) b) = b_refcnt (bufs s b) + 1"
proof -
  have h: "bufs (bheld b f p s) = bufs (set_buf b f s)" by (simp add: bheld_def)
  have "bcache_inv (set_buf b f s) xs"
  proof (cases "find_cached dev bno (bufs s) xs")
    case None
    then show ?thesis using assms bcache_inv_recycle [OF assms(1) None assms(3)] by (auto simp: bget_buf_def)
  next
    case (Some c)
    then show ?thesis using assms bcache_inv_buf [OF assms(1)] by (auto simp: bget_buf_def)
  qed
  then show "bcache_inv (bheld b f p s) xs" using bcache_inv_cong [OF h] by simp
  show "b < NBUF" "is_block dev bno (bufs (bheld b f p s) b)" "b_refcnt (bufs (bheld b f p s) b) = b_refcnt (bufs s b) + 1"
    using assms(2) find_cached_range [OF assms(1)] find_unused_range [OF assms(1)]
    by (auto simp: h bget_buf_def is_block_def split: option.splits)
qed

section \<open>Releasing\<close>

definition unref :: "nat \<Rightarrow> 'z vdisk_scheme \<Rightarrow> 'z vdisk_scheme" where
  "unref b s = (let s = set_buf b (\<lambda>u. u\<lparr>b_refcnt := b_refcnt u - 1\<rparr>) s
     in if b_refcnt (bufs s b) = 0 then move_to_front b s else s)"

lemma move_to_front_bufs: "move_to_front b s = s\<lparr>bufs := bufs (move_to_front b s)\<rparr>"
  by (simp add: move_to_front_def set_buf_def Let_def)

lemma move_to_front_cong: "bufs s = bufs t \<Longrightarrow> bufs (move_to_front b s) = bufs (move_to_front b t)"
  by (simp add: move_to_front_def set_buf_def Let_def)

lemma unref_bufs: "unref b s = s\<lparr>bufs := bufs (unref b s)\<rparr>"
  using move_to_front_bufs [of b "set_buf b (\<lambda>u. u\<lparr>b_refcnt := b_refcnt u - 1\<rparr>) s"]
  by (auto simp: unref_def Let_def set_buf_def)

lemma unref_cong: "bufs s = bufs t \<Longrightarrow> bufs (unref b s) = bufs (unref b t)"
  unfolding unref_def Let_def by (auto intro!: move_to_front_cong)

lemma unref_at: "bufs s = bufs t \<Longrightarrow> unref b s = s\<lparr>bufs := bufs (unref b t)\<rparr>"
  by (subst unref_bufs) (simp add: unref_cong [of s t b])

lemma release_unref:
  assumes "cpu_ok s" "lock_free lk s"
  shows "release lk (unref b (locking lk s)) = Ok (settle (unref b s))"
proof -
  have e: "unref b (locking lk s) = (locking lk s)\<lparr>bufs := bufs (unref b s)\<rparr>" by (rule unref_at) simp
  have "settle (s\<lparr>bufs := bufs (unref b s)\<rparr>) = settle (unref b s)" by (rule arg_cong [OF unref_bufs [symmetric]])
  then show ?thesis unfolding e release_bufs [OF assms] by (rule arg_cong)
qed

text \<open>What relinking keeps of a buffer.\<close>

definition payload :: "buf \<Rightarrow> uint32 \<times> uint32 \<times> uint32 \<times> int \<times> int \<times> uint8 list" where
  "payload u = (b_dev u, b_blockno u, b_refcnt u, b_valid u, b_disk u, b_data u)"

lemma payload_link:
  "payload (bufs (set_buf x (\<lambda>u. u\<lparr>b_next := v\<rparr>) s) c) = payload (bufs s c)"
  "payload (bufs (set_buf x (\<lambda>u. u\<lparr>b_prev := v\<rparr>) s) c) = payload (bufs s c)"
  by (simp_all add: payload_def)

lemma payload_move: "payload (bufs (move_to_front b s) c) = payload (bufs s c)"
  by (simp only: move_to_front_def Let_def payload_link)

lemma move_to_front_fields:
  "b_dev (bufs (move_to_front b s) c) = b_dev (bufs s c)" "b_blockno (bufs (move_to_front b s) c) = b_blockno (bufs s c)"
  "b_refcnt (bufs (move_to_front b s) c) = b_refcnt (bufs s c)" "b_data (bufs (move_to_front b s) c) = b_data (bufs s c)"
  "b_valid (bufs (move_to_front b s) c) = b_valid (bufs s c)"
  using payload_move [of b s c] by (simp_all add: payload_def)

lemma unref_inv:
  assumes "bcache_inv s xs" "b < NBUF"
  shows "bcache_inv (unref b s) (if b_refcnt (bufs s b) = 1 then b # remove1 b xs else xs)"
proof -
  let ?t = "set_buf b (\<lambda>u. u\<lparr>b_refcnt := b_refcnt u - 1\<rparr>) s"
  have t: "bcache_inv ?t xs" by (rule bcache_inv_buf [OF assms(1)]) simp
  have one: "b_refcnt (bufs s b) - 1 = 0 \<longleftrightarrow> b_refcnt (bufs s b) = 1" by (simp add: right_minus_eq)
  have "bcache_inv (move_to_front b ?t) (b # remove1 b xs)"
  proof -
    have "b \<in> set xs" "distinct xs" using assms by (auto simp: bcache_inv_def blist_def)
    moreover from this have "set (b # remove1 b xs) = set xs" by auto
    moreover have "blist (move_to_front b ?t) (b # remove1 b xs)"
      using t calculation(1) by (intro blist_move_to_front) (simp_all add: bcache_inv_def)
    ultimately show ?thesis using t unfolding bcache_inv_def is_block_def move_to_front_fields by blast
  qed
  then show ?thesis using t one by (simp add: unref_def Let_def)
qed

lemma brelse_eq:
  assumes "can_wake s" "lock_free BCACHE s" "lock_free (SLEEP_BUF b) s" "cpu_proc (mycpu s) = Some p"
  shows "brelse b s =
    (if sl_locked (slocks s (SLEEP_BUF b)) \<noteq> 0 \<and> sl_pid (slocks s (SLEEP_BUF b)) = p_pid (procs s p)
     then Ok (settle (unref b (wake_table (Some (ChSleep (SLEEP_BUF b))) (Some p) NPROC
            (set_slock (SLEEP_BUF b) \<lparr>sl_locked = 0, sl_pid = 0\<rparr> s))))
     else Panic ''brelse'')"
proof -
  let ?w = "wake_table (Some (ChSleep (SLEEP_BUF b))) (Some p) NPROC (set_slock (SLEEP_BUF b) \<lparr>sl_locked = 0, sl_pid = 0\<rparr> s)"
  have ok: "cpu_ok s" using assms(1) by (simp add: can_wake_def)
  have rs: "releasesleep (SLEEP_BUF b) (settle s) = Ok (settle ?w)"
    using releasesleep_eq [of "settle s" "SLEEP_BUF b"] assms by (simp add: settle_set_slock [symmetric] settle_wake_table)
  have w: "cpu_ok (settle ?w)" "lock_free BCACHE (settle ?w)" using ok assms(2) by simp_all
  have "unref b (settle ?w) = (settle ?w)\<lparr>bufs := bufs (unref b ?w)\<rparr>" by (rule unref_at) simp
  also have "\<dots> = settle (?w\<lparr>bufs := bufs (unref b ?w)\<rparr>)" by (simp add: settle_def machine_ops)
  also have "\<dots> = settle (unref b ?w)" by (rule arg_cong [OF unref_bufs [symmetric]])
  finally have u: "settle (unref b (settle ?w)) = settle (unref b ?w)" by simp
  show ?thesis
    using rs release_unref [OF w, of b] unfolding brelse_def u
    by (simp add: holdingsleep_eq [OF ok assms(3,4)] acquire_free [OF w(2)] unref_def Let_def)
qed

section \<open>Initialisation\<close>

definition unused_buf :: "buf \<Rightarrow> bool" where
  "unused_buf u \<longleftrightarrow> b_dev u = 0 \<and> b_refcnt u = 0 \<and> b_valid u = 0"

lemma unused_buf_link [simp]:
  "unused_buf (u\<lparr>b_next := v\<rparr>) = unused_buf u" "unused_buf (u\<lparr>b_prev := v\<rparr>) = unused_buf u"
  by (simp_all add: unused_buf_def)

definition binit_ok :: "nat \<Rightarrow> 'z vdisk_scheme \<Rightarrow> bool" where
  "binit_ok n s \<longleftrightarrow> blist s (rev [0..<n]) \<and> (\<forall>b<NBUF. unused_buf (bufs s b)) \<and> lock_free BCACHE s
     \<and> (\<forall>b<n. lock_free (SLEEP_BUF b) s \<and> sl_locked (slocks s (SLEEP_BUF b)) = 0)"

lemma initsleeplock_simps [simp]:
  "bufs (initsleeplock lk s) = bufs s" "nx (initsleeplock lk s) = nx s" "pv (initsleeplock lk s) = pv s"
  "slocks (initsleeplock lk s) = (slocks s)(lk := \<lparr>sl_locked = 0, sl_pid = 0\<rparr>)"
  "lock_free lk' (initsleeplock lk s) = (lk' = lk \<or> lock_free lk' s)"
  by (auto simp: initsleeplock_def initlock_def set_slock_def nx_def pv_def lock_free_def fun_eq_iff)

lemma binit_step:
  assumes "binit_ok b s" "b < NBUF"
  shows "\<exists>t. (let s = set_buf b (\<lambda>u. u\<lparr>b_next := b_next (bufs s bhead)\<rparr>) s;
               s = set_buf b (\<lambda>u. u\<lparr>b_prev := bhead\<rparr>) s;
               s = initsleeplock (SLEEP_BUF b) s;
               s = set_buf (b_next (bufs s bhead)) (\<lambda>u. u\<lparr>b_prev := b\<rparr>) s
           in Ok (set_buf bhead (\<lambda>h. h\<lparr>b_next := b\<rparr>) s)) = Ok t \<and> binit_ok (Suc b) t"
proof -
  let ?s1 = "set_buf b (\<lambda>u. u\<lparr>b_prev := bhead\<rparr>) (set_buf b (\<lambda>u. u\<lparr>b_next := nx s bhead\<rparr>) s)"
  let ?s2 = "initsleeplock (SLEEP_BUF b) ?s1"
  let ?t = "set_buf bhead (\<lambda>h. h\<lparr>b_next := b\<rparr>) (set_buf (nx ?s2 bhead) (\<lambda>u. u\<lparr>b_prev := b\<rparr>) ?s2)"
  have h: "nx ?s2 bhead = nx s bhead" using assms(2) by simp
  have "blist ?t (b # rev [0..<b])"
    using assms by (intro blist_insert [of s]) (auto simp: binit_ok_def h)
  moreover have "unused_buf (bufs ?t c) = unused_buf (bufs s c)" for c
    by (simp add: h)
  ultimately have "binit_ok (Suc b) ?t" using assms(1) by (auto simp: binit_ok_def less_Suc_eq)
  then show ?thesis by (simp only: Let_def link_nx) blast
qed

lemma binit_correct:
  assumes "\<And>b. b < NBUF \<Longrightarrow> unused_buf (bufs s b)"
  shows "\<exists>s'. binit s = Ok s' \<and> binit_ok NBUF s'"
proof -
  let ?s = "set_buf bhead (\<lambda>h. h\<lparr>b_prev := bhead, b_next := bhead\<rparr>) (initlock BCACHE s)"
  have "nx ?s bhead = bhead" "pv ?s bhead = bhead" by (simp_all add: nx_def pv_def)
  moreover have "lock_free BCACHE ?s" by (simp add: initlock_def lock_free_def)
  moreover have "unused_buf (bufs ?s b)" if "b < NBUF" for b using assms [OF that] that by (simp add: initlock_def)
  ultimately have "binit_ok 0 ?s" by (simp add: binit_ok_def blist_def)
  then show ?thesis unfolding binit_def Let_def
    using for_upto_total [of 0 NBUF binit_ok ?s, OF _ _ binit_step [unfolded Let_def]] by simp
qed

section \<open>Properties\<close>

text \<open>A fresh cache in which buffer 3 holds block 7 of device 1 and nobody uses it.\<close>

definition sample_buf :: "nat \<Rightarrow> buf" where
  "sample_buf b = \<lparr>b_valid = (if b = 3 then 1 else 0), b_disk = 0, b_dev = (if b = 3 then 1 else 0),
     b_blockno = (if b = 3 then 7 else 0), b_refcnt = 0, b_prev = (if b = NBUF then 0 else b + 1),
     b_next = (if b = NBUF then 29 else if b = 0 then NBUF else b - 1), b_data = replicate BSIZE 0\<rparr>"

definition sample_dev :: disk where
  "sample_dev = \<lparr>dk_desc_page = 0, dk_avail_page = 0, dk_used_page = 0, dk_desc = (\<lambda>_. zero_desc), dk_avail_idx = 0,
     dk_avail_ring = (\<lambda>_. 0), dk_used_hw = 0, dk_used_ring = (\<lambda>_. 0), dk_free = (\<lambda>_. True), dk_used_idx = 0,
     dk_info = (\<lambda>_. \<lparr>i_b = None, i_status = 0\<rparr>), dk_ops = (\<lambda>_. \<lparr>rq_type = 0, rq_reserved = 0, rq_sector = 0\<rparr>)\<rparr>"

definition sample_cache :: vdisk where
  "sample_cache = sleepers.extend (consdev.extend sample_uart (sleepers.fields (\<lambda>_. \<lparr>sl_locked = 0, sl_pid = 0\<rparr>)))
     (vdisk.fields sample_buf sample_dev (\<lambda>_. 0) [] (\<lambda>_. []) [])"

lemmas sample_cache_defs = sample_cache_def sleepers.defs vdisk.defs sample_uart_def consdev.defs proctab.defs sample_procs_def

lemma sample_cache_fields:
  "bufs sample_cache = sample_buf" "lock_free lk sample_cache" "cpu_ok sample_cache" "cpu_proc (mycpu sample_cache) = Some 0"
  "sl_locked (slocks sample_cache lk) = 0" "can_wake sample_cache"
  by (simp_all add: sample_cache_defs lock_free_def cpu_ok_def can_wake_def machine_ops)

lemma sample_cache_inv: "bcache_inv sample_cache (rev [0..<NBUF])"
proof -
  have "nx sample_cache = (\<lambda>b. b_next (sample_buf b))" "pv sample_cache = (\<lambda>b. b_prev (sample_buf b))"
    by (simp_all add: nx_def pv_def fun_eq_iff sample_cache_fields)
  moreover have "chain (\<lambda>b. b_next (sample_buf b)) bhead (rev [0..<NBUF]) bhead" "chain (\<lambda>b. b_prev (sample_buf b)) bhead [0..<NBUF] bhead"
    by (simp_all add: sample_buf_def upt_rec)
  ultimately show ?thesis by (auto simp: bcache_inv_def blist_def sample_cache_fields is_block_def sample_buf_def)
qed

lemma sample_find:
  "find_cached 1 7 sample_buf (rev [0..<NBUF]) = Some 3" "find_cached 1 8 sample_buf (rev [0..<NBUF]) = None"
  "find_unused sample_buf (rev [0..<NBUF]) = Some 0"
  by (simp_all add: find_cached_def find_unused_def is_block_def sample_buf_def upt_rec)

text \<open>
  C29. \<open>binit\<close>, run on zeroed memory, builds a well-formed cache: the circular list, followed in either
  direction, has each of the 30 buffers once, the last one first, all locks are free, and every buffer
  still is unused: nobody refers to it and it holds no block.
\<close>

theorem binit_establishes_list:
  assumes "\<And>b. b < NBUF \<Longrightarrow> b_dev (bufs s b) = 0 \<and> b_refcnt (bufs s b) = 0 \<and> b_valid (bufs s b) = 0"
  shows "\<exists>s'. binit s = Ok s' \<and> bcache_inv s' (rev [0..<NBUF]) \<and> lock_free BCACHE s'
    \<and> (\<forall>b<NBUF. b_dev (bufs s' b) = 0 \<and> b_refcnt (bufs s' b) = 0 \<and> b_valid (bufs s' b) = 0)
    \<and> (\<forall>b<NBUF. lock_free (SLEEP_BUF b) s' \<and> sl_locked (slocks s' (SLEEP_BUF b)) = 0)"
proof -
  obtain s' where s': "binit s = Ok s'" "binit_ok NBUF s'" using binit_correct [of s] assms by (auto simp: unused_buf_def)
  moreover from s'(2) have "bcache_inv s' (rev [0..<NBUF])" by (auto simp: binit_ok_def bcache_inv_def unused_buf_def)
  ultimately show ?thesis by (auto simp: binit_ok_def unused_buf_def)
qed

theorem binit_establishes_list_witness:
  "\<exists>s'. binit (sample_cache\<lparr>bufs := \<lambda>b. (sample_buf b)\<lparr>b_dev := 0, b_valid := 0\<rparr>\<rparr>) = Ok s'
    \<and> bcache_inv s' (rev [0..<NBUF]) \<and> b_refcnt (bufs s' 29) = 0"
proof -
  have "b_dev (bufs s b) = 0 \<and> b_refcnt (bufs s b) = 0 \<and> b_valid (bufs s b) = 0"
    if "s = sample_cache\<lparr>bufs := \<lambda>b. (sample_buf b)\<lparr>b_dev := 0, b_valid := 0\<rparr>\<rparr>" for s b
    by (simp add: that sample_buf_def)
  from binit_establishes_list [OF this [OF refl]] show ?thesis by fastforce
qed

text \<open>
  C30. \<open>bget\<close> keeps the cache well formed and answers with a buffer of the block asked for, locked by the
  caller and with one more reference: the buffer that has the block already, with its contents, or
  else the least recently used of the buffers nobody refers to, marked as not valid. It panics
  exactly when the block is not cached and every buffer is in use. In particular its two searches
  of the list end, and a block of a device never is in two buffers.
\<close>

theorem bget_least_recently_used:
  assumes "bcache_inv s xs" "cpu_ok s" "lock_free BCACHE s" "cpu_proc (mycpu s) = Some p" "dev \<noteq> 0"
    "\<And>b. b < NBUF \<Longrightarrow> lock_free (SLEEP_BUF b) s \<and> sl_locked (slocks s (SLEEP_BUF b)) = 0"
  shows "case find (\<lambda>b. is_block dev bno (bufs s b)) xs of
      Some b \<Rightarrow> \<exists>s'. bget W dev bno s = Ok (b, s') \<and> bcache_inv s' xs \<and> b_data (bufs s' b) = b_data (bufs s b)
        \<and> b_valid (bufs s' b) = b_valid (bufs s b) \<and> b_refcnt (bufs s' b) = b_refcnt (bufs s b) + 1
        \<and> slocks s' = (slocks s)(SLEEP_BUF b := \<lparr>sl_locked = 1, sl_pid = p_pid (procs s p)\<rparr>)
    | None \<Rightarrow> (case find (\<lambda>b. b_refcnt (bufs s b) = 0) (rev xs) of
        Some b \<Rightarrow> \<exists>s'. bget W dev bno s = Ok (b, s') \<and> bcache_inv s' xs \<and> is_block dev bno (bufs s' b)
          \<and> b_valid (bufs s' b) = 0 \<and> b_refcnt (bufs s' b) = 1
          \<and> slocks s' = (slocks s)(SLEEP_BUF b := \<lparr>sl_locked = 1, sl_pid = p_pid (procs s p)\<rparr>)
      | None \<Rightarrow> bget W dev bno s = Panic ''bget: no buffers'')"
proof -
  have free: "lock_free (SLEEP_BUF b) s \<and> sl_locked (slocks s (SLEEP_BUF b)) = 0" if "bget_buf dev bno s xs = Some (b, f)" for b f
    using assms(6) bget_inv(2) [OF assms(1) that assms(5)] by blast
  have sl: "slocks (bheld b f p s) = (slocks s)(SLEEP_BUF b := \<lparr>sl_locked = 1, sl_pid = p_pid (procs s p)\<rparr>)" for b f
    by (simp add: bheld_def)
  have eq: "bget W dev bno s = (case bget_buf dev bno s xs of
      Some (b, f) \<Rightarrow> Ok (b, bheld b f p s) | None \<Rightarrow> Panic ''bget: no buffers'')"
    by (rule bget_eq [OF assms(1-4)]) (rule free)
  show ?thesis
  proof (cases "bget_buf dev bno s xs")
    case None
    then show ?thesis using eq by (auto simp: bget_buf_def find_cached_def find_unused_def split: option.splits)
  next
    case (Some bf)
    obtain b f where bf: "bf = (b, f)" by (cases bf)
    note inv = bget_inv(1,3,4) [OF assms(1) Some [unfolded bf] assms(5), of p]
    show ?thesis using eq inv sl [of b f] Some bf
      by (auto simp: bget_buf_def find_cached_def find_unused_def bheld_def split: option.splits)
  qed
qed

theorem bget_least_recently_used_witness:
  "(\<exists>s'. bget idle_world 1 7 sample_cache = Ok (3, s')) \<and> (\<exists>s'. bget idle_world 1 8 sample_cache = Ok (0, s'))"
  using bget_least_recently_used [OF sample_cache_inv sample_cache_fields(3) sample_cache_fields(2,4), where dev = 1 and bno = 7 and W = idle_world]
    bget_least_recently_used [OF sample_cache_inv sample_cache_fields(3) sample_cache_fields(2,4), where dev = 1 and bno = 8 and W = idle_world]
    sample_find [unfolded find_cached_def find_unused_def]
  by (auto simp: sample_cache_fields)

text \<open>
  C31. \<open>brelse\<close> gives up one reference and the lock, and when it was the last reference moves the buffer
  to the front of the list, as the most recently used one, leaving the order of the others; the
  cache stays well formed and the block stays in it. Without the lock it panics.
\<close>

theorem brelse_moves_to_front:
  assumes "bcache_inv s xs" "b < NBUF" "can_wake s" "lock_free BCACHE s" "lock_free (SLEEP_BUF b) s" "cpu_proc (mycpu s) = Some p"
  shows "if sl_locked (slocks s (SLEEP_BUF b)) \<noteq> 0 \<and> sl_pid (slocks s (SLEEP_BUF b)) = p_pid (procs s p)
    then \<exists>s'. brelse b s = Ok s' \<and> bcache_inv s' (if b_refcnt (bufs s b) = 1 then b # remove1 b xs else xs)
      \<and> b_refcnt (bufs s' b) = b_refcnt (bufs s b) - 1 \<and> b_dev (bufs s' b) = b_dev (bufs s b)
      \<and> b_blockno (bufs s' b) = b_blockno (bufs s b) \<and> b_data (bufs s' b) = b_data (bufs s b)
      \<and> sl_locked (slocks s' (SLEEP_BUF b)) = 0
    else brelse b s = Panic ''brelse''"
proof -
  let ?w = "wake_table (Some (ChSleep (SLEEP_BUF b))) (Some p) NPROC (set_slock (SLEEP_BUF b) \<lparr>sl_locked = 0, sl_pid = 0\<rparr> s)"
  have w: "bufs ?w = bufs s" by simp
  have "bcache_inv (settle (unref b ?w)) (if b_refcnt (bufs s b) = 1 then b # remove1 b xs else xs)"
    using unref_inv [of ?w xs b] assms(1,2) bcache_inv_cong [OF w] bcache_inv_cong [of "settle (unref b ?w)" "unref b ?w"] by simp
  moreover have "slocks (unref b ?w) = slocks ?w" by (subst unref_bufs) simp
  then have "sl_locked (slocks (settle (unref b ?w)) (SLEEP_BUF b)) = 0" by (simp add: wake_table_def)
  moreover have "b_refcnt (bufs (unref b ?w) b) = b_refcnt (bufs s b) - 1" "b_dev (bufs (unref b ?w) b) = b_dev (bufs s b)"
    "b_blockno (bufs (unref b ?w) b) = b_blockno (bufs s b)" "b_data (bufs (unref b ?w) b) = b_data (bufs s b)"
    by (simp_all add: unref_def Let_def move_to_front_fields)
  ultimately show ?thesis using brelse_eq [OF assms(3-6)] by simp
qed

theorem brelse_moves_to_front_witness:
  "\<exists>s'. brelse 3 (bheld 3 (\<lambda>u. u\<lparr>b_refcnt := b_refcnt u + 1\<rparr>) 0 sample_cache) = Ok s'
     \<and> bcache_inv s' (3 # remove1 3 (rev [0..<NBUF]))"
proof -
  let ?s = "bheld 3 (\<lambda>u. u\<lparr>b_refcnt := b_refcnt u + 1\<rparr>) 0 sample_cache"
  have "bget_buf 1 7 sample_cache (rev [0..<NBUF]) = Some (3, \<lambda>u. u\<lparr>b_refcnt := b_refcnt u + 1\<rparr>)"
    unfolding bget_buf_def sample_cache_fields(1) sample_find(1) by simp
  from bget_inv(1) [OF sample_cache_inv this] have inv: "bcache_inv ?s (rev [0..<NBUF])" by simp
  have cw: "can_wake ?s" using sample_cache_fields(6) by (simp add: bheld_def can_wake_def)
  show ?thesis
    using brelse_moves_to_front [OF inv _ cw, of 3 0] sample_cache_fields
    by (simp add: bheld_def sample_buf_def) blast
qed

end
