(* ===== verification/Wal.thy ===== *)
theory Wal
  imports Log Bufcache
begin

text \<open>
  Correctness of the log: the header block as an encoding of the header, and the list of blocks a
  transaction has written.
\<close>

section \<open>Words in a block\<close>

lemma length_put_data: "off + length xs \<le> length bs \<Longrightarrow> length (put_data bs off xs) = length bs"
  by (simp add: put_data_def)

lemma length_put32 [simp]: "off + 4 \<le> length bs \<Longrightarrow> length (put32 off v bs) = length bs"
  by (simp add: put32_def length_put_data)

lemma nth_put_data:
  assumes "off + length xs \<le> length bs" "i < length bs"
  shows "put_data bs off xs ! i = (if off \<le> i \<and> i < off + length xs then xs ! (i - off) else bs ! i)"
  using assms by (auto simp: put_data_def nth_append min_def)

lemma take_drop_put_same: "off + length xs \<le> length bs \<Longrightarrow> take (length xs) (drop off (put_data bs off xs)) = xs"
  by (simp add: put_data_def)

lemma take_drop_put_other:
  assumes "off + length xs \<le> length bs" "k + n \<le> off \<or> off + length xs \<le> k" "k + n \<le> length bs"
  shows "take n (drop k (put_data bs off xs)) = take n (drop k bs)"
  using assms by (intro nth_equalityI) (auto simp: length_put_data nth_put_data)

lemma data32_put32 [simp]: "off + 4 \<le> length bs \<Longrightarrow> data32 (put32 off v bs) off = v"
proof -
  assume "off + 4 \<le> length bs"
  then have "take 4 (drop off (put32 off v bs)) = nat_le 4 (unat v)"
    using take_drop_put_same [of off "nat_le 4 (unat v)" bs] by (simp add: put32_def)
  moreover have "unat v < 256 ^ 4" using unsigned_less [of v] by simp
  ultimately show ?thesis by (simp add: data32_def le_nat_nat_le)
qed

lemma data32_put32_other:
  "off + 4 \<le> length bs \<Longrightarrow> k + 4 \<le> off \<or> off + 4 \<le> k \<Longrightarrow> k + 4 \<le> length bs \<Longrightarrow> data32 (put32 off v bs) k = data32 bs k"
  using take_drop_put_other [of off "nat_le 4 (unat v)" bs k 4] by (simp add: data32_def put32_def)

section \<open>The header block\<close>

lemma length_put_blocks [simp]: "4 + 4 * n \<le> length bs \<Longrightarrow> length (put_blocks n bl bs) = length bs"
  by (induction n) auto

lemma data32_put_blocks:
  assumes "4 + 4 * n \<le> length bs"
  shows "data32 (put_blocks n bl bs) 0 = data32 bs 0" "i < n \<Longrightarrow> data32 (put_blocks n bl bs) (4 + 4 * i) = bl i"
  using assms by (induction n) (auto simp: data32_put32_other less_Suc_eq)

definition log_blocks :: "logheader \<Rightarrow> uint32 list" where
  "log_blocks lh = map (lh_block lh) [0..<nat (lh_n lh)]"

definition head_ok :: "logheader \<Rightarrow> bool" where
  "head_ok lh \<longleftrightarrow> 0 \<le> lh_n lh \<and> lh_n lh \<le> int LOGSIZE"

lemma decode_encode_head:
  assumes "head_ok lh" "length bs = BSIZE"
  shows "lh_n (decode_head (encode_head lh bs) lh') = lh_n lh"
    "log_blocks (decode_head (encode_head lh bs) lh') = log_blocks lh"
    "length (encode_head lh bs) = BSIZE"
proof -
  let ?n = "nat (lh_n lh)" and ?e = "encode_head lh bs"
  have n: "4 + 4 * ?n \<le> length (put32 0 (of_int (lh_n lh)) bs)" using assms by (auto simp: head_ok_def nat_le_iff)
  have "data32 ?e 0 = of_int (lh_n lh)" using data32_put_blocks(1) [OF n] assms(2) by (simp add: encode_head_def)
  moreover have "sint (of_int (lh_n lh) :: uint32) = lh_n lh"
    using assms(1) by (simp add: head_ok_def sint_sbintrunc' signed_take_bit_int_eq_self)
  ultimately have h: "sint (data32 ?e 0) = lh_n lh" by simp
  then show "lh_n (decode_head ?e lh') = lh_n lh" by (simp add: decode_head_def)
  have "data32 ?e (4 + 4 * i) = lh_block lh i" if "i < ?n" for i
    using data32_put_blocks(2) [OF n that] by (simp add: encode_head_def)
  then show "log_blocks (decode_head ?e lh') = log_blocks lh"
    using assms(1) h by (auto simp: log_blocks_def decode_head_def head_ok_def)
  show "length ?e = BSIZE" using n assms(2) by (simp add: encode_head_def)
qed

section \<open>Logging a block\<close>

lemma log_frame [simp]:
  "log (settle s) = log s" "log (locking lk s) = log s" "log (set_buf b f s) = log s" "log (set_slock lk l s) = log s"
  "log (wake_table chan me n s) = log s" "log (set_log g s) = g (log s)" "log (set_lh h s) = (log s)\<lparr>log_lh := h (log_lh (log s))\<rparr>"
  by (simp_all add: settle_def locking_def push_off_def set_buf_def set_slock_def wake_table_def set_log_def set_lh_def machine_ops Let_def)

lemma set_log_simps [simp]:
  "cpus (set_log f s) = cpus s" "tp (set_log f s) = tp s" "locks (set_log f s) = locks s" "sie (set_log f s) = sie s"
  "mycpu (set_log f s) = mycpu s" "cpu_ok (set_log f s) = cpu_ok s" "lock_free lk (set_log f s) = lock_free lk s"
  "procs (set_log f s) = procs s" "slocks (set_log f s) = slocks s" "bufs (set_log f s) = bufs s"
  by (simp_all add: set_log_def lock_free_def cpu_ok_def machine_ops)

lemma log_slot_eq: "log_slot k i bno bl = i + length (takeWhile (\<lambda>x. x \<noteq> bno) (map bl [i..<i + k]))"
  by (induction k arbitrary: i) (auto simp: upt_conv_Cons simp del: upt_Suc)

lemma takeWhile_first:
  "x \<in> set xs \<Longrightarrow> length (takeWhile (\<lambda>y. y \<noteq> x) xs) < length xs \<and> xs ! length (takeWhile (\<lambda>y. y \<noteq> x) xs) = x"
  by (induction xs) auto

lemma takeWhile_none: "x \<notin> set xs \<Longrightarrow> takeWhile (\<lambda>y. y \<noteq> x) xs = xs"
  by (induction xs) auto

lemma log_slot_blocks:
  assumes "0 \<le> lh_n lh"
  shows "log_slot (nat (lh_n lh)) 0 bno (lh_block lh) = length (takeWhile (\<lambda>x. x \<noteq> bno) (log_blocks lh))"
  by (simp add: log_slot_eq log_blocks_def)

lemma bpin_eq: "cpu_ok s \<Longrightarrow> lock_free BCACHE s \<Longrightarrow> bpin b s = Ok (settle (set_buf b (\<lambda>u. u\<lparr>b_refcnt := b_refcnt u + 1\<rparr>) s))"
  by (simp add: bpin_def acquire_free release_set_buf)

lemma release_log:
  assumes "cpu_ok s" "lock_free lk s"
  shows "release lk ((locking lk s)\<lparr>log := l, bufs := bs\<rparr>) = Ok (settle (s\<lparr>log := l, bufs := bs\<rparr>))"
  by (subst release_after [OF assms(1) _ _ _ _ assms(2)])
    (simp_all add: locking_def push_off_def settle_def machine_ops Let_def)

text \<open>The header with one more block.\<close>

definition add_block :: "uint32 \<Rightarrow> logheader \<Rightarrow> logheader" where
  "add_block bno lh = \<lparr>lh_n = lh_n lh + 1, lh_block = (lh_block lh)(nat (lh_n lh) := bno)\<rparr>"

lemma log_blocks_add: "0 \<le> lh_n lh \<Longrightarrow> log_blocks (add_block bno lh) = log_blocks lh @ [bno]"
  by (auto simp: log_blocks_def add_block_def nat_add_distrib)

lemma log_write_eq:
  assumes "cpu_ok s" "lock_free LOG s" "lock_free BCACHE s" "0 \<le> lh_n (log_lh (log s))"
  shows "log_write b s =
    (if lh_n (log_lh (log s)) \<ge> int LOGSIZE \<or> lh_n (log_lh (log s)) \<ge> log_size (log s) - 1 then Panic ''too big a transaction''
     else if log_outstanding (log s) < 1 then Panic ''log_write outside of trans''
     else if b_blockno (bufs s b) \<in> set (log_blocks (log_lh (log s))) then Ok (settle s)
     else Ok (settle (set_buf b (\<lambda>u. u\<lparr>b_refcnt := b_refcnt u + 1\<rparr>) (set_lh (add_block (b_blockno (bufs s b))) s))))"
proof -
  let ?lh = "log_lh (log s)" and ?bno = "b_blockno (bufs s b)" and ?l = "locking LOG s"
  let ?i = "log_slot (nat (lh_n ?lh)) 0 ?bno (lh_block ?lh)"
  let ?t = "set_lh (\<lambda>lh. lh\<lparr>lh_block := (lh_block lh)(?i := ?bno)\<rparr>) ?l"
  have len: "length (log_blocks ?lh) = nat (lh_n ?lh)" by (simp add: log_blocks_def)
  have ok: "cpu_ok ?l" "lock_free BCACHE ?l" using cpu_ok_locking [OF assms(1)] assms(3) by simp_all
  show ?thesis
  proof (cases "?bno \<in> set (log_blocks ?lh)")
    case True
    then have i: "?i < nat (lh_n ?lh)" "log_blocks ?lh ! ?i = ?bno"
      unfolding log_slot_blocks [OF assms(4)] using takeWhile_first [OF True] len by auto
    then have "(lh_block ?lh)(?i := ?bno) = lh_block ?lh" by (auto simp: log_blocks_def)
    then have "?t = ?l" by (simp add: set_lh_def set_log_def)
    then show ?thesis using i(1) True
      by (auto simp: log_write_def acquire_free [OF assms(2)] Let_def release_locking [OF assms(1,2)])
  next
    case False
    have i: "?i = nat (lh_n ?lh)" unfolding log_slot_blocks [OF assms(4)] takeWhile_none [OF False] by (rule len)
    have t: "cpu_ok ?t" "lock_free BCACHE ?t" using ok by (simp_all add: set_lh_def)
    have "settle (set_buf b f ?t) = set_buf b f ?t" for f
      using assms(1) by (intro settle_id) (simp add: set_lh_def cpu_ok_def)
    then have pin: "bpin b ?t = Ok (set_buf b (\<lambda>u. u\<lparr>b_refcnt := b_refcnt u + 1\<rparr>) ?t)" using bpin_eq [OF t] by simp
    have "set_lh (\<lambda>lh. lh\<lparr>lh_n := lh_n lh + 1\<rparr>) (set_buf b f ?t) = set_buf b f (set_lh (add_block ?bno) ?l)" for f
      by (simp add: set_lh_def set_log_def set_buf_def add_block_def i)
    moreover have "release LOG (set_buf b f (set_lh h ?l)) = Ok (settle (set_buf b f (set_lh h s)))" for f h
      using release_log [OF assms(1,2)] by (simp add: set_buf_def set_lh_def set_log_def)
    ultimately show ?thesis
      using False i pin assms(4) by (simp add: log_write_def acquire_free [OF assms(2)] Let_def)
  qed
qed

section \<open>Properties\<close>

text \<open>Blocks of one operation, logged one after the other.\<close>

primrec log_writes :: "nat list \<Rightarrow> 'z logged_scheme \<Rightarrow> 'z logged_scheme res" where
  "log_writes [] s = Ok s"
| "log_writes (b # bs) s = bnd (log_write b s) (log_writes bs)"

lemma log_writes_fit:
  assumes "cpu_ok s" "lock_free LOG s" "lock_free BCACHE s" "0 \<le> lh_n (log_lh (log s))" "1 \<le> log_outstanding (log s)"
    "lh_n (log_lh (log s)) + int (length bs) \<le> min (int LOGSIZE) (log_size (log s) - 1)"
    "distinct (log_blocks (log_lh (log s)) @ map (\<lambda>b. b_blockno (bufs s b)) bs)"
  shows "\<exists>t. log_writes bs s = Ok t \<and> log_blocks (log_lh (log t)) = log_blocks (log_lh (log s)) @ map (\<lambda>b. b_blockno (bufs s b)) bs
    \<and> cpu_ok t \<and> lock_free LOG t \<and> lock_free BCACHE t \<and> lh_n (log_lh (log t)) = lh_n (log_lh (log s)) + int (length bs)
    \<and> log_size (log t) = log_size (log s)"
  using assms
proof (induction bs arbitrary: s)
  case (Cons b bs)
  let ?lh = "log_lh (log s)" and ?bno = "b_blockno (bufs s b)"
  let ?t = "settle (set_buf b (\<lambda>u. u\<lparr>b_refcnt := b_refcnt u + 1\<rparr>) (set_lh (add_block ?bno) s))"
  have w: "log_write b s = Ok ?t" using log_write_eq [OF Cons.prems(1-4), of b] Cons.prems(5-7) by auto
  have lh: "log_lh (log ?t) = add_block ?bno ?lh" "lh_n (add_block ?bno ?lh) = lh_n ?lh + 1" by (simp_all add: add_block_def)
  have no: "b_blockno (bufs ?t c) = b_blockno (bufs s c)" for c by (simp add: set_lh_def)
  have "\<exists>u. log_writes bs ?t = Ok u \<and> log_blocks (log_lh (log u)) = log_blocks (log_lh (log ?t)) @ map (\<lambda>b. b_blockno (bufs ?t b)) bs
    \<and> cpu_ok u \<and> lock_free LOG u \<and> lock_free BCACHE u \<and> lh_n (log_lh (log u)) = lh_n (log_lh (log ?t)) + int (length bs)
    \<and> log_size (log u) = log_size (log ?t)"
  proof (rule Cons.IH)
    show "cpu_ok ?t" "lock_free LOG ?t" "lock_free BCACHE ?t" using Cons.prems(1-3) by (simp_all add: set_lh_def)
    show "distinct (log_blocks (log_lh (log ?t)) @ map (\<lambda>b. b_blockno (bufs ?t b)) bs)"
      using Cons.prems(7) unfolding lh log_blocks_add [OF Cons.prems(4)] no by auto
  qed (use Cons.prems(4-6) lh in auto)
  then show ?case using w unfolding lh log_blocks_add [OF Cons.prems(4)] no by (auto simp: lh(2))
qed simp

lemma begin_op_admits:
  assumes "cpu_ok s" "lock_free LOG s" "log_committing (log s) = 0"
    "lh_n (log_lh (log s)) + (log_outstanding (log s) + 1) * int MAXOPBLOCKS \<le> int LOGSIZE"
  shows "begin_op W s = Ok (settle (set_log (\<lambda>l. l\<lparr>log_outstanding := log_outstanding l + 1\<rparr>) s))"
proof -
  have "release LOG (set_log f (locking LOG s)) = Ok (settle (set_log f s))" for f
  proof -
    have "set_log f (locking LOG s) = (locking LOG s)\<lparr>log := f (log s), bufs := bufs s\<rparr>"
      by (simp add: set_log_def locking_def push_off_def machine_ops Let_def)
    moreover have "set_log f s = s\<lparr>log := f (log s), bufs := bufs s\<rparr>" by (simp add: set_log_def)
    ultimately show ?thesis using release_log [OF assms(1,2)] by metis
  qed
  then show ?thesis using assms(3,4) by (simp add: begin_op_def acquire_free [OF assms(2)])
qed

text \<open>
  C32. \<open>log_write\<close> keeps the header of the log well formed: the blocks of the transaction stay distinct, a
  block logged already is not logged again, and a new one is added at the end and its buffer gets
  the reference that keeps it in the cache. It panics when the log is full or no operation is under
  way, and changes nothing else.
\<close>

theorem log_write_absorbs:
  assumes "cpu_ok s" "lock_free LOG s" "lock_free BCACHE s" "0 \<le> lh_n (log_lh (log s))" "distinct (log_blocks (log_lh (log s)))"
  shows "if lh_n (log_lh (log s)) \<ge> min (int LOGSIZE) (log_size (log s) - 1) then log_write b s = Panic ''too big a transaction''
    else if log_outstanding (log s) < 1 then log_write b s = Panic ''log_write outside of trans''
    else let bno = b_blockno (bufs s b); blocks = log_blocks (log_lh (log s)) in
      \<exists>s'. log_write b s = Ok s' \<and> distinct (log_blocks (log_lh (log s'))) \<and> head_ok (log_lh (log s'))
        \<and> log_blocks (log_lh (log s')) = (if bno \<in> set blocks then blocks else blocks @ [bno])
        \<and> bufs s' = (if bno \<in> set blocks then bufs s else (bufs s)(b := (bufs s b)\<lparr>b_refcnt := b_refcnt (bufs s b) + 1\<rparr>))
        \<and> s' = settle (s\<lparr>log := (log s)\<lparr>log_lh := log_lh (log s')\<rparr>, bufs := bufs s'\<rparr>)"
proof -
  let ?lh = "log_lh (log s)" and ?bno = "b_blockno (bufs s b)"
  consider "lh_n ?lh \<ge> min (int LOGSIZE) (log_size (log s) - 1)" | "log_outstanding (log s) < 1"
    | (go) "\<not> lh_n ?lh \<ge> min (int LOGSIZE) (log_size (log s) - 1)" "\<not> log_outstanding (log s) < 1" by blast
  then show ?thesis
  proof cases
    case go
    note eq = log_write_eq [OF assms(1-4), of b]
    show ?thesis
    proof (cases "?bno \<in> set (log_blocks ?lh)")
      case True
      then show ?thesis using eq go assms(4,5) by (auto simp: Let_def min_le_iff_disj head_ok_def)
    next
      case False
      let ?t = "settle (set_buf b (\<lambda>u. u\<lparr>b_refcnt := b_refcnt u + 1\<rparr>) (set_lh (add_block ?bno) s))"
      have "log_write b s = Ok ?t" using eq go False by (auto simp: min_le_iff_disj)
      moreover have "head_ok (add_block ?bno ?lh)" using go assms(4) by (auto simp: head_ok_def add_block_def min_le_iff_disj)
      moreover have "?t = settle (s\<lparr>log := (log s)\<lparr>log_lh := log_lh (log ?t)\<rparr>, bufs := bufs ?t\<rparr>)"
        by (simp add: set_lh_def set_log_def set_buf_def)
      moreover have "bufs ?t = (bufs s)(b := (bufs s b)\<lparr>b_refcnt := b_refcnt (bufs s b) + 1\<rparr>)" by (simp add: set_lh_def)
      ultimately show ?thesis using go False assms(5) log_blocks_add [OF assms(4), of ?bno]
        by (simp add: Let_def del: bufs_frame)
    qed
  qed (use log_write_eq [OF assms(1-4), of b] in \<open>auto simp: min_le_iff_disj\<close>)
qed

text \<open>A log with the first \<open>n\<close> blocks 1000, 1001, ... and \<open>k\<close> operations under way.\<close>

definition sample_log :: "nat \<Rightarrow> int \<Rightarrow> logged" where
  "sample_log n k = vdisk.extend sample_cache (logged.fields
     \<lparr>log_start = 2, log_size = int LOGSIZE, log_outstanding = k, log_committing = 0, log_dev = 1,
      log_lh = \<lparr>lh_n = int n, lh_block = (\<lambda>i. of_nat (1000 + i))\<rparr>\<rparr>)"

lemma sample_log_fields:
  "log_lh (log (sample_log n k)) = \<lparr>lh_n = int n, lh_block = (\<lambda>i. of_nat (1000 + i))\<rparr>" "log_outstanding (log (sample_log n k)) = k"
  "log_size (log (sample_log n k)) = int LOGSIZE" "log_committing (log (sample_log n k)) = 0"
  "bufs (sample_log n k) = bufs sample_cache" "cpu_ok (sample_log n k)" "lock_free lk (sample_log n k)"
  by (simp_all add: sample_log_def logged.defs sample_cache_defs cpu_ok_def lock_free_def machine_ops)

theorem log_write_absorbs_witness:
  "\<exists>s'. log_write 3 (sample_log 2 1) = Ok s' \<and> log_blocks (log_lh (log s')) = [1000, 1001, 7] \<and> b_refcnt (bufs s' 3) = 1"
proof -
  have b: "log_blocks (log_lh (log (sample_log 2 1))) = [1000, 1001]" by (simp add: sample_log_fields log_blocks_def upt_rec)
  have "b_blockno (bufs (sample_log 2 1) 3) = 7" "b_refcnt (bufs (sample_log 2 1) 3) = 0" "lh_n (log_lh (log (sample_log 2 1))) = 2"
    by (simp_all add: sample_log_fields sample_cache_fields sample_buf_def)
  then show ?thesis using log_write_absorbs [of "sample_log 2 1" 3] sample_log_fields(2,3,6,7) by (auto simp: b Let_def)
qed

text \<open>
  C33. The reservation of \<open>begin_op\<close> is one block short. The log is made with \<open>LOGSIZE\<close> blocks, one of which
  is the header, but \<open>begin_op\<close> reserves against \<open>LOGSIZE\<close>. With an empty log it admits three
  operations at once. When each writes the \<open>MAXOPBLOCKS\<close> different blocks it may write, the first 29
  blocks are logged, and the thirtieth makes \<open>log_write\<close> panic.
\<close>

theorem begin_op_overcommits:
  assumes "cpu_ok s" "lock_free LOG s" "lock_free BCACHE s" "log_committing (log s) = 0" "log_outstanding (log s) = 0"
    "log_size (log s) = int LOGSIZE" "lh_n (log_lh (log s)) = 0"
    "length bs = 3 * MAXOPBLOCKS - 1" "distinct (map (\<lambda>b. b_blockno (bufs s b)) (bs @ [b]))"
  shows "\<exists>s1 s2 s3 t. begin_op W s = Ok s1 \<and> begin_op W s1 = Ok s2 \<and> begin_op W s2 = Ok s3 \<and> log_outstanding (log s3) = 3
    \<and> log_writes bs s3 = Ok t \<and> log_blocks (log_lh (log t)) = map (\<lambda>b. b_blockno (bufs s b)) bs
    \<and> log_write b t = Panic ''too big a transaction''"
proof -
  let ?f = "\<lambda>s. settle (set_log (\<lambda>l. l\<lparr>log_outstanding := log_outstanding l + 1\<rparr>) s)"
  let ?t = "?f (?f (?f s))"
  have b: "begin_op W s = Ok (?f s)" "begin_op W (?f s) = Ok (?f (?f s))" "begin_op W (?f (?f s)) = Ok ?t"
    by (rule begin_op_admits; use assms in simp)+
  have e: "log_blocks (log_lh (log s)) = []" using assms(7) by (simp add: log_blocks_def)
  have "\<exists>t. log_writes bs ?t = Ok t \<and> log_blocks (log_lh (log t)) = log_blocks (log_lh (log ?t)) @ map (\<lambda>b. b_blockno (bufs ?t b)) bs
    \<and> cpu_ok t \<and> lock_free LOG t \<and> lock_free BCACHE t \<and> lh_n (log_lh (log t)) = lh_n (log_lh (log ?t)) + int (length bs)
    \<and> log_size (log t) = log_size (log ?t)"
    by (rule log_writes_fit) (use assms e in simp_all)
  then obtain t where t: "log_writes bs ?t = Ok t" "log_blocks (log_lh (log t)) = map (\<lambda>b. b_blockno (bufs s b)) bs"
    "cpu_ok t" "lock_free LOG t" "lock_free BCACHE t" "lh_n (log_lh (log t)) = 29" "log_size (log t) = int LOGSIZE"
    using assms(6-8) e by auto
  have "log_write b t = Panic ''too big a transaction''" using log_write_eq [OF t(3-5), of b] t(6,7) by simp
  then show ?thesis using b t(1,2) assms(5) by (intro exI [of _ "?f s"] exI [of _ "?f (?f s)"] exI [of _ ?t] exI [of _ t]) simp
qed

theorem begin_op_overcommits_witness:
  "\<exists>s1 s2 s3 t. let s = (sample_log 0 0)\<lparr>bufs := \<lambda>b. (sample_buf b)\<lparr>b_blockno := of_nat b\<rparr>\<rparr> in
     begin_op idle_world s = Ok s1 \<and> begin_op idle_world s1 = Ok s2 \<and> begin_op idle_world s2 = Ok s3
     \<and> log_writes [0..<29] s3 = Ok t \<and> log_write 29 t = Panic ''too big a transaction''"
proof -
  let ?s = "(sample_log 0 0)\<lparr>bufs := \<lambda>b. (sample_buf b)\<lparr>b_blockno := of_nat b\<rparr>\<rparr>"
  have f: "log ?s = log (sample_log 0 0)" "cpu_ok ?s" "lock_free lk ?s" for lk
    using sample_log_fields(6,7) by (simp_all add: cpu_ok_def lock_free_def machine_ops)
  have "distinct (map (\<lambda>b. b_blockno (bufs ?s b)) ([0..<29] @ [29]))" by (simp add: upt_rec)
  then show ?thesis using begin_op_overcommits [OF f(2,3,3), of "[0..<29]" 29 idle_world] unfolding Let_def f(1) sample_log_fields
    by (auto simp: sample_log_fields)
qed

end
