(* ===== verification/Lockset.thy ===== *)
theory Lockset
  imports Proc
begin

text \<open>
  What a process does to the locks, the harts and the process table, by the set of spin locks it
  holds: rules for \<open>acquire\<close>, \<open>release\<close>, \<open>myproc\<close>, \<open>wakeup\<close> and \<open>sleep\<close> that compose.
\<close>

section \<open>Locks held\<close>

definition holds_only :: "lockid set \<Rightarrow> nat \<Rightarrow> 'z machine_scheme \<Rightarrow> bool" where
  "holds_only L p s \<longleftrightarrow> finite L
     \<and> (\<forall>lk. locks s lk = (if lk \<in> L then \<lparr>locked = 1, lk_cpu = Some (tp s)\<rparr> else \<lparr>locked = 0, lk_cpu = None\<rparr>))
     \<and> noff (mycpu s) = int (card L) \<and> (L \<noteq> {} \<longrightarrow> \<not> intr_get s) \<and> cpu_proc (mycpu s) = Some p"

text \<open>Only the harts, the interrupt bits and the locks differ.\<close>

definition mach :: "'z machine_scheme \<Rightarrow> 'z machine_scheme \<Rightarrow> bool" where
  "mach s s' \<longleftrightarrow> mem s' = mem s \<and> tp s' = tp s \<and> machine.more s' = machine.more s"

lemma mach_refl [simp]: "mach s s"
  by (simp add: mach_def)

lemma mach_trans: "mach s s' \<Longrightarrow> mach s' s'' \<Longrightarrow> mach s s''"
  by (simp add: mach_def)

lemma mach_upd: "mach s s' \<Longrightarrow> s' = s\<lparr>cpus := cpus s', sie := sie s', locks := locks s'\<rparr>"
  by (rule machine.equality) (simp_all add: mach_def)

lemma mach_update: "mach s (s\<lparr>cpus := c, sie := i, locks := l\<rparr>)"
  by (simp add: mach_def)

lemma mach_locking: "mach s (locking lk s)"
  by (simp add: mach_def locking_def push_off_def machine_ops Let_def)

lemma mach_settle: "mach s (settle s)"
  by (simp add: mach_def settle_def machine_ops)

lemma holds_cpu_ok: "holds_only L p s \<Longrightarrow> cpu_ok s"
  by (auto simp: holds_only_def cpu_ok_def)

lemma holds_lock_free: "holds_only L p s \<Longrightarrow> lk \<notin> L \<Longrightarrow> lock_free lk s"
  by (simp add: holds_only_def lock_free_def)

lemma holds_settle: "holds_only L p (settle s) = holds_only L p s"
  by (simp add: holds_only_def settle_def machine_ops)

lemma holds_acquire:
  assumes "holds_only L p s" "lk \<notin> L"
  shows "acquire lk s = Ok (locking lk s)" "holds_only (insert lk L) p (locking lk s)"
proof -
  show "acquire lk s = Ok (locking lk s)" using assms by (intro acquire_free holds_lock_free)
  have "\<not> intr_get (locking lk s)" by (simp add: locking_def push_off_def machine_ops Let_def)
  then show "holds_only (insert lk L) p (locking lk s)" using assms by (simp add: holds_only_def)
qed

lemma holds_release:
  assumes "holds_only L p s" "lk \<in> L"
  shows "\<exists>s'. release lk s = Ok s' \<and> holds_only (L - {lk}) p s' \<and> mach s s'"
proof -
  let ?c = "mycpu s"
  have c: "0 < card L" using assms by (auto simp: holds_only_def card_gt_0_iff)
  let ?t = "s\<lparr>locks := (locks s)(lk := \<lparr>locked = 0, lk_cpu = None\<rparr>), cpus := (cpus s)(tp s := ?c\<lparr>noff := noff ?c - 1\<rparr>)\<rparr>"
  let ?s' = "if noff ?c = 1 \<and> intena ?c then intr_on ?t else ?t"
  have "release lk s = Ok ?s'"
    using assms c by (auto simp: release_def holding_def pop_off_def holds_only_def machine_ops Let_def)
  moreover have "holds_only (L - {lk}) p ?s'"
    using assms c by (auto simp: holds_only_def machine_ops card_Diff_singleton_if of_nat_diff card_1_singleton_iff)
  moreover have "mach s ?s'" by (simp add: mach_def machine_ops)
  ultimately show ?thesis by blast
qed

lemma holds_myproc:
  assumes "holds_only L p s" shows "myproc s = Ok (Some p, settle s)"
  using myproc_eq [OF holds_cpu_ok [OF assms]] assms by (simp add: holds_only_def)

section \<open>The fields of the process table\<close>

lemma mach_vm: "mach s s' \<Longrightarrow> freelist s' = freelist s" "mach s s' \<Longrightarrow> kernel_end s' = kernel_end s"
  by (drule mach_upd, drule arg_cong [where f = freelist], simp, drule mach_upd, drule arg_cong [where f = kernel_end], simp)

lemma mach_procs: "mach s s' \<Longrightarrow> procs s' = procs s"
  by (drule mach_upd, drule arg_cong [where f = procs], simp)

lemma holds_set_proc [simp]: "holds_only L p (set_proc q f s) = holds_only L p s"
  by (simp add: holds_only_def)

lemma holds_wake_table [simp]: "holds_only L p (wake_table chan me n s) = holds_only L p s"
  by (simp add: holds_only_def wake_table_def machine_ops)

lemma mach_set_proc: "mach s t \<Longrightarrow> mach (set_proc p f s) (set_proc p f t)"
proof -
  assume "mach s t"
  then obtain c i l where t: "t = s\<lparr>cpus := c, sie := i, locks := l\<rparr>" using mach_upd by blast
  have "set_proc p f t = (set_proc p f s)\<lparr>cpus := c, sie := i, locks := l\<rparr>" by (simp add: t set_proc_def)
  then show ?thesis using mach_update by metis
qed

lemma holds_wakeup:
  assumes "holds_only L p s" "\<And>q. q \<noteq> p \<Longrightarrow> PROC q \<notin> L"
  shows "wakeup chan s = Ok (settle (wake_table chan (Some p) NPROC s))"
proof (rule wakeup_eq [OF holds_cpu_ok [OF assms(1)]])
  show "Some p = cpu_proc (mycpu s)" using assms(1) by (simp add: holds_only_def)
  show "lock_free (PROC q) s" if "Some p \<noteq> Some q" for q using that assms(2) by (intro holds_lock_free [OF assms(1)]) auto
qed

lemma holds_killed: "holds_only L p s \<Longrightarrow> PROC q \<notin> L \<Longrightarrow> killed q s = Ok (p_killed (procs s q), settle s)"
  by (intro killed_eq holds_cpu_ok holds_lock_free)

section \<open>Sleeping\<close>

text \<open>
  \<open>sleep\<close> in terms of what happens between the switch away and the switch back: there the process
  holds its own lock only.
\<close>

lemma holds_sched:
  assumes "holds_only {PROC p} p u" "p_state (procs u p) \<noteq> RUNNING" "others W (settle u) = Ok u'" "holds_only {PROC p} p u'"
  shows "\<exists>v. sched W u = Ok v \<and> holds_only {PROC p} p v \<and> mach u' v"
proof -
  let ?i = "intena (mycpu (settle u))" and ?v = "\<lambda>i. set_mycpu (\<lambda>c. c\<lparr>intena := i\<rparr>) u'"
  have h: "holds_only {PROC p} p (settle u)" using assms(1) by (simp add: holds_settle)
  have "holding (PROC p) (settle u)" using h by (simp add: holding_def holds_only_def cpuid_def)
  moreover have "noff (mycpu (settle u)) = 1" "\<not> intr_get (settle u)" using h by (simp_all add: holds_only_def)
  ultimately have "sched W u = Ok (?v ?i)"
    unfolding sched_def using holds_myproc [OF assms(1)] assms(2,3) by (simp add: deref_def Let_def)
  moreover have "holds_only {PROC p} p (?v ?i)" using assms(4) by (simp add: holds_only_def machine_ops)
  moreover have "mach u' (?v ?i)" by (simp add: mach_def set_mycpu_def)
  ultimately show ?thesis by blast
qed

lemma holds_sleep:
  assumes "holds_only {lk} p s" "lk \<noteq> PROC p"
    and "\<And>u. holds_only {PROC p} p u \<Longrightarrow> mach (set_proc p (\<lambda>q. q\<lparr>p_chan := Some chan, p_state := SLEEPING\<rparr>) s) u \<Longrightarrow>
      \<exists>u'. others W u = Ok u' \<and> holds_only {PROC p} p u' \<and> Q u'"
  shows "\<exists>u' s'. sleep W chan lk s = Ok s' \<and> holds_only {lk} p s' \<and> Q u' \<and> mach (set_proc p (\<lambda>q. q\<lparr>p_chan := None\<rparr>) u') s'"
proof -
  let ?f = "\<lambda>q. q\<lparr>p_chan := Some chan, p_state := SLEEPING\<rparr>"
  have h1: "holds_only {lk} p (settle s)" using assms(1) by (simp add: holds_settle)
  have a: "acquire (PROC p) (settle s) = Ok (locking (PROC p) (settle s))" "holds_only {PROC p, lk} p (locking (PROC p) (settle s))"
    using holds_acquire [OF h1, of "PROC p"] assms(2) by auto
  obtain t where t: "release lk (locking (PROC p) (settle s)) = Ok t" "holds_only ({PROC p, lk} - {lk}) p t" "mach (locking (PROC p) (settle s)) t"
    using holds_release [OF a(2), of lk] by auto
  have ht: "holds_only {PROC p} p t" using t(2) assms(2) by (simp add: insert_Diff_if)
  have m: "mach s t" using mach_trans [OF mach_trans [OF mach_settle mach_locking] t(3)] .
  let ?u = "set_proc p ?f t"
  have hu: "holds_only {PROC p} p (settle ?u)" using ht by (simp add: holds_settle)
  have "mach (set_proc p ?f s) (settle ?u)" using mach_trans [OF mach_set_proc [OF m] mach_settle] .
  from assms(3) [OF hu this] obtain u' where u': "others W (settle ?u) = Ok u'" "holds_only {PROC p} p u'" "Q u'" by blast
  have "\<exists>v. sched W ?u = Ok v \<and> holds_only {PROC p} p v \<and> mach u' v"
    by (rule holds_sched [OF _ _ u'(1,2)]) (use ht in simp_all)
  then obtain v where v: "sched W ?u = Ok v" "holds_only {PROC p} p v" "mach u' v" by blast
  let ?w = "set_proc p (\<lambda>q. q\<lparr>p_chan := None\<rparr>) v"
  obtain x where x: "release (PROC p) ?w = Ok x" "holds_only {} p x" "mach ?w x"
    using holds_release [of "{PROC p}" p ?w "PROC p"] v(2) by auto
  have l: "acquire lk x = Ok (locking lk x)" "holds_only {lk} p (locking lk x)" using holds_acquire [OF x(2), of lk] by auto
  have "sleep W chan lk s = Ok (locking lk x)"
    unfolding sleep_def using holds_myproc [OF assms(1)] a(1) t(1) v(1) x(1) l(1) by (simp add: deref_def Let_def)
  moreover have "mach (set_proc p (\<lambda>q. q\<lparr>p_chan := None\<rparr>) u') (locking lk x)"
    using mach_trans [OF mach_trans [OF mach_set_proc [OF v(3)] x(3)] mach_locking] .
  ultimately show ?thesis using l(2) u'(3) by blast
qed

end
