(* ===== verification/Diskio.thy ===== *)
theory Diskio
  imports Wal Lockset
begin

text \<open>
  What the disk driver promises its clients, given what the device promises the driver.
\<close>

section \<open>The device\<close>

definition apply_writes :: "(uint64 \<times> uint8 list) list \<Rightarrow> (uint64 \<Rightarrow> uint8 list) \<Rightarrow> uint64 \<Rightarrow> uint8 list" where
  "apply_writes ws m = fold (\<lambda>(k, d) m. m(k := d)) ws m"

lemma apply_writes_simps [simp]:
  "apply_writes [] m = m" "apply_writes (ws @ vs) m = apply_writes vs (apply_writes ws m)"
  "apply_writes ((k, d) # ws) m = apply_writes ws (m(k := d))"
  by (simp_all add: apply_writes_def)

definition platter :: "'z logged_scheme \<Rightarrow> uint64 \<Rightarrow> uint8 list" where
  "platter s = apply_writes (writes s) (medium s)"

definition sector :: "uint32 \<Rightarrow> uint64" where
  "sector bno = ucast (bno * 2)"

text \<open>
  The newest entry of the available ring is a chain of three descriptors: a request header, the data
  of buffer \<open>b\<close>, and a status byte.
\<close>

definition requested :: "'z logged_scheme \<Rightarrow> nat \<Rightarrow> bool \<Rightarrow> bool" where
  "requested s b write \<longleftrightarrow> (\<exists>i0 i1 i2. i0 < NUM \<and> i1 < NUM \<and> i2 < NUM \<and> distinct [i0, i1, i2]
     \<and> dk_avail_ring (disk s) (unat (dk_avail_idx (disk s) - 1) mod NUM) = of_nat i0
     \<and> dk_desc (disk s) i0 = \<lparr>d_addr = DmaReq i0, d_len = 16, d_flags = VRING_DESC_F_NEXT, d_next = of_nat i1\<rparr>
     \<and> dk_desc (disk s) i1 = \<lparr>d_addr = DmaBuf b, d_len = of_nat BSIZE,
          d_flags = (if write then 0 else VRING_DESC_F_WRITE) OR VRING_DESC_F_NEXT, d_next = of_nat i2\<rparr>
     \<and> dk_desc (disk s) i2 = \<lparr>d_addr = DmaStatus i0, d_len = 1, d_flags = VRING_DESC_F_WRITE, d_next = 0\<rparr>
     \<and> dk_ops (disk s) i0 = \<lparr>rq_type = (if write then VIRTIO_BLK_T_OUT else VIRTIO_BLK_T_IN), rq_reserved = 0,
          rq_sector = sector (b_blockno (bufs s b))\<rparr>
     \<and> i_b (dk_info (disk s) i0) = Some b)"

definition completed :: "nat \<Rightarrow> bool \<Rightarrow> 'z logged_scheme \<Rightarrow> 'z logged_scheme \<Rightarrow> bool" where
  "completed b write s s' \<longleftrightarrow>
     bufs s' = (bufs s)(b := (bufs s b)\<lparr>b_disk := 0,
       b_data := (if write then b_data (bufs s b) else platter s (sector (b_blockno (bufs s b))))\<rparr>)
   \<and> writes s' = writes s @ (if write then [(sector (b_blockno (bufs s b)), b_data (bufs s b))] else [])
   \<and> medium s' = medium s \<and> log s' = log s \<and> logged.more s' = logged.more s \<and> slocks s' = slocks s
   \<and> dk_free (disk s') = dk_free (disk s) \<and> dk_desc (disk s') = dk_desc (disk s)
   \<and> (\<forall>q. p_pid (procs s' q) = p_pid (procs s q))"

text \<open>
  While a process waits for a buffer it has handed to the device, the device transfers the data, its
  interrupt clears the flag of the buffer, and the process is resumed on its hart; nothing else
  uses the disk, the cache, the log or what is above them meanwhile.
\<close>

definition serves :: "'z logged_scheme world \<Rightarrow> bool" where
  "serves W \<longleftrightarrow> rounds W \<noteq> 0 \<and> (\<forall>p s b write. holds_only {PROC p} p s \<longrightarrow> p_state (procs s p) = SLEEPING \<longrightarrow>
     p_chan (procs s p) = Some (ChBuf b) \<longrightarrow> b_disk (bufs s b) = 1 \<longrightarrow> requested s b write \<longrightarrow>
     (\<exists>s'. others W s = Ok s' \<and> holds_only {PROC p} p s' \<and> completed b write s s'))"

section \<open>Descriptors\<close>

text \<open>What the driver leaves alone.\<close>

definition keeps :: "'z logged_scheme \<Rightarrow> 'z logged_scheme \<Rightarrow> bool" where
  "keeps s s' \<longleftrightarrow> logged.more s' = logged.more s \<and> bufs s' = bufs s \<and> writes s' = writes s \<and> medium s' = medium s \<and> log s' = log s \<and> slocks s' = slocks s
     \<and> (\<forall>q. p_pid (procs s' q) = p_pid (procs s q))"

lemma keeps_refl [simp]: "keeps s s"
  by (simp add: keeps_def)

lemma keeps_trans: "keeps s s' \<Longrightarrow> keeps s' s'' \<Longrightarrow> keeps s s''"
  by (simp add: keeps_def)

lemma mach_keeps: "mach s s' \<Longrightarrow> keeps s s'" "mach s s' \<Longrightarrow> disk s' = disk s"
proof -
  assume "mach s s'"
  then obtain c i l where "s' = s\<lparr>cpus := c, sie := i, locks := l\<rparr>" using mach_upd by blast
  then show "keeps s s'" "disk s' = disk s" by (simp_all add: keeps_def)
qed

lemma keeps_set_disk [simp]: "keeps s (set_disk f s)" "holds_only L p (set_disk f s) = holds_only L p s" "disk (set_disk f s) = f (disk s)"
  by (simp_all add: keeps_def set_disk_def holds_only_def machine_ops)

lemma woken_pid [simp]: "p_pid (woken chan q) = p_pid q"
  by (simp add: woken_def)

lemma wake_table_keeps [simp]: "keeps s (wake_table chan me n s)" "disk (wake_table chan me n s) = disk s"
  by (simp_all add: keeps_def wake_table_def)

lemma free_desc_spec:
  assumes "holds_only {VDISK} p s" "i < NUM" "\<not> dk_free (disk s) i"
  shows "\<exists>s'. free_desc i s = Ok s' \<and> holds_only {VDISK} p s' \<and> keeps s s'
    \<and> dk_free (disk s') = (dk_free (disk s))(i := True) \<and> dk_desc (disk s') = (dk_desc (disk s))(i := zero_desc)"
proof -
  let ?t = "set_disk (\<lambda>k. k\<lparr>dk_free := (dk_free k)(i := True)\<rparr>) (set_desc i zero_desc s)"
  let ?w = "wake_table (Some ChDisk) (Some p) NPROC ?t"
  have h: "holds_only {VDISK} p ?t" using assms(1) by (simp add: set_desc_def)
  have "free_desc i s = Ok (settle ?w)"
    using assms(2,3) holds_wakeup [OF h] by (simp add: free_desc_def Let_def not_le)
  moreover have "keeps s ?t" by (simp add: keeps_def set_desc_def set_disk_def)
  then have "keeps s (settle ?w)" using keeps_trans [OF keeps_trans [OF _ wake_table_keeps(1)] mach_keeps(1) [OF mach_settle]] by blast
  moreover have "disk (settle ?w) = disk ?t" using mach_keeps(2) [OF mach_settle [of ?w]] by simp
  ultimately show ?thesis using h by (simp add: holds_settle set_desc_def)
qed

lemma alloc3_first:
  assumes "\<And>i. i < NUM \<Longrightarrow> dk_free (disk s) i"
  shows "alloc3_desc s = Ok (Some (0, 1, 2), set_disk (\<lambda>k. k\<lparr>dk_free := (dk_free k)(0 := False, 1 := False, 2 := False)\<rparr>) s)"
proof -
  have "dk_free (disk s) 0" "dk_free (disk s) 1" "dk_free (disk s) 2" using assms by auto
  then show ?thesis by (simp add: alloc3_desc_def alloc_desc_def eval_nat_numeral set_disk_def)
qed

text \<open>The state of the rings after the driver has handed over a request.\<close>

definition chain3 :: "nat \<Rightarrow> bool \<Rightarrow> disk \<Rightarrow> bool" where
  "chain3 b write k \<longleftrightarrow> dk_desc k 0 = \<lparr>d_addr = DmaReq 0, d_len = 16, d_flags = VRING_DESC_F_NEXT, d_next = 1\<rparr>
     \<and> dk_desc k 1 = \<lparr>d_addr = DmaBuf b, d_len = of_nat BSIZE,
          d_flags = (if write then 0 else VRING_DESC_F_WRITE) OR VRING_DESC_F_NEXT, d_next = 2\<rparr>
     \<and> dk_desc k 2 = \<lparr>d_addr = DmaStatus 0, d_len = 1, d_flags = VRING_DESC_F_WRITE, d_next = 0\<rparr>"

lemma free_chain3:
  assumes "holds_only {VDISK} p s" "chain3 b write (disk s)" "\<And>i. i < 3 \<Longrightarrow> \<not> dk_free (disk s) i"
    "\<And>i. 3 \<le> i \<Longrightarrow> i < NUM \<Longrightarrow> dk_free (disk s) i"
  shows "\<exists>s'. free_chain_disk 0 s = Ok s' \<and> holds_only {VDISK} p s' \<and> keeps s s' \<and> (\<forall>i<NUM. dk_free (disk s') i)"
proof -
  obtain s1 where s1: "free_desc 0 s = Ok s1" "holds_only {VDISK} p s1" "keeps s s1"
    "dk_free (disk s1) = (dk_free (disk s))(0 := True)" "dk_desc (disk s1) = (dk_desc (disk s))(0 := zero_desc)"
    using free_desc_spec [OF assms(1), of 0] assms(3) by auto
  obtain s2 where s2: "free_desc 1 s1 = Ok s2" "holds_only {VDISK} p s2" "keeps s1 s2"
    "dk_free (disk s2) = (dk_free (disk s1))(1 := True)" "dk_desc (disk s2) = (dk_desc (disk s1))(1 := zero_desc)"
    using free_desc_spec [OF s1(2), of 1] assms(3) s1(4) by auto
  obtain s3 where s3: "free_desc 2 s2 = Ok s3" "holds_only {VDISK} p s3" "keeps s2 s3"
    "dk_free (disk s3) = (dk_free (disk s2))(2 := True)"
    using free_desc_spec [OF s2(2), of 2] assms(3) s1(4) s2(4) by auto
  have fl: "d_flags (dk_desc (disk s) 0) AND VRING_DESC_F_NEXT \<noteq> 0" "d_flags (dk_desc (disk s) 1) AND VRING_DESC_F_NEXT \<noteq> 0"
    "d_flags (dk_desc (disk s) 2) AND VRING_DESC_F_NEXT = 0" "d_next (dk_desc (disk s) 0) = 1" "d_next (dk_desc (disk s) 1) = 2"
    using assms(2) by (simp_all add: chain3_def VRING_DESC_F_NEXT_def VRING_DESC_F_WRITE_def)
  have loop: "free_chain_loop (Suc (Suc (Suc n))) 0 s = Ok s3" for n
    using s1(1) s2(1) s3(1) fl by (simp add: s1(5) s2(5) Let_def)
  have "free_chain_disk 0 s = Ok s3" using loop [of 6] by (simp add: free_chain_disk_def eval_nat_numeral)
  moreover have "\<forall>i<NUM. dk_free (disk s3) i"
  proof (intro allI impI)
    fix i assume "i < NUM"
    then show "dk_free (disk s3) i" using assms(4) [of i] s3(4) s2(4) s1(4) by (cases "3 \<le> i") auto
  qed
  moreover have "keeps s s3" using s1(3) s2(3) s3(3) by (blast intro: keeps_trans)
  ultimately show ?thesis using s3(2) by blast
qed

section \<open>A request\<close>

definition submitted :: "nat \<Rightarrow> bool \<Rightarrow> 'z logged_scheme \<Rightarrow> 'z logged_scheme \<Rightarrow> bool" where
  "submitted b write s t \<longleftrightarrow> bufs t = (bufs s)(b := (bufs s b)\<lparr>b_disk := 1\<rparr>) \<and> writes t = writes s \<and> medium t = medium s
     \<and> log t = log s \<and> logged.more t = logged.more s \<and> slocks t = slocks s \<and> procs t = procs s \<and> dk_free (disk t) = dk_free (disk s)
     \<and> chain3 b write (disk t) \<and> requested t b write"

lemma virtio_submit_spec:
  "submitted b write s (virtio_submit b write (0, 1, 2) s)"
  "holds_only L p (virtio_submit b write (0, 1, 2) s) = holds_only L p s"
proof -
  let ?t = "virtio_submit b write (0, 1, 2) s"
  note defs = virtio_submit_def set_disk_def set_desc_def set_buf_def reg_write_def Let_def
  have "requested ?t b write" unfolding requested_def
    by (rule exI [of _ 0], rule exI [of _ 1], rule exI [of _ 2]) (simp add: defs sector_def)
  then show "submitted b write s ?t" by (simp add: submitted_def chain3_def) (simp add: defs)
  show "holds_only L p ?t = holds_only L p s" by (simp add: defs holds_only_def machine_ops)
qed

text \<open>A state in which the running process holds no lock and all descriptors are free.\<close>

definition quiet :: "nat \<Rightarrow> 'z logged_scheme \<Rightarrow> bool" where
  "quiet p s \<longleftrightarrow> holds_only {} p s \<and> (\<forall>i<NUM. dk_free (disk s) i)"

lemma requested_cong: "disk t = disk s \<Longrightarrow> bufs t = bufs s \<Longrightarrow> requested t b write = requested s b write"
  by (simp add: requested_def)

lemma wait_for_disk:
  assumes "serves W" "holds_only {VDISK} p t" "requested t b write" "b_disk (bufs t b) = 1"
  shows "\<exists>t'. sleep_while (rounds W) W (\<lambda>s. b_disk (bufs s b) = 1) (ChBuf b) VDISK t = Ok t' \<and> holds_only {VDISK} p t'
    \<and> completed b write t t'"
proof -
  let ?f = "\<lambda>q. q\<lparr>p_chan := Some (ChBuf b), p_state := SLEEPING\<rparr>"
  have step: "\<exists>u'. others W u = Ok u' \<and> holds_only {PROC p} p u' \<and> completed b write t u'"
    if h: "holds_only {PROC p} p u" and m: "mach (set_proc p ?f t) u" for u
  proof -
    note k = mach_keeps [OF m] mach_procs [OF m]
    have e: "bufs u = bufs t" "disk u = disk t" "writes u = writes t" "medium u = medium t" "log u = log t" "slocks u = slocks t"
      "logged.more u = logged.more t"
      using k(1,2) by (simp_all add: keeps_def set_proc_def)
    have q: "p_state (procs u p) = SLEEPING" "p_chan (procs u p) = Some (ChBuf b)" "p_pid (procs u q) = p_pid (procs t q)" for q
      using k(3) by (simp_all add: set_proc_def)
    have r: "requested u b write" "b_disk (bufs u b) = 1" using assms(3,4) requested_cong [OF e(2,1)] e(1) by simp_all
    obtain u' where u': "others W u = Ok u'" "holds_only {PROC p} p u'" "completed b write u u'"
      using assms(1) h q(1,2) r unfolding serves_def by blast
    have "platter u = platter t" by (simp add: platter_def e)
    then have "completed b write t u'" using u'(3) q(3) by (simp add: completed_def e)
    with u' show ?thesis by blast
  qed
  have "\<exists>u' s'. sleep W (ChBuf b) VDISK t = Ok s' \<and> holds_only {VDISK} p s' \<and> completed b write t u'
      \<and> mach (set_proc p (\<lambda>q. q\<lparr>p_chan := None\<rparr>) u') s'"
    by (rule holds_sleep [OF assms(2)]) (use step in auto)
  then obtain u' t' where t': "sleep W (ChBuf b) VDISK t = Ok t'" "holds_only {VDISK} p t'" "completed b write t u'"
    "mach (set_proc p (\<lambda>q. q\<lparr>p_chan := None\<rparr>) u') t'"
    by blast
  note k = mach_keeps [OF t'(4)] mach_procs [OF t'(4)]
  have e: "bufs t' = bufs u'" "disk t' = disk u'" "writes t' = writes u'" "medium t' = medium u'" "log t' = log u'" "slocks t' = slocks u'"
    "logged.more t' = logged.more u'"
    "p_pid (procs t' q) = p_pid (procs u' q)" for q
    using k(1,2) by (simp_all add: keeps_def set_proc_def)
  have c: "completed b write t t'" using t'(3) by (simp add: completed_def e)
  then have "b_disk (bufs t' b) = 0" by (simp add: completed_def)
  moreover obtain n where "rounds W = Suc n" using assms(1) by (cases "rounds W") (auto simp: serves_def)
  ultimately have "sleep_while (rounds W) W (\<lambda>s. b_disk (bufs s b) = 1) (ChBuf b) VDISK t = Ok t'"
    using t'(1) assms(4) sleep_while_False [of "\<lambda>s. b_disk (bufs s b) = 1" t' n] by simp
  with c t'(2) show ?thesis by blast
qed

lemma virtio_rw_spec:
  assumes "serves W" "quiet p s"
  shows "\<exists>s'. virtio_disk_rw W b write s = Ok s' \<and> quiet p s' \<and>
     bufs s' = (bufs s)(b := (bufs s b)\<lparr>b_disk := 0,
       b_data := (if write then b_data (bufs s b) else platter s (sector (b_blockno (bufs s b))))\<rparr>)
   \<and> writes s' = writes s @ (if write then [(sector (b_blockno (bufs s b)), b_data (bufs s b))] else [])
   \<and> medium s' = medium s \<and> log s' = log s \<and> logged.more s' = logged.more s \<and> slocks s' = slocks s \<and> (\<forall>q. p_pid (procs s' q) = p_pid (procs s q))"
proof -
  let ?l = "locking VDISK s"
  define a where "a = set_disk (\<lambda>k. k\<lparr>dk_free := (dk_free k)(0 := False, 1 := False, 2 := False)\<rparr>) ?l"
  define t where "t = virtio_submit b write (0, 1, 2) a"
  have l: "acquire VDISK s = Ok ?l" "holds_only {VDISK} p ?l"
    using holds_acquire [of "{}" p s VDISK] assms(2) by (simp_all add: quiet_def)
  note lk = mach_keeps [OF mach_locking [of s VDISK]]
  have "alloc3_desc ?l = Ok (Some (0, 1, 2), a)" unfolding a_def by (rule alloc3_first) (use assms(2) lk in \<open>simp add: quiet_def\<close>)
  then have w: "alloc3_wait (Suc (rounds W)) W ?l = Ok ((0, 1, 2), a)" by simp
  have t1: "submitted b write a t" "holds_only {VDISK} p t" using virtio_submit_spec(1) [of b "write" a] virtio_submit_spec(2) [of "{VDISK}" p b "write" a] l(2) unfolding t_def by (simp_all add: a_def)
  have a: "bufs a = bufs s" "writes a = writes s" "medium a = medium s" "log a = log s" "slocks a = slocks s" "procs a = procs s" "logged.more a = logged.more s"
    "dk_free (disk a) = (dk_free (disk s))(0 := False, 1 := False, 2 := False)"
    using lk by (simp_all add: keeps_def set_disk_def a_def)
  obtain t' where t': "sleep_while (rounds W) W (\<lambda>s. b_disk (bufs s b) = 1) (ChBuf b) VDISK t = Ok t'" "holds_only {VDISK} p t'"
    "completed b write t t'"
    using wait_for_disk [OF assms(1) t1(2), of b "write"] t1(1) by (auto simp: submitted_def)
  let ?i = "set_disk (\<lambda>k. k\<lparr>dk_info := (dk_info k)(0 := (dk_info k 0)\<lparr>i_b := None\<rparr>)\<rparr>) t'"
  have i: "holds_only {VDISK} p ?i" "keeps t' ?i" using t'(2) by simp_all
  have "\<exists>v. free_chain_disk 0 ?i = Ok v \<and> holds_only {VDISK} p v \<and> keeps ?i v \<and> (\<forall>i<NUM. dk_free (disk v) i)"
    using t1(1) t'(3) assms(2) a by (intro free_chain3 [OF i(1)]) (auto simp: submitted_def completed_def chain3_def quiet_def)
  then obtain v where v: "free_chain_disk 0 ?i = Ok v" "holds_only {VDISK} p v" "keeps ?i v" "\<forall>i<NUM. dk_free (disk v) i" by blast
  obtain s' where s': "release VDISK v = Ok s'" "holds_only {} p s'" "mach v s'" using holds_release [OF v(2), of VDISK] by auto
  note m = mach_keeps [OF s'(3)]
  have k: "keeps t' s'" using i(2) v(3) m(1) by (blast intro: keeps_trans)
  have "virtio_disk_rw W b write s = Ok s'"
    by (simp only: virtio_disk_rw_def l(1) bnd.simps w prod.case Let_def t_def [symmetric] t'(1) v(1) s'(1))
  moreover have "quiet p s'" using s'(2) v(4) m(2) by (simp add: quiet_def)
  moreover have "platter t = platter s" using t1(1) a by (simp add: platter_def submitted_def)
  ultimately show ?thesis
    using k t1(1) t'(3) by (auto simp: keeps_def completed_def submitted_def a)
qed

end
