(* ===== verification/Crash.thy ===== *)
theory Crash
  imports Diskio
begin

text \<open>
  Crash safety of the log: rules for the operations of the buffer cache over a disk that may stop
  after any write, the writes of a commit, and what recovery makes of each prefix of them.
\<close>

section \<open>The cache over the disk\<close>

lemma sector_inj:
  assumes "a < 2 ^ 31" "b < 2 ^ 31"
  shows "sector a = sector b \<longleftrightarrow> a = b"
proof
  have small: "unat (c * 2) = 2 * unat c" if "c < 2 ^ 31" for c :: uint32
    using that by (simp add: unat_word_ariths word_less_nat_alt)
  assume "sector a = sector b"
  then have "unat (ucast (a * 2) :: uint64) = unat (ucast (b * 2) :: uint64)" by (simp add: sector_def)
  then have "unat (a * 2) = unat (b * 2)" by (simp add: unsigned_ucast_eq take_bit_nat_eq_self unsigned_less [THEN order_less_le_trans])
  then show "a = b" using small assms by (simp add: word_unat_eq_iff)
qed simp

text \<open>
  Process \<open>p\<close> holds the buffers \<open>H\<close>. The blocks \<open>D\<close> of device \<open>d\<close> are pinned in the cache with new contents
  \<open>new\<close>; every other valid buffer that is not held agrees with the disk.
\<close>

definition cache_refs :: "uint32 \<Rightarrow> uint32 set \<Rightarrow> nat set \<Rightarrow> (nat \<Rightarrow> buf) \<Rightarrow> bool" where
  "cache_refs d D H bs \<longleftrightarrow> (\<forall>b<NBUF. b_refcnt (bs b) = of_bool (b_dev (bs b) = d \<and> b_blockno (bs b) \<in> D) + of_bool (b \<in> H)
     \<and> (b_dev (bs b) = d \<longrightarrow> b_blockno (bs b) < 2 ^ 31))"

definition cache_data :: "uint32 \<Rightarrow> (uint32 \<Rightarrow> uint8 list) \<Rightarrow> uint32 set \<Rightarrow> nat set \<Rightarrow> (uint64 \<Rightarrow> uint8 list) \<Rightarrow> (nat \<Rightarrow> buf) \<Rightarrow> bool" where
  "cache_data d new D H m bs \<longleftrightarrow> (\<forall>b<NBUF. b_dev (bs b) = d \<longrightarrow>
     (if b_blockno (bs b) \<in> D then b_valid (bs b) \<noteq> 0 \<and> b_data (bs b) = new (b_blockno (bs b))
      else b \<notin> H \<longrightarrow> b_valid (bs b) \<noteq> 0 \<longrightarrow> b_data (bs b) = m (sector (b_blockno (bs b)))))
     \<and> (\<forall>h\<in>D. \<exists>b<NBUF. is_block d h (bs b)) \<and> finite D
     \<and> (\<forall>b\<in>H. b < NBUF \<and> b_dev (bs b) = d \<and> b_valid (bs b) \<noteq> 0) \<and> (\<forall>k. length (m k) = BSIZE)"

definition cache_locks :: "nat set \<Rightarrow> nat \<Rightarrow> 'z logged_scheme \<Rightarrow> bool" where
  "cache_locks H p s \<longleftrightarrow> (\<forall>b<NBUF. if b \<in> H then slocks s (SLEEP_BUF b) = \<lparr>sl_locked = 1, sl_pid = p_pid (procs s p)\<rparr>
     else sl_locked (slocks s (SLEEP_BUF b)) = 0)"

definition pinned :: "uint32 \<Rightarrow> (uint32 \<Rightarrow> uint8 list) \<Rightarrow> uint32 set \<Rightarrow> nat set \<Rightarrow> nat \<Rightarrow> 'z logged_scheme \<Rightarrow> bool" where
  "pinned d new D H p s \<longleftrightarrow> d \<noteq> 0 \<and> quiet p s \<and> (\<exists>xs. bcache_inv s xs) \<and> cache_refs d D H (bufs s)
     \<and> cache_data d new D H (platter s) (bufs s) \<and> cache_locks H p s"

lemma calD:
  assumes "pinned d new D H p s"
  shows "d \<noteq> 0" "quiet p s" "\<exists>xs. bcache_inv s xs" "cache_refs d D H (bufs s)" "cache_data d new D H (platter s) (bufs s)"
    "cache_locks H p s"
  using assms by (simp_all add: pinned_def)

lemma quiet_facts:
  assumes "quiet p s"
  shows "cpu_ok s" "lock_free lk s" "cpu_proc (mycpu s) = Some p" "can_wake s"
  using assms holds_cpu_ok [of "{}" p s] holds_lock_free [of "{}" p s]
  by (auto simp: quiet_def can_wake_def) (simp add: holds_only_def)

text \<open>Less than all buffers in use leaves one unused.\<close>

lemma unused_exists:
  assumes "pinned d new D H p s" "card D + card H < NBUF" "bcache_inv s xs"
  shows "\<exists>b. find_unused (bufs s) xs = Some b"
proof (rule ccontr)
  assume "\<not> ?thesis"
  then have none: "find_unused (bufs s) xs = None" by auto
  let ?B = "{b. b < NBUF \<and> b_dev (bufs s b) = d \<and> b_blockno (bufs s b) \<in> D}"
  note c = calD [OF assms(1)]
  have fin: "finite D" "finite H" using c(5) by (auto simp: cache_data_def intro: finite_subset [of H "{..<NBUF}"])
  have "b_refcnt (bufs s b) \<noteq> 0" if "b < NBUF" for b
    using none that assms(3) by (auto simp: find_unused_def find_None_iff bcache_inv_def)
  then have "{..<NBUF} \<subseteq> ?B \<union> H" using c(4) by (fastforce simp: cache_refs_def split: if_splits)
  then have "NBUF \<le> card (?B \<union> H)" using card_mono [of "?B \<union> H" "{..<NBUF}"] fin by simp
  also have "\<dots> \<le> card ?B + card H" by (rule card_Un_le)
  also have "card ?B \<le> card D"
  proof (rule card_inj_on_le)
    show "inj_on (\<lambda>b. b_blockno (bufs s b)) ?B"
      using assms(3) c(1) unfolding inj_on_def bcache_inv_def is_block_def by auto
  qed (use fin in auto)
  finally show False using assms(2) by simp
qed

section \<open>Reading a block\<close>

text \<open>What \<open>bget\<close> takes: the cached buffer, or an unused one that it gives to the block.\<close>

lemma bget_cal:
  assumes "pinned d new D H p s" "\<And>b. b \<in> H \<Longrightarrow> b_blockno (bufs s b) \<noteq> blk" "blk \<in> D \<or> card D + card H < NBUF"
  shows "\<exists>b f xs. bget W d blk s = Ok (b, bheld b f p s) \<and> b < NBUF \<and> b \<notin> H \<and> bcache_inv (bheld b f p s) xs
    \<and> is_block d blk (f (bufs s b)) \<and> b_refcnt (f (bufs s b)) = of_bool (blk \<in> D) + 1
    \<and> (b_dev (bufs s b) = d \<and> b_blockno (bufs s b) \<in> D \<longrightarrow> b_blockno (bufs s b) = blk)
    \<and> (b_valid (f (bufs s b)) \<noteq> 0 \<longrightarrow> b_data (f (bufs s b)) = (if blk \<in> D then new blk else platter s (sector blk)))
    \<and> (blk \<in> D \<longrightarrow> b_valid (f (bufs s b)) \<noteq> 0)"
proof -
  note c = calD [OF assms(1)]
  obtain xs where xs: "bcache_inv s xs" using c(3) by blast
  note q = quiet_facts [OF c(2)]
  have "\<exists>b f. bget_buf d blk s xs = Some (b, f)"
    using assms(3) unused_exists [OF assms(1) _ xs] c(5) xs
    by (auto simp: bget_buf_def find_cached_def find_None_iff cache_data_def bcache_inv_def split: option.split)
  then obtain b f where bf: "bget_buf d blk s xs = Some (b, f)" by blast
  note g = bget_inv [OF xs bf c(1)]
  have cases: "(is_block d blk (bufs s b) \<and> f = (\<lambda>u. u\<lparr>b_refcnt := b_refcnt u + 1\<rparr>))
    \<or> (b_refcnt (bufs s b) = 0 \<and> f = (\<lambda>u. u\<lparr>b_dev := d, b_blockno := blk, b_valid := 0, b_refcnt := 1\<rparr>)
       \<and> (\<forall>c<NBUF. \<not> is_block d blk (bufs s c)))"
    using bf find_cached_range [OF xs] find_unused_range [OF xs] xs
    by (auto simp: bget_buf_def find_cached_def find_None_iff bcache_inv_def split: option.splits)
  have notH: "b \<notin> H"
  proof
    assume "b \<in> H"
    then have "b_dev (bufs s b) = d" "b_refcnt (bufs s b) \<noteq> 0"
      using c(4,5) g(2) by (auto simp: cache_data_def cache_refs_def)
    then show False using cases assms(2) [OF \<open>b \<in> H\<close>] by (auto simp: is_block_def)
  qed
  have eq: "bget W d blk s = (case bget_buf d blk s xs of
      Some (b, f) \<Rightarrow> Ok (b, bheld b f p s) | None \<Rightarrow> Panic ''bget: no buffers'')"
    by (rule bget_eq [OF xs q(1) q(2) q(3)]) (use bf notH g(2) q(2) c(6) in \<open>auto simp: cache_locks_def\<close>)
  have r: "b_refcnt (bufs s b) = of_bool (b_dev (bufs s b) = d \<and> b_blockno (bufs s b) \<in> D)"
    using c(4) g(2) notH by (simp add: cache_refs_def)
  have nD: "blk \<notin> D" if "\<forall>c<NBUF. \<not> is_block d blk (bufs s c)" using that c(5) by (auto simp: cache_data_def)
  show ?thesis
  proof (intro exI conjI)
    show "bget W d blk s = Ok (b, bheld b f p s)" using eq bf by simp
    show "bcache_inv (bheld b f p s) xs" by (rule g(1))
    show "b_dev (bufs s b) = d \<and> b_blockno (bufs s b) \<in> D \<longrightarrow> b_blockno (bufs s b) = blk"
      using cases r by (auto simp: is_block_def)
    show "b_refcnt (f (bufs s b)) = of_bool (blk \<in> D) + 1" using cases r nD by (auto simp: is_block_def)
    show "b_valid (f (bufs s b)) \<noteq> 0 \<longrightarrow> b_data (f (bufs s b)) = (if blk \<in> D then new blk else platter s (sector blk))"
      using cases c(5) g(2) notH by (auto simp: is_block_def cache_data_def split: if_splits)
    show "blk \<in> D \<longrightarrow> b_valid (f (bufs s b)) \<noteq> 0"
      using cases nD c(5) g(2) by (auto simp: is_block_def cache_data_def split: if_splits)
  qed (use g notH cases in \<open>auto simp: is_block_def\<close>)
qed

lemma bheld_fields:
  "bufs (bheld b f p s) = (bufs s)(b := f (bufs s b))"
  "slocks (bheld b f p s) = (slocks s)(SLEEP_BUF b := \<lparr>sl_locked = 1, sl_pid = p_pid (procs s p)\<rparr>)"
  "procs (bheld b f p s) = procs s" "writes (bheld b f p s) = writes s" "medium (bheld b f p s) = medium s" "log (bheld b f p s) = log s"
  "logged.more (bheld b f p s) = logged.more s"
  "platter (bheld b f p s) = platter s" "quiet q (bheld b f p s) = quiet q s"
  by (simp_all add: bheld_def platter_def quiet_def holds_settle)
    (simp_all add: settle_def set_slock_def set_buf_def holds_only_def machine_ops)

lemma bcache_inv_data:
  assumes "bcache_inv s xs" "bufs t = (bufs s)(b := g (bufs s b))"
    "\<And>u. b_next (g u) = b_next u \<and> b_prev (g u) = b_prev u \<and> b_dev (g u) = b_dev u \<and> b_blockno (g u) = b_blockno u"
  shows "bcache_inv t xs"
  using bcache_inv_buf [OF assms(1,3), of b] bcache_inv_cong [of t "set_buf b g s"] assms(2) by simp

text \<open>The part of the state that reading and writing blocks leaves alone.\<close>

definition rest_same :: "'z logged_scheme \<Rightarrow> 'z logged_scheme \<Rightarrow> bool" where
  "rest_same s s' \<longleftrightarrow> logged.more s' = logged.more s \<and> medium s' = medium s \<and> log s' = log s \<and> (\<forall>q. p_pid (procs s' q) = p_pid (procs s q))"

lemma rest_same_trans: "rest_same s s' \<Longrightarrow> rest_same s' s'' \<Longrightarrow> rest_same s s''"
  by (simp add: rest_same_def)

lemma platter_eq: "writes s' = writes s \<Longrightarrow> medium s' = medium s \<Longrightarrow> platter s' = platter s"
  by (simp add: platter_def)

lemma bread_state:
  assumes "pinned d new D H p s" "serves W" "\<And>b. b \<in> H \<Longrightarrow> b_blockno (bufs s b) \<noteq> blk" "blk \<in> D \<or> card D + card H < NBUF"
  shows "\<exists>b u s' xs. bread W d blk s = Ok (b, s') \<and> b < NBUF \<and> b \<notin> H \<and> bufs s' = (bufs s)(b := u) \<and> bcache_inv s' xs
    \<and> quiet p s' \<and> is_block d blk u \<and> b_valid u \<noteq> 0 \<and> b_refcnt u = of_bool (blk \<in> D) + 1
    \<and> b_data u = (if blk \<in> D then new blk else platter s (sector blk))
    \<and> (b_dev (bufs s b) = d \<and> b_blockno (bufs s b) \<in> D \<longrightarrow> b_blockno (bufs s b) = blk)
    \<and> slocks s' = (slocks s)(SLEEP_BUF b := \<lparr>sl_locked = 1, sl_pid = p_pid (procs s p)\<rparr>)
    \<and> writes s' = writes s \<and> rest_same s s'"
proof -
  obtain b f xs where b: "bget W d blk s = Ok (b, bheld b f p s)" "b < NBUF" "b \<notin> H" "bcache_inv (bheld b f p s) xs"
    "is_block d blk (f (bufs s b))" "b_refcnt (f (bufs s b)) = of_bool (blk \<in> D) + 1"
    "b_dev (bufs s b) = d \<and> b_blockno (bufs s b) \<in> D \<longrightarrow> b_blockno (bufs s b) = blk"
    "b_valid (f (bufs s b)) \<noteq> 0 \<longrightarrow> b_data (f (bufs s b)) = (if blk \<in> D then new blk else platter s (sector blk))"
    "blk \<in> D \<longrightarrow> b_valid (f (bufs s b)) \<noteq> 0"
    using bget_cal [OF assms(1,3,4), of W] by blast
  let ?h = "bheld b f p s" and ?u = "f (bufs s b)"
  have q: "quiet p ?h" using calD(2) [OF assms(1)] by (simp add: bheld_fields)
  show ?thesis
  proof (cases "b_valid ?u = 0")
    case False
    then have "bread W d blk s = Ok (b, ?h)" using b(1) by (simp add: bread_def bheld_fields)
    then show ?thesis using b q False
      by (intro exI [of _ b] exI [of _ ?u] exI [of _ ?h] exI [of _ xs]) (simp add: bheld_fields rest_same_def)
  next
    case True
    obtain t where t: "virtio_disk_rw W b False ?h = Ok t" "quiet p t"
      "bufs t = (bufs ?h)(b := (bufs ?h b)\<lparr>b_disk := 0, b_data := platter s (sector blk)\<rparr>)"
      "writes t = writes s" "medium t = medium s" "log t = log s" "slocks t = slocks ?h" "logged.more t = logged.more s" "\<forall>q. p_pid (procs t q) = p_pid (procs s q)"
      using virtio_rw_spec [OF assms(2) q, of b False] b(5) by (auto simp: bheld_fields is_block_def)
    let ?s' = "set_buf b (\<lambda>u. u\<lparr>b_valid := 1\<rparr>) t"
    have "bread W d blk s = Ok (b, ?s')" using b(1) t(1) True by (simp add: bread_def bheld_fields)
    moreover have "bcache_inv t xs" by (rule bcache_inv_data [OF b(4), where b = b and g = "\<lambda>u. u\<lparr>b_disk := 0, b_data := platter s (sector blk)\<rparr>"])
        (simp_all add: t(3))
    then have "bcache_inv ?s' xs" by (rule bcache_inv_data [where g = "\<lambda>u. u\<lparr>b_valid := 1\<rparr>"]) simp_all
    moreover have "quiet p ?s'" "writes ?s' = writes s" "medium ?s' = medium s" "log ?s' = log s" "logged.more ?s' = logged.more s"
      using t by (simp_all add: quiet_def holds_only_def set_buf_def machine_ops)
    moreover have "blk \<notin> D" using b(9) True by blast
    ultimately show ?thesis using b t
      by (intro exI [of _ b] exI [of _ "?u\<lparr>b_disk := 0, b_data := platter s (sector blk), b_valid := 1\<rparr>"] exI [of _ ?s'] exI [of _ xs])
        (simp add: bheld_fields rest_same_def is_block_def)
  qed
qed

lemma bread_cal:
  assumes "pinned d new D H p s" "serves W" "\<And>b. b \<in> H \<Longrightarrow> b_blockno (bufs s b) \<noteq> blk" "blk \<in> D \<or> card D + card H < NBUF"
    "blk < 2 ^ 31"
  shows "\<exists>b s'. bread W d blk s = Ok (b, s') \<and> b \<notin> H \<and> pinned d new D (insert b H) p s' \<and> is_block d blk (bufs s' b)
    \<and> b_data (bufs s' b) = (if blk \<in> D then new blk else platter s (sector blk))
    \<and> (\<forall>c\<in>H. bufs s' c = bufs s c) \<and> writes s' = writes s \<and> rest_same s s'"
proof -
  note c = calD [OF assms(1)]
  obtain b u s' xs where b: "bread W d blk s = Ok (b, s')" "b < NBUF" "b \<notin> H" "bufs s' = (bufs s)(b := u)" "bcache_inv s' xs"
    "quiet p s'" "is_block d blk u" "b_valid u \<noteq> 0" "b_refcnt u = of_bool (blk \<in> D) + 1"
    "b_data u = (if blk \<in> D then new blk else platter s (sector blk))"
    "b_dev (bufs s b) = d \<and> b_blockno (bufs s b) \<in> D \<longrightarrow> b_blockno (bufs s b) = blk"
    "slocks s' = (slocks s)(SLEEP_BUF b := \<lparr>sl_locked = 1, sl_pid = p_pid (procs s p)\<rparr>)" "writes s' = writes s" "rest_same s s'"
    using bread_state [OF assms(1-4)] by blast
  have pl: "platter s' = platter s" using b(13,14) by (simp add: platter_def rest_same_def)
  have "cache_refs d D (insert b H) (bufs s')"
    using c(4) b(3,4,7,9) assms(5) by (auto simp: cache_refs_def is_block_def)
  moreover have "cache_data d new D (insert b H) (platter s') (bufs s')"
  proof -
    have "\<exists>a<NBUF. is_block d h (bufs s' a)" if "h \<in> D" for h
    proof (cases "h = blk")
      case True
      then show ?thesis using b(2,4,7) by auto
    next
      case False
      have "\<exists>a<NBUF. is_block d h (bufs s a)" using c(5) that by (simp add: cache_data_def)
      then obtain a where a: "a < NBUF" "is_block d h (bufs s a)" by blast
      then have "a \<noteq> b" using b(11) False that by (auto simp: is_block_def)
      then show ?thesis using a b(4) by auto
    qed
    then show ?thesis using c(5) b(2,4,7,8,10) unfolding pl by (auto simp: cache_data_def is_block_def)
  qed
  moreover have "cache_locks (insert b H) p s'"
    using c(6) b(12,14) by (auto simp: cache_locks_def rest_same_def)
  ultimately have "pinned d new D (insert b H) p s'" using c(1) b(5,6) by (auto simp: pinned_def)
  moreover have "\<forall>c\<in>H. bufs s' c = bufs s c" using b(3,4) by auto
  ultimately show ?thesis using b by auto
qed

section \<open>Writing and releasing a block\<close>

text \<open>A held buffer gets new contents, and its block on the disk may get them too.\<close>

lemma cal_data:
  assumes "pinned d new D H p s" "b \<in> H" "quiet p t" "slocks t = slocks s" "\<And>q. p_pid (procs t q) = p_pid (procs s q)"
    "bufs t = (bufs s)(b := (bufs s b)\<lparr>b_disk := k, b_data := x\<rparr>)" "b_blockno (bufs s b) \<in> D \<longrightarrow> x = new (b_blockno (bufs s b))"
    "platter t = platter s \<or> platter t = (platter s)(sector (b_blockno (bufs s b)) := x) \<and> length x = BSIZE"
  shows "pinned d new D H p t"
proof -
  note c = calD [OF assms(1)]
  obtain xs where xs: "bcache_inv s xs" using c(3) by blast
  have b: "b < NBUF" "b_dev (bufs s b) = d" "b_valid (bufs s b) \<noteq> 0" using c(5) assms(2) by (auto simp: cache_data_def)
  have "bcache_inv t xs"
    by (rule bcache_inv_data [OF xs, where b = b and g = "\<lambda>u. u\<lparr>b_disk := k, b_data := x\<rparr>"]) (simp_all add: assms(6))
  moreover have "cache_refs d D H (bufs t)" using c(4) by (auto simp: cache_refs_def assms(6))
  moreover have "cache_locks H p t" using c(6) by (simp add: cache_locks_def assms(4,5))
  ultimately have 1: "bcache_inv t xs" "cache_refs d D H (bufs t)" "cache_locks H p t" by blast+
  have "platter t (sector (b_blockno (bufs s a))) = platter s (sector (b_blockno (bufs s a)))"
    if "a < NBUF" "b_dev (bufs s a) = d" "a \<noteq> b" for a
  proof -
    have "b_blockno (bufs s a) \<noteq> b_blockno (bufs s b)" using xs b that c(1) by (auto simp: bcache_inv_def is_block_def)
    moreover have "b_blockno (bufs s a) < 2 ^ 31" "b_blockno (bufs s b) < 2 ^ 31" using c(4) that b by (auto simp: cache_refs_def)
    ultimately show ?thesis using assms(8) by (auto simp: sector_inj)
  qed
  moreover have "is_block e h (bufs t a) = is_block e h (bufs s a)" for e h a by (simp add: assms(6) is_block_def)
  ultimately have "cache_data d new D H (platter t) (bufs t)"
    using c(5) assms(2,7,8) b unfolding cache_data_def by (auto simp: assms(6))
  with 1 show ?thesis using c(1) assms(3) by (auto simp: pinned_def)
qed

lemma set_data_cal:
  assumes "pinned d new D H p s" "b \<in> H" "b_blockno (bufs s b) \<in> D \<longrightarrow> f (b_data (bufs s b)) = new (b_blockno (bufs s b))"
  shows "pinned d new D H p (set_data b f s)"
  by (rule cal_data [OF assms(1,2), where k = "b_disk (bufs s b)" and x = "f (b_data (bufs s b))"])
    (use assms(3) calD(2) [OF assms(1)] in \<open>simp_all add: set_data_def quiet_def holds_only_def platter_def set_buf_def machine_ops\<close>)

lemma set_data_fields [simp]:
  "bufs (set_data b f s) = (bufs s)(b := (bufs s b)\<lparr>b_data := f (b_data (bufs s b))\<rparr>)" "writes (set_data b f s) = writes s"
  "log (set_data b f s) = log s" "rest_same s (set_data b f s)" "platter (set_data b f s) = platter s"
  by (simp_all add: set_data_def platter_def rest_same_def) (simp_all add: set_buf_def)

lemma bwrite_cal:
  assumes "pinned d new D H p s" "serves W" "b \<in> H" "b_blockno (bufs s b) \<in> D \<longrightarrow> b_data (bufs s b) = new (b_blockno (bufs s b))"
    "length (b_data (bufs s b)) = BSIZE"
  shows "\<exists>s'. bwrite W b s = Ok s' \<and> pinned d new D H p s' \<and> bufs s' = (bufs s)(b := (bufs s b)\<lparr>b_disk := 0\<rparr>)
    \<and> writes s' = writes s @ [(sector (b_blockno (bufs s b)), b_data (bufs s b))] \<and> rest_same s s'"
proof -
  note c = calD [OF assms(1)]
  note q = quiet_facts [OF c(2)]
  have b: "b < NBUF" using c(5) assms(3) by (auto simp: cache_data_def)
  then have "slocks s (SLEEP_BUF b) = \<lparr>sl_locked = 1, sl_pid = p_pid (procs s p)\<rparr>" using c(6) assms(3) by (auto simp: cache_locks_def)
  then have h: "holdingsleep (SLEEP_BUF b) s = Ok (True, settle s)" using holdingsleep_eq [OF q(1) q(2) q(3)] by simp
  have f: "bufs (settle s) = bufs s" "writes (settle s) = writes s" "medium (settle s) = medium s" "log (settle s) = log s" "logged.more (settle s) = logged.more s"
    "slocks (settle s) = slocks s" "procs (settle s) = procs s" "disk (settle s) = disk s"
    using mach_keeps [OF mach_settle [of s]] mach_procs [OF mach_settle [of s]] by (simp_all add: keeps_def)
  then have "quiet p (settle s)" using c(2) by (simp add: quiet_def holds_settle)
  from virtio_rw_spec [OF assms(2) this, of b True] obtain t where t: "virtio_disk_rw W b True (settle s) = Ok t" "quiet p t"
    "bufs t = (bufs s)(b := (bufs s b)\<lparr>b_disk := 0, b_data := b_data (bufs s b)\<rparr>)"
    "writes t = writes s @ [(sector (b_blockno (bufs s b)), b_data (bufs s b))]"
    "medium t = medium s" "log t = log s" "slocks t = slocks s" "\<And>q. p_pid (procs t q) = p_pid (procs s q)" "logged.more t = logged.more s"
    using f by auto
  have "pinned d new D H p t"
    by (rule cal_data [OF assms(1,3) t(2,7,8,3)]) (use assms(4,5) t(4,5) in \<open>simp_all add: platter_def\<close>)
  moreover have "bwrite W b s = Ok t" using h t(1) by (simp add: bwrite_def)
  ultimately show ?thesis using t by (auto simp: rest_same_def)
qed

lemma unref_fields:
  "payload (bufs (unref b s) c) = payload (((bufs s)(b := (bufs s b)\<lparr>b_refcnt := b_refcnt (bufs s b) - 1\<rparr>)) c)"
  by (simp add: unref_def Let_def payload_move)

lemma payload_eqs:
  assumes "\<And>c. payload (f c) = payload (g c)"
  shows "b_dev (f c) = b_dev (g c)" "b_blockno (f c) = b_blockno (g c)" "b_refcnt (f c) = b_refcnt (g c)"
    "b_valid (f c) = b_valid (g c)" "b_data (f c) = b_data (g c)"
  using assms [of c] by (simp_all add: payload_def)

lemma brelse_cal:
  assumes "pinned d new D H p s" "b \<in> H" "b_blockno (bufs s b) \<in> D \<or> b_data (bufs s b) = platter s (sector (b_blockno (bufs s b)))"
  shows "\<exists>s'. brelse b s = Ok s' \<and> pinned d new D (H - {b}) p s' \<and> (\<forall>c\<in>H - {b}. payload (bufs s' c) = payload (bufs s c))
    \<and> writes s' = writes s \<and> rest_same s s'"
proof -
  note c = calD [OF assms(1)]
  note q = quiet_facts [OF c(2)]
  obtain xs where xs: "bcache_inv s xs" using c(3) by blast
  have b: "b < NBUF" using c(5) assms(2) by (auto simp: cache_data_def)
  let ?w = "wake_table (Some (ChSleep (SLEEP_BUF b))) (Some p) NPROC (set_slock (SLEEP_BUF b) \<lparr>sl_locked = 0, sl_pid = 0\<rparr> s)"
  define t where "t = settle (unref b ?w)"
  have "slocks s (SLEEP_BUF b) = \<lparr>sl_locked = 1, sl_pid = p_pid (procs s p)\<rparr>" using c(6) assms(2) b by (auto simp: cache_locks_def)
  then have r: "brelse b s = Ok t" using brelse_eq [OF q(4) q(2) q(2) q(3)] by (simp add: t_def)
  have pay: "payload (bufs t c) = payload (((bufs s)(b := (bufs s b)\<lparr>b_refcnt := b_refcnt (bufs s b) - 1\<rparr>)) c)" for c
    using unref_fields [of b ?w c] by (simp add: t_def)
  note f = payload_eqs [of "bufs t", OF pay]
  have u: "unref b ?w = ?w\<lparr>bufs := bufs (unref b ?w)\<rparr>" by (rule unref_bufs)
  have e: "slocks t = (slocks s)(SLEEP_BUF b := \<lparr>sl_locked = 0, sl_pid = 0\<rparr>)" "writes t = writes s" "medium t = medium s" "log t = log s" "logged.more t = logged.more s"
    "disk t = disk s" "holds_only {} p t = holds_only {} p s" "p_pid (procs t q) = p_pid (procs s q)" for q
    by (simp only: t_def, subst u, simp add: settle_def wake_table_def set_slock_def holds_only_def machine_ops)+
  have "bcache_inv t (if b_refcnt (bufs s b) = 1 then b # remove1 b xs else xs)"
    using unref_inv [of ?w xs b] xs b bcache_inv_cong [of ?w s] bcache_inv_cong [of t "unref b ?w"] by (simp add: t_def)
  moreover have "cache_refs d D (H - {b}) (bufs t)" using c(4) assms(2) by (auto simp: cache_refs_def f)
  moreover have "platter t = platter s" by (rule platter_eq [OF e(2,3)])
  then have "cache_data d new D (H - {b}) (platter t) (bufs t)"
    using c(5) assms(2,3) by (auto simp: cache_data_def f is_block_def split: if_splits)
  moreover have "cache_locks (H - {b}) p t" using c(6) by (auto simp: cache_locks_def e)
  moreover have "quiet p t" using c(2) by (simp add: quiet_def e)
  ultimately have "pinned d new D (H - {b}) p t" using c(1) by (auto simp: pinned_def)
  moreover have "\<forall>c\<in>H - {b}. payload (bufs t c) = payload (bufs s c)" using pay by simp
  ultimately show ?thesis using r e by (auto simp: rest_same_def)
qed

lemma bunpin_eq: "cpu_ok s \<Longrightarrow> lock_free BCACHE s \<Longrightarrow> bunpin b s = Ok (settle (set_buf b (\<lambda>u. u\<lparr>b_refcnt := b_refcnt u - 1\<rparr>) s))"
  by (simp add: bunpin_def acquire_free release_set_buf)

lemma bunpin_cal:
  assumes "pinned d new D H p s" "b \<in> H" "b_blockno (bufs s b) \<in> D"
  shows "\<exists>s'. bunpin b s = Ok s' \<and> pinned d new (D - {b_blockno (bufs s b)}) H p s'
    \<and> bufs s' = (bufs s)(b := (bufs s b)\<lparr>b_refcnt := b_refcnt (bufs s b) - 1\<rparr>) \<and> writes s' = writes s \<and> rest_same s s'"
proof -
  note c = calD [OF assms(1)]
  note q = quiet_facts [OF c(2)]
  obtain xs where xs: "bcache_inv s xs" using c(3) by blast
  let ?h = "b_blockno (bufs s b)"
  define t where "t = settle (set_buf b (\<lambda>u. u\<lparr>b_refcnt := b_refcnt u - 1\<rparr>) s)"
  have b: "b < NBUF" "b_dev (bufs s b) = d" using c(5) assms(2) by (auto simp: cache_data_def)
  have bufs_t: "bufs t = (bufs s)(b := (bufs s b)\<lparr>b_refcnt := b_refcnt (bufs s b) - 1\<rparr>)" by (simp add: t_def)
  have e: "writes t = writes s" "medium t = medium s" "log t = log s" "logged.more t = logged.more s" "slocks t = slocks s" "procs t = procs s" "disk t = disk s"
    "holds_only {} p t = holds_only {} p s"
    by (simp_all add: t_def holds_settle) (simp_all add: settle_def set_buf_def holds_only_def machine_ops)
  have uniq: "b_blockno (bufs s a) \<noteq> ?h" if "a < NBUF" "b_dev (bufs s a) = d" "a \<noteq> b" for a
    using xs b that c(1) by (auto simp: bcache_inv_def is_block_def)
  have "bcache_inv t xs"
    by (rule bcache_inv_data [OF xs, where b = b and g = "\<lambda>u. u\<lparr>b_refcnt := b_refcnt u - 1\<rparr>"]) (simp_all add: bufs_t)
  moreover have "cache_refs d (D - {?h}) H (bufs t)"
    using c(4) assms(2,3) b uniq by (auto simp: cache_refs_def bufs_t)
  moreover have "is_block e h (bufs t a) = is_block e h (bufs s a)" for e h a by (simp add: bufs_t is_block_def)
  then have "cache_data d new (D - {?h}) H (platter t) (bufs t)"
    using c(5) assms(2,3) b uniq unfolding cache_data_def platter_eq [OF e(1,2)] by (auto simp: bufs_t)
  moreover have "cache_locks H p t" using c(6) by (simp add: cache_locks_def e)
  moreover have "quiet p t" using c(2) by (simp add: quiet_def e)
  ultimately have "pinned d new (D - {?h}) H p t" using c(1) by (auto simp: pinned_def)
  then show ?thesis using bunpin_eq [OF q(1) q(2), of b] e bufs_t by (auto simp: t_def [symmetric] rest_same_def)
qed

section \<open>The steps of the log\<close>

text \<open>A header that fits: distinct blocks of the device outside the \<open>LOGSIZE\<close> blocks of the log, which ends below \<open>2\<^sup>3\<^sup>1\<close>.\<close>

definition logblk :: "int \<Rightarrow> nat \<Rightarrow> uint32" where
  "logblk start i = of_int (start + int i)"

definition log_geom :: "int \<Rightarrow> uint32 list \<Rightarrow> bool" where
  "log_geom start hs \<longleftrightarrow> 0 \<le> start \<and> start + int LOGSIZE < 2 ^ 31 \<and> length hs < LOGSIZE \<and> distinct hs
     \<and> (\<forall>h\<in>set hs. h < 2 ^ 31 \<and> (\<forall>i<LOGSIZE. h \<noteq> logblk start i))"

lemma logblk_inj:
  assumes "log_geom start hs" "i < LOGSIZE" "j < LOGSIZE"
  shows "logblk start i = logblk start j \<longleftrightarrow> i = j" "logblk start i < 2 ^ 31"
proof -
  have "unat (of_int x :: uint32) = nat x" if "0 \<le> x" "x < 2 ^ 32" for x
    using that by (simp add: unsigned_of_int take_bit_int_eq_self)
  then have u: "unat (logblk start k) = nat (start + int k)" if "k < LOGSIZE" for k
    unfolding logblk_def using assms(1) that by (simp add: log_geom_def del: of_int_add)
  show "logblk start i = logblk start j \<longleftrightarrow> i = j" using u [OF assms(2)] u [OF assms(3)] assms(1)
    by (auto simp: word_unat_eq_iff log_geom_def)
  show "logblk start i < 2 ^ 31" using u [OF assms(2)] assms(1,2) by (simp add: word_less_nat_alt log_geom_def nat_less_iff)
qed

lemma geom_at:
  assumes "log_geom start hs" "i < length hs"
  shows "hs ! i < 2 ^ 31" "logblk start (Suc i) < 2 ^ 31" "logblk start (Suc i) \<notin> set hs" "logblk start (Suc i) \<noteq> hs ! i"
    "length hs < NBUF"
proof -
  have i: "Suc i < LOGSIZE" "hs ! i \<in> set hs" using assms by (auto simp: log_geom_def)
  show n: "logblk start (Suc i) \<notin> set hs" using i(1) assms(1) unfolding log_geom_def by blast
  show "logblk start (Suc i) < 2 ^ 31" using logblk_inj(2) [OF assms(1) i(1), of 0] by simp
  show "hs ! i < 2 ^ 31" using i(2) assms(1) by (simp add: log_geom_def)
  show "logblk start (Suc i) \<noteq> hs ! i" using n i(2) by metis
qed (use assms in \<open>simp add: log_geom_def\<close>)

lemma write_head_cal:
  assumes "pinned d new D {} p s" "serves W" "card D < NBUF" "log_dev (log s) = d" "log_geom (log_start (log s)) hs"
    "logblk (log_start (log s)) 0 \<notin> D" "head_ok (log_lh (log s))"
  shows "\<exists>s'. write_head W s = Ok s' \<and> pinned d new D {} p s' \<and> rest_same s s' \<and>
    writes s' = writes s @ [(sector (logblk (log_start (log s)) 0),
       encode_head (log_lh (log s)) (platter s (sector (logblk (log_start (log s)) 0))))]"
proof -
  let ?k = "logblk (log_start (log s)) 0" and ?e = "encode_head (log_lh (log s))"
  have k: "of_int (log_start (log s)) = ?k" by (simp add: logblk_def)
  have "?k < 2 ^ 31" using logblk_inj(2) [OF assms(5), of 0 0] by simp
  from bread_cal [OF assms(1,2) _ _ this] obtain b s1 where s1: "bread W d ?k s = Ok (b, s1)" "pinned d new D {b} p s1"
    "is_block d ?k (bufs s1 b)" "b_data (bufs s1 b) = platter s (sector ?k)" "writes s1 = writes s" "rest_same s s1"
    using assms(3,6) by auto
  define s2 where "s2 = set_data b ?e s1"
  have c2: "pinned d new D {b} p s2" unfolding s2_def
    by (rule set_data_cal [OF s1(2)]) (use s1(3) assms(6) in \<open>auto simp: is_block_def\<close>)
  have len: "length (platter s (sector ?k)) = BSIZE" using calD(5) [OF assms(1)] by (simp add: cache_data_def)
  have b2: "b_blockno (bufs s2 b) = ?k" "b_data (bufs s2 b) = ?e (platter s (sector ?k))"
    using s1(3,4) by (simp_all add: s2_def is_block_def)
  obtain s3 where s3: "bwrite W b s2 = Ok s3" "pinned d new D {b} p s3" "bufs s3 = (bufs s2)(b := (bufs s2 b)\<lparr>b_disk := 0\<rparr>)"
    "writes s3 = writes s @ [(sector ?k, ?e (platter s (sector ?k)))]" "rest_same s2 s3"
    using bwrite_cal [OF c2 assms(2), of b] b2 assms(6) decode_encode_head(3) [OF assms(7) len] s1(5) by (auto simp: s2_def)
  have "platter s3 (sector ?k) = ?e (platter s (sector ?k))"
    using s3(4) by (simp add: platter_def)
  then obtain s4 where s4: "brelse b s3 = Ok s4" "pinned d new D {} p s4" "writes s4 = writes s3" "rest_same s3 s4"
    using brelse_cal [OF s3(2), of b] s3(3) b2 by auto
  have "write_head W s = Ok s4"
    using s1(1,6) s3(1) s4(1) by (simp add: write_head_def k assms(4) Let_def s2_def rest_same_def)
  moreover have "rest_same s s4" using s1(6) s3(5) s4(4) by (auto simp: rest_same_def s2_def set_data_def set_buf_def)
  ultimately show ?thesis using s4 s3(4) by auto
qed

text \<open>Two different blocks read one after the other.\<close>

lemma bread_two:
  assumes "pinned d new D {} p s" "serves W" "k \<noteq> h" "k < 2 ^ 31" "h < 2 ^ 31" "k \<notin> D" "h \<notin> D \<Longrightarrow> card D + 1 < NBUF" "card D < NBUF"
  shows "\<exists>a b s1 s2. bread W d k s = Ok (a, s1) \<and> bread W d h s1 = Ok (b, s2) \<and> a \<noteq> b \<and> pinned d new D {a, b} p s2
    \<and> is_block d k (bufs s2 a) \<and> b_data (bufs s2 a) = platter s (sector k) \<and> is_block d h (bufs s2 b)
    \<and> b_data (bufs s2 b) = (if h \<in> D then new h else platter s (sector h)) \<and> writes s2 = writes s \<and> rest_same s s1 \<and> rest_same s s2"
proof -
  obtain a s1 where s1: "bread W d k s = Ok (a, s1)" "pinned d new D {a} p s1"
    "is_block d k (bufs s1 a)" "b_data (bufs s1 a) = platter s (sector k)" "writes s1 = writes s" "rest_same s s1"
    using bread_cal [OF assms(1,2) _ _ assms(4)] assms(6,8) by auto
  have "\<exists>b s2. bread W d h s1 = Ok (b, s2) \<and> b \<notin> {a} \<and> pinned d new D (insert b {a}) p s2 \<and> is_block d h (bufs s2 b)
    \<and> b_data (bufs s2 b) = (if h \<in> D then new h else platter s1 (sector h))
    \<and> (\<forall>c\<in>{a}. bufs s2 c = bufs s1 c) \<and> writes s2 = writes s1 \<and> rest_same s1 s2"
    by (rule bread_cal [OF s1(2) assms(2)]) (use s1(3) assms(3,5,7) in \<open>auto simp: is_block_def\<close>)
  moreover have "platter s1 = platter s" using s1(5,6) by (simp add: platter_def rest_same_def)
  ultimately show ?thesis using s1 by (auto simp: insert_commute intro: rest_same_trans)
qed

lemma write_log_one_cal:
  assumes "pinned d new D {} p s" "serves W" "log_dev (log s) = d" "log_geom (log_start (log s)) hs" "set hs = D"
    "i < length hs" "lh_block (log_lh (log s)) i = hs ! i" "length (new (hs ! i)) = BSIZE"
  shows "\<exists>s'. write_log_one W i s = Ok s' \<and> pinned d new D {} p s' \<and> rest_same s s' \<and>
    writes s' = writes s @ [(sector (logblk (log_start (log s)) (Suc i)), new (hs ! i))]"
proof -
  let ?k = "logblk (log_start (log s)) (Suc i)" and ?h = "hs ! i"
  have k: "of_int (log_start (log s) + int i + 1) = ?k" by (simp add: logblk_def add.assoc add.commute)
  have g: "?h \<in> D" "?h < 2 ^ 31" "?k \<noteq> ?h" "?k \<notin> D" "?k < 2 ^ 31" "card D < NBUF"
    using assms(5,6) geom_at [OF assms(4,6)] card_length [of hs] by auto
  obtain a b s1 s2 where s2: "bread W d ?k s = Ok (a, s1)" "bread W d ?h s1 = Ok (b, s2)" "a \<noteq> b" "pinned d new D {a, b} p s2"
    "is_block d ?k (bufs s2 a)" "is_block d ?h (bufs s2 b)" "b_data (bufs s2 b) = new ?h" "writes s2 = writes s" "rest_same s s1" "rest_same s s2"
    using bread_two [OF assms(1,2) g(3,5,2,4) _ g(6)] g(1) by auto
  define s3 where "s3 = set_data a (\<lambda>_. b_data (bufs s2 b)) s2"
  have c3: "pinned d new D {a, b} p s3" unfolding s3_def
    by (rule set_data_cal [OF s2(4)]) (use s2(5) g(4) in \<open>auto simp: is_block_def\<close>)
  have b3: "b_blockno (bufs s3 a) = ?k" "b_data (bufs s3 a) = new ?h" "b_blockno (bufs s3 b) = ?h" "rest_same s s3"
    using s2(3,5,6,7,10) by (simp_all add: s3_def is_block_def rest_same_def) (simp_all add: set_data_def set_buf_def)
  obtain s4 where s4: "bwrite W a s3 = Ok s4" "pinned d new D {a, b} p s4" "bufs s4 = (bufs s3)(a := (bufs s3 a)\<lparr>b_disk := 0\<rparr>)"
    "writes s4 = writes s @ [(sector ?k, new ?h)]" "rest_same s3 s4"
    using bwrite_cal [OF c3 assms(2), of a] b3 g(4) assms(8) s2(8) by (auto simp: s3_def)
  obtain s5 where s5: "brelse b s4 = Ok s5" "pinned d new D {a} p s5" "payload (bufs s5 a) = payload (bufs s4 a)"
    "writes s5 = writes s4" "rest_same s4 s5"
    using brelse_cal [OF s4(2), of b] s4(3) b3(3) s2(3) g(1) by (auto simp: insert_Diff_if)
  have "platter s5 (sector ?k) = new ?h" using s5(4) s4(4) by (simp add: platter_def)
  moreover have "b_data (bufs s5 a) = new ?h" "b_blockno (bufs s5 a) = ?k"
    using s5(3) s4(3) b3(1,2) by (simp_all add: payload_def)
  ultimately obtain s6 where s6: "brelse a s5 = Ok s6" "pinned d new D {} p s6" "writes s6 = writes s5" "rest_same s5 s6"
    using brelse_cal [OF s5(2), of a] by auto
  have "write_log_one W i s = Ok s6" unfolding write_log_one_def k
    using s2(1,2,9) s4(1) s5(1) s6(1) assms(3,7) by (simp add: Let_def s3_def rest_same_def)
  moreover have "rest_same s s6" using b3(4) s4(5) s5(5) s6(4) by (blast intro: rest_same_trans)
  ultimately show ?thesis using s6 s5(4) s4(4) by auto
qed

lemma install_one_cal:
  assumes "pinned d new D {} p s" "serves W" "log_dev (log s) = d" "log_geom (log_start (log s)) hs" "D \<subseteq> set hs"
    "i < length hs" "lh_block (log_lh (log s)) i = hs ! i" "hs ! i \<in> D \<longleftrightarrow> \<not> recovering"
    "hs ! i \<in> D \<Longrightarrow> new (hs ! i) = platter s (sector (logblk (log_start (log s)) (Suc i)))"
  shows "\<exists>s'. install_one W recovering i s = Ok s' \<and> pinned d new (D - {hs ! i}) {} p s' \<and> rest_same s s' \<and>
    writes s' = writes s @ [(sector (hs ! i), platter s (sector (logblk (log_start (log s)) (Suc i))))]"
proof -
  let ?k = "logblk (log_start (log s)) (Suc i)" and ?h = "hs ! i"
  let ?x = "platter s (sector ?k)"
  have k: "of_int (log_start (log s) + int i + 1) = ?k" by (simp add: logblk_def add.assoc add.commute)
  have D: "finite D" "card D \<le> length hs" using assms(5) card_mono [of "set hs" D] card_length [of hs] by (auto intro: finite_subset)
  have "card D + 1 < NBUF" if "?h \<notin> D"
    using that D assms(4,6) card_mono [of "set hs" "insert ?h D"] card_length [of hs] assms(5) by (simp add: log_geom_def)
  moreover have g: "?h < 2 ^ 31" "?k \<noteq> ?h" "?k \<notin> D" "?k < 2 ^ 31" "card D < NBUF" "length ?x = BSIZE"
    using assms(5) D(2) geom_at [OF assms(4,6)] calD(5) [OF assms(1)] by (auto simp: cache_data_def)
  ultimately obtain a b s1 s2 where s2: "bread W d ?k s = Ok (a, s1)" "bread W d ?h s1 = Ok (b, s2)" "a \<noteq> b" "pinned d new D {a, b} p s2"
    "is_block d ?k (bufs s2 a)" "is_block d ?h (bufs s2 b)" "b_data (bufs s2 a) = ?x" "writes s2 = writes s" "rest_same s s1" "rest_same s s2"
    using bread_two [OF assms(1,2) g(2,4,1,3) _ g(5)] by auto
  define s3 where "s3 = set_data b (\<lambda>_. b_data (bufs s2 a)) s2"
  have c3: "pinned d new D {a, b} p s3" unfolding s3_def
    by (rule set_data_cal [OF s2(4)]) (use s2(6,7) assms(9) in \<open>auto simp: is_block_def\<close>)
  have b3: "b_blockno (bufs s3 b) = ?h" "b_data (bufs s3 b) = ?x" "b_blockno (bufs s3 a) = ?k" "b_data (bufs s3 a) = ?x" "rest_same s s3"
    using s2(3,5,6,7,10) by (simp_all add: s3_def is_block_def rest_same_def) (simp_all add: set_data_def set_buf_def)
  obtain s4 where s4: "bwrite W b s3 = Ok s4" "pinned d new D {a, b} p s4" "bufs s4 = (bufs s3)(b := (bufs s3 b)\<lparr>b_disk := 0\<rparr>)"
    "writes s4 = writes s @ [(sector ?h, ?x)]" "rest_same s3 s4"
    using bwrite_cal [OF c3 assms(2), of b] b3 g(6) assms(9) s2(8) by (auto simp: s3_def)
  have "\<exists>s5. (if recovering then Ok s4 else bunpin b s4) = Ok s5 \<and> pinned d new (D - {?h}) {a, b} p s5
    \<and> (\<forall>c. b_blockno (bufs s5 c) = b_blockno (bufs s4 c) \<and> b_data (bufs s5 c) = b_data (bufs s4 c)) \<and> writes s5 = writes s4 \<and> rest_same s4 s5"
    using s4(2,3) b3(1) assms(8) bunpin_cal [OF s4(2), of b] by (cases recovering) (auto simp: rest_same_def)
  then obtain s5 where s5: "(if recovering then Ok s4 else bunpin b s4) = Ok s5" "pinned d new (D - {?h}) {a, b} p s5"
    "b_blockno (bufs s5 c) = b_blockno (bufs s4 c)" "b_data (bufs s5 c) = b_data (bufs s4 c)" "writes s5 = writes s4" "rest_same s4 s5" for c
    by blast
  have "sector ?h \<noteq> sector ?k" using g(1,2,4) by (auto simp: sector_inj)
  then have pl: "platter s5 (sector ?h) = ?x" "platter s5 (sector ?k) = ?x"
    using s5(5) s4(4,5) s5(6) b3(5) by (simp_all add: platter_def rest_same_def)
  obtain s6 where s6: "brelse a s5 = Ok s6" "pinned d new (D - {?h}) {b} p s6" "payload (bufs s6 b) = payload (bufs s5 b)"
    "writes s6 = writes s5" "rest_same s5 s6"
    using brelse_cal [OF s5(2), of a] s5(3,4) s4(3) b3(3,4) pl(2) s2(3) by (auto simp: insert_Diff_if)
  have "b_data (bufs s6 b) = ?x" "b_blockno (bufs s6 b) = ?h"
    using s6(3) s5(3,4) s4(3) b3(1,2) by (simp_all add: payload_def)
  moreover have "platter s6 = platter s5" using s6(4,5) by (simp add: platter_def rest_same_def)
  ultimately obtain s7 where s7: "brelse b s6 = Ok s7" "pinned d new (D - {?h}) {} p s7" "writes s7 = writes s6" "rest_same s6 s7"
    using brelse_cal [OF s6(2), of b] pl(1) by auto
  have "install_one W recovering i s = Ok s7" unfolding install_one_def k
    using s2(1,2,9) s4(1) s5(1) s6(1) s7(1) assms(3,7) by (cases recovering) (simp_all add: Let_def s3_def rest_same_def)
  moreover have "rest_same s s7" using b3(5) s4(5) s5(6) s6(5) s7(4) by (blast intro: rest_same_trans)
  ultimately show ?thesis using s7 s6(4) s5(5) s4(4) by auto
qed

section \<open>Sequences of writes\<close>

lemma apply_out: "k \<notin> fst ` set ws \<Longrightarrow> apply_writes ws m k = m k"
  by (induction ws arbitrary: m) auto

lemma apply_in: "(k, v) \<in> set ws \<Longrightarrow> distinct (map fst ws) \<Longrightarrow> apply_writes ws m k = v"
  by (induction ws arbitrary: m) (auto simp: apply_out)

lemma apply_cong: "k \<in> fst ` set ws \<or> m k = m' k \<Longrightarrow> apply_writes ws m k = apply_writes ws m' k"
proof (induction ws arbitrary: m m')
  case (Cons w ws)
  obtain a x where w: "w = (a, x)" by (cases w)
  show ?case unfolding w apply_writes_simps by (rule Cons.IH) (use Cons.prems w in auto)
qed simp

lemma apply_absorb: "fst ` set vs \<subseteq> fst ` set ws \<Longrightarrow> apply_writes ws (apply_writes vs m) = apply_writes ws m"
  by (rule ext, rule apply_cong) (use apply_out [of _ vs m] in blast)

text \<open>The writes of the blocks of a transaction to the log, and from there to their homes.\<close>

definition log_part :: "int \<Rightarrow> (uint32 \<Rightarrow> uint8 list) \<Rightarrow> uint32 list \<Rightarrow> nat \<Rightarrow> (uint64 \<times> uint8 list) list" where
  "log_part start new hs n = map (\<lambda>i. (sector (logblk start (Suc i)), new (hs ! i))) [0..<n]"

definition home_part :: "int \<Rightarrow> (uint64 \<Rightarrow> uint8 list) \<Rightarrow> uint32 list \<Rightarrow> nat \<Rightarrow> (uint64 \<times> uint8 list) list" where
  "home_part start m hs n = map (\<lambda>i. (sector (hs ! i), m (sector (logblk start (Suc i))))) [0..<n]"

definition log_area :: "int \<Rightarrow> uint64 set" where
  "log_area start = (\<lambda>i. sector (logblk start i)) ` {..<LOGSIZE}"

lemma home_outside:
  assumes "log_geom start hs" "n \<le> length hs"
  shows "fst ` set (home_part start m hs n) \<inter> log_area start = {}"
proof -
  have "sector (hs ! i) \<noteq> sector (logblk start j)" if "i < length hs" "j < LOGSIZE" for i j
  proof -
    have "hs ! i \<in> set hs" using that by simp
    then have "hs ! i \<noteq> logblk start j" using assms(1) that(2) unfolding log_geom_def by blast
    then show ?thesis using geom_at(1) [OF assms(1) that(1)] logblk_inj(2) [OF assms(1) that(2), of 0] by (simp add: sector_inj)
  qed
  then show ?thesis using assms(2) unfolding home_part_def log_area_def by auto
qed

lemma log_part_area:
  assumes "log_geom start hs" "n \<le> length hs"
  shows "fst ` set (log_part start new hs n) \<subseteq> log_area start" "sector (logblk start 0) \<notin> fst ` set (log_part start new hs n)"
    "distinct (map fst (log_part start new hs n))"
proof -
  have n: "n < LOGSIZE" using assms by (simp add: log_geom_def)
  then show "fst ` set (log_part start new hs n) \<subseteq> log_area start" by (auto simp: log_part_def log_area_def image_iff)
  have eq: "sector (logblk start i) = sector (logblk start j) \<longleftrightarrow> i = j" if "i < LOGSIZE" "j < LOGSIZE" for i j
    using logblk_inj [OF assms(1)] that by (simp add: sector_inj)
  have "sector (logblk start 0) \<noteq> sector (logblk start (Suc i))" if "i < n" for i using eq [of 0 "Suc i"] n that by simp
  moreover have "fst ` set (log_part start new hs n) = (\<lambda>i. sector (logblk start (Suc i))) ` {..<n}"
    by (simp add: log_part_def image_image lessThan_atLeast0)
  ultimately show "sector (logblk start 0) \<notin> fst ` set (log_part start new hs n)" by blast
  show "distinct (map fst (log_part start new hs n))" using n eq by (auto simp: log_part_def distinct_map inj_on_def o_def)
qed

lemma nth_log_blocks: "hs = log_blocks lh \<Longrightarrow> j < length hs \<Longrightarrow> lh_block lh j = hs ! j"
  by (simp add: log_blocks_def)

lemma write_log_cal:
  assumes "pinned d new (set hs) {} p s" "serves W" "log_dev (log s) = d" "log_geom (log_start (log s)) hs"
    "hs = log_blocks (log_lh (log s))" "\<And>h. h \<in> set hs \<Longrightarrow> length (new h) = BSIZE"
  shows "\<exists>s'. write_log W s = Ok s' \<and> pinned d new (set hs) {} p s' \<and> rest_same s s' \<and>
    writes s' = writes s @ log_part (log_start (log s)) new hs (length hs)"
proof -
  have n: "nat (lh_n (log_lh (log s))) = length hs" using assms(5) by (simp add: log_blocks_def)
  have "\<exists>s'. for_upto 0 (length hs) (write_log_one W) s = Ok s' \<and>
    (pinned d new (set hs) {} p s' \<and> rest_same s s' \<and> writes s' = writes s @ log_part (log_start (log s)) new hs (length hs))"
  proof (rule for_upto_total [where P = "\<lambda>j t. pinned d new (set hs) {} p t \<and> rest_same s t \<and>
      writes t = writes s @ log_part (log_start (log s)) new hs j"], goal_cases)
    case 2
    then show ?case using assms(1) by (simp add: rest_same_def log_part_def)
  next
    case (3 j t)
    then have l: "log t = log s" by (simp add: rest_same_def)
    have "lh_block (log_lh (log t)) j = hs ! j" unfolding l by (rule nth_log_blocks [OF assms(5) 3(2)])
    then have "\<exists>t'. write_log_one W j t = Ok t' \<and> pinned d new (set hs) {} p t' \<and> rest_same t t' \<and>
      writes t' = writes t @ [(sector (logblk (log_start (log t)) (Suc j)), new (hs ! j))]"
      by (intro write_log_one_cal) (use 3 assms(2-4,6) l in simp_all)
    then show ?case using 3 rest_same_trans [of s t] unfolding l by (auto simp: log_part_def)
  qed simp
  then show ?thesis by (simp add: write_log_def n)
qed

lemma install_trans_cal:
  assumes "pinned d new D {} p s" "serves W" "log_dev (log s) = d" "log_geom (log_start (log s)) hs"
    "hs = log_blocks (log_lh (log s))" "D = (if recovering then {} else set hs)"
    "\<And>i. i < length hs \<Longrightarrow> hs ! i \<in> D \<Longrightarrow> new (hs ! i) = platter s (sector (logblk (log_start (log s)) (Suc i)))"
  shows "\<exists>s'. install_trans W recovering s = Ok s' \<and> pinned d new {} {} p s' \<and> rest_same s s' \<and>
    writes s' = writes s @ home_part (log_start (log s)) (platter s) hs (length hs)"
proof -
  let ?st = "log_start (log s)"
  have n: "nat (lh_n (log_lh (log s))) = length hs" using assms(5) by (simp add: log_blocks_def)
  have "\<exists>s'. for_upto 0 (length hs) (install_one W recovering) s = Ok s' \<and>
    (pinned d new (D - set (take (length hs) hs)) {} p s' \<and> rest_same s s' \<and> writes s' = writes s @ home_part ?st (platter s) hs (length hs))"
  proof (rule for_upto_total [where P = "\<lambda>j t. pinned d new (D - set (take j hs)) {} p t \<and> rest_same s t \<and>
      writes t = writes s @ home_part ?st (platter s) hs j"], goal_cases)
    case 2
    then show ?case using assms(1) by (simp add: rest_same_def home_part_def)
  next
    case (3 j t)
    then have l: "log t = log s" and b: "medium t = medium s" by (simp_all add: rest_same_def)
    have blk: "lh_block (log_lh (log t)) j = hs ! j" unfolding l by (rule nth_log_blocks [OF assms(5) 3(2)])
    have "sector (logblk ?st (Suc j)) \<in> log_area ?st" using 3(2) assms(4) by (auto simp: log_area_def log_geom_def)
    then have "sector (logblk ?st (Suc j)) \<notin> fst ` set (home_part ?st (platter s) hs j)"
      using home_outside [OF assms(4), of j "platter s"] 3(2) by auto
    then have pl: "platter t (sector (logblk ?st (Suc j))) = platter s (sector (logblk ?st (Suc j)))"
      using 3(3) by (simp add: platter_def b apply_out)
    have "hs ! j \<notin> set (take j hs)" using assms(4) 3(2) by (auto simp: log_geom_def in_set_conv_nth nth_eq_iff_index_eq)
    then have D: "hs ! j \<in> D - set (take j hs) \<longleftrightarrow> \<not> recovering" using assms(6) 3(2) by auto
    have Dn: "D - set (take j hs) - {hs ! j} = D - set (take (Suc j) hs)" using 3(2) by (auto simp: take_Suc_conv_app_nth)
    have "\<exists>t'. install_one W recovering j t = Ok t' \<and> pinned d new (D - set (take j hs) - {hs ! j}) {} p t' \<and> rest_same t t' \<and>
      writes t' = writes t @ [(sector (hs ! j), platter t (sector (logblk (log_start (log t)) (Suc j))))]"
      by (rule install_one_cal [where hs = hs]) (use 3 assms(2-4,6,7) l blk pl D in \<open>auto split: if_splits\<close>)
    then show ?case using 3 rest_same_trans [of s t] unfolding Dn l pl by (auto simp: home_part_def)
  qed simp
  then show ?thesis using assms(6) by (auto simp: install_trans_def n split: if_splits)
qed

section \<open>What the disk stands for\<close>

text \<open>
  The blocks the header on the disk names, and the contents of the disk as the next recovery will leave
  them outside the log.
\<close>

definition disk_log :: "int \<Rightarrow> (uint64 \<Rightarrow> uint8 list) \<Rightarrow> uint32 list" where
  "disk_log start m = log_blocks (decode_head (m (sector (logblk start 0))) \<lparr>lh_n = 0, lh_block = \<lambda>_. 0\<rparr>)"

definition logical :: "int \<Rightarrow> (uint64 \<Rightarrow> uint8 list) \<Rightarrow> uint64 \<Rightarrow> uint8 list" where
  "logical start m = apply_writes (home_part start m (disk_log start m) (length (disk_log start m))) m"

lemma disk_log_decode: "log_blocks (decode_head (m (sector (logblk start 0))) lh) = disk_log start m"
  by (auto simp: disk_log_def log_blocks_def decode_head_def)

lemma disk_log_cong: "m (sector (logblk start 0)) = m' (sector (logblk start 0)) \<Longrightarrow> disk_log start m = disk_log start m'"
  by (simp add: disk_log_def)

lemma disk_log_encode:
  assumes "head_ok lh" "length bs = BSIZE" "m (sector (logblk start 0)) = encode_head lh bs"
  shows "disk_log start m = log_blocks lh"
  using decode_encode_head(2) [OF assms(1,2)] assms(3) by (simp add: disk_log_def)

lemma logical_empty: "disk_log start m = [] \<Longrightarrow> logical start m = m"
  by (simp add: logical_def home_part_def)

lemma fst_home: "fst ` set (home_part start m hs n) = (\<lambda>i. sector (hs ! i)) ` {..<n}"
  by (simp add: home_part_def image_image lessThan_atLeast0)

lemma take_home: "n \<le> k \<Longrightarrow> take n (home_part start m hs k) = home_part start m hs n"
  by (simp add: home_part_def take_map)

lemma take_log_part: "n \<le> k \<Longrightarrow> take n (log_part start new hs k) = log_part start new hs n"
  by (simp add: log_part_def take_map)

lemma length_parts [simp]: "length (home_part start m hs k) = k" "length (log_part start new hs k) = k"
  by (simp_all add: home_part_def log_part_def)

lemma zero_area [simp]: "sector (logblk start 0) \<in> log_area start"
  by (auto simp: log_area_def)

text \<open>Installing any part of the logged blocks does not change what the disk stands for.\<close>

lemma logical_install:
  assumes "disk_log start m = hs" "log_geom start hs" "n \<le> length hs"
  shows "disk_log start (apply_writes (home_part start m hs n) m) = hs"
    "logical start (apply_writes (home_part start m hs n) m) = logical start m"
proof -
  let ?m = "apply_writes (home_part start m hs n) m"
  have out: "?m k = m k" if "k \<in> log_area start" for k
    using home_outside [OF assms(2,3), of m] that by (intro apply_out) blast
  show d: "disk_log start ?m = hs" using disk_log_cong [of ?m start m] out [of "sector (logblk start 0)"] assms(1) by simp
  have "home_part start ?m hs (length hs) = home_part start m hs (length hs)"
    using out assms(2) by (auto simp: home_part_def log_area_def log_geom_def)
  moreover have "fst ` set (home_part start m hs n) \<subseteq> fst ` set (home_part start m hs (length hs))"
    using assms(3) by (auto simp: fst_home)
  ultimately show "logical start ?m = logical start m" by (simp add: logical_def d assms(1) apply_absorb)
qed

text \<open>Once the header on the disk is emptied the disk stands for itself.\<close>

lemma logical_cleared:
  assumes "length bs = BSIZE" "lh_n lh = 0"
  shows "disk_log start (m(sector (logblk start 0) := encode_head lh bs)) = []"
    "logical start (m(sector (logblk start 0) := encode_head lh bs)) = m(sector (logblk start 0) := encode_head lh bs)"
proof -
  show "disk_log start (m(sector (logblk start 0) := encode_head lh bs)) = []"
    using disk_log_encode [of lh bs "m(sector (logblk start 0) := encode_head lh bs)" start] assms by (simp add: head_ok_def log_blocks_def)
  then show "logical start (m(sector (logblk start 0) := encode_head lh bs)) = m(sector (logblk start 0) := encode_head lh bs)"
    by (rule logical_empty)
qed

section \<open>Recovery\<close>

lemma cal_set_lh [simp]: "pinned d new D H p (set_lh f s) = pinned d new D H p s"
proof -
  have e: "bufs (set_lh f s) = bufs s" "slocks (set_lh f s) = slocks s" "procs (set_lh f s) = procs s" "platter (set_lh f s) = platter s"
    "quiet p (set_lh f s) = quiet p s"
    by (simp_all add: set_lh_def set_log_def platter_def quiet_def holds_only_def machine_ops)
  have "bcache_inv (set_lh f s) xs = bcache_inv s xs" for xs by (rule bcache_inv_cong [OF e(1)])
  then show ?thesis by (simp add: pinned_def cache_locks_def e)
qed

lemma set_lh_fields [simp]: "writes (set_lh f s) = writes s" "medium (set_lh f s) = medium s" "procs (set_lh f s) = procs s" "platter (set_lh f s) = platter s"
  by (simp_all add: set_lh_def set_log_def platter_def)

lemma read_head_cal:
  assumes "pinned d new {} {} p s" "serves W" "log_dev (log s) = d" "log_geom (log_start (log s)) hs"
  shows "\<exists>s'. read_head W s = Ok s' \<and> pinned d new {} {} p s' \<and> writes s' = writes s \<and> medium s' = medium s
    \<and> log s' = (log s)\<lparr>log_lh := decode_head (platter s (sector (logblk (log_start (log s)) 0))) (log_lh (log s))\<rparr>"
proof -
  let ?k = "logblk (log_start (log s)) 0"
  have k: "of_int (log_start (log s)) = ?k" by (simp add: logblk_def)
  have "?k < 2 ^ 31" using logblk_inj(2) [OF assms(4), of 0 0] by simp
  from bread_cal [OF assms(1,2) _ _ this] obtain b s1 where s1: "bread W d ?k s = Ok (b, s1)" "pinned d new {} {b} p s1"
    "is_block d ?k (bufs s1 b)" "b_data (bufs s1 b) = platter s (sector ?k)" "writes s1 = writes s" "rest_same s s1"
    by auto
  define s2 where "s2 = set_lh (decode_head (b_data (bufs s1 b))) s1"
  have b2: "bufs s2 = bufs s1" by (simp add: s2_def set_lh_def)
  have "pinned d new {} {b} p s2" "platter s2 = platter s" using s1(2,5,6) by (simp_all add: s2_def platter_def rest_same_def)
  then obtain s3 where s3: "brelse b s2 = Ok s3" "pinned d new {} {} p s3" "writes s3 = writes s2" "rest_same s2 s3"
    using brelse_cal [of d new "{}" "{b}" p s2 b] s1(3,4) by (auto simp: b2 is_block_def)
  have "read_head W s = Ok s3" using s1(1) s3(1) by (simp add: read_head_def k assms(3) s2_def)
  then show ?thesis using s1 s3 by (auto simp: rest_same_def s2_def)
qed

lemma recover_cal:
  assumes "pinned d new {} {} p s" "serves W" "log_dev (log s) = d" "log_start (log s) = start" "disk_log start (platter s) = hs"
    "log_geom start hs"
  shows "\<exists>s' lh bs. recover_from_log W s = Ok s' \<and> pinned d new {} {} p s' \<and> medium s' = medium s \<and> log_dev (log s') = d \<and> log_start (log s') = start
    \<and> lh_n lh = 0 \<and> length bs = BSIZE \<and> lh_n (log_lh (log s')) = 0
    \<and> writes s' = writes s @ home_part start (platter s) hs (length hs) @ [(sector (logblk start 0), encode_head lh bs)]"
proof -
  obtain s1 where s1: "read_head W s = Ok s1" "pinned d new {} {} p s1" "writes s1 = writes s" "medium s1 = medium s"
    "log s1 = (log s)\<lparr>log_lh := decode_head (platter s (sector (logblk start 0))) (log_lh (log s))\<rparr>"
    using read_head_cal [OF assms(1-3), of hs] assms(4,6) by auto
  have l1: "log_dev (log s1) = d" "log_start (log s1) = start" "hs = log_blocks (log_lh (log s1))" "platter s1 = platter s"
    using s1(3-5) assms(3,4) disk_log_decode [of "platter s" start] assms(5) by (simp_all add: platter_def)
  obtain s2 where s2: "install_trans W True s1 = Ok s2" "pinned d new {} {} p s2" "rest_same s1 s2"
    "writes s2 = writes s @ home_part start (platter s) hs (length hs)"
    using install_trans_cal [OF s1(2) assms(2) l1(1) _ l1(3), of True] assms(6) s1(3) l1 by auto
  define s3 where "s3 = set_lh (\<lambda>lh. lh\<lparr>lh_n := 0\<rparr>) s2"
  have l3: "log_dev (log s3) = d" "log_start (log s3) = start" "lh_n (log_lh (log s3)) = 0" using s2(3) l1 by (simp_all add: s3_def rest_same_def)
  have c3: "pinned d new {} {} p s3" using s2(2) by (simp add: s3_def)
  let ?bs = "platter s3 (sector (logblk start 0))"
  obtain s4 where s4: "write_head W s3 = Ok s4" "pinned d new {} {} p s4" "rest_same s3 s4"
    "writes s4 = writes s3 @ [(sector (logblk start 0), encode_head (log_lh (log s3)) ?bs)]"
    using write_head_cal [OF c3 assms(2) _ l3(1), of hs] assms(6) l3 by (auto simp: head_ok_def)
  have "recover_from_log W s = Ok s4" using s1(1) s2(1) s4(1) by (simp add: recover_from_log_def Let_def s3_def)
  moreover have "length ?bs = BSIZE" using calD(5) [OF c3] by (simp add: cache_data_def)
  ultimately show ?thesis using s4 l3 s2(3,4) s1(4)
    by (intro exI [of _ s4] exI [of _ "log_lh (log s3)"] exI [of _ ?bs]) (auto simp: s3_def rest_same_def)
qed

section \<open>Committing\<close>

definition transaction :: "(uint32 \<Rightarrow> uint8 list) \<Rightarrow> uint32 list \<Rightarrow> (uint64 \<times> uint8 list) list" where
  "transaction new hs = map (\<lambda>h. (sector h, new h)) hs"

text \<open>The writes of a commit: the blocks to the log, the header, the blocks to their homes, the empty header.\<close>

definition commit_writes :: "int \<Rightarrow> (uint32 \<Rightarrow> uint8 list) \<Rightarrow> uint32 list \<Rightarrow> uint8 list \<Rightarrow> uint8 list \<Rightarrow> (uint64 \<times> uint8 list) list" where
  "commit_writes start new hs head head0 = log_part start new hs (length hs) @ [(sector (logblk start 0), head)]
     @ transaction new hs @ [(sector (logblk start 0), head0)]"

lemma home_transaction:
  assumes "\<And>i. i < length hs \<Longrightarrow> m (sector (logblk start (Suc i))) = new (hs ! i)"
  shows "home_part start m hs (length hs) = transaction new hs"
  using assms by (intro nth_equalityI) (simp_all add: home_part_def transaction_def)

lemma logged_blocks:
  assumes "log_geom start hs" "i < length hs"
  shows "((apply_writes (log_part start new hs (length hs)) m)(sector (logblk start 0) := x)) (sector (logblk start (Suc i))) = new (hs ! i)"
proof -
  have "Suc i < LOGSIZE" using assms by (simp add: log_geom_def)
  then have "sector (logblk start (Suc i)) \<noteq> sector (logblk start 0)"
    using logblk_inj [OF assms(1), of "Suc i" 0] logblk_inj(2) [OF assms(1), of 0 0] by (simp add: sector_inj)
  moreover have "(sector (logblk start (Suc i)), new (hs ! i)) \<in> set (log_part start new hs (length hs))"
    using assms(2) by (auto simp: log_part_def)
  ultimately show ?thesis using apply_in log_part_area(3) [OF assms(1)] by simp
qed

lemma commit_cal:
  assumes "pinned d new (set hs) {} p s" "serves W" "log_dev (log s) = d" "log_start (log s) = start" "log_geom start hs"
    "hs = log_blocks (log_lh (log s))" "\<And>h. h \<in> set hs \<Longrightarrow> length (new h) = BSIZE" "0 < lh_n (log_lh (log s))"
  shows "\<exists>s' lh hb bs. commit W s = Ok s' \<and> pinned d new {} {} p s' \<and> medium s' = medium s \<and> log_dev (log s') = d \<and> log_start (log s') = start
    \<and> lh_n lh = 0 \<and> length hb = BSIZE \<and> length bs = BSIZE \<and> lh_n (log_lh (log s')) = 0
    \<and> writes s' = writes s @ commit_writes start new hs (encode_head (log_lh (log s)) hb) (encode_head lh bs)"
proof -
  have ok: "head_ok (log_lh (log s))" using assms(5,6,8) by (auto simp: head_ok_def log_geom_def log_blocks_def)
  have nz: "logblk start 0 \<notin> set hs" "card (set hs) < NBUF" using assms(5) card_length [of hs] by (force simp: log_geom_def)+
  obtain s1 where s1: "write_log W s = Ok s1" "pinned d new (set hs) {} p s1" "rest_same s s1"
    "writes s1 = writes s @ log_part start new hs (length hs)"
    using write_log_cal [OF assms(1-3) _ assms(6,7)] assms(4,5) by auto
  have l1: "log s1 = log s" "medium s1 = medium s" using s1(3) by (simp_all add: rest_same_def)
  let ?hd = "platter s1 (sector (logblk start 0))"
  obtain s2 where s2: "write_head W s1 = Ok s2" "pinned d new (set hs) {} p s2" "rest_same s1 s2"
    "writes s2 = writes s1 @ [(sector (logblk start 0), encode_head (log_lh (log s)) ?hd)]"
    using write_head_cal [OF s1(2) assms(2) nz(2), of hs] assms(3-5) nz(1) ok unfolding l1 by auto
  have l2: "log s2 = log s" "medium s2 = medium s" using s2(3) l1 by (simp_all add: rest_same_def)
  have pl: "platter s2 (sector (logblk start (Suc i))) = new (hs ! i)" if "i < length hs" for i
    using logged_blocks [OF assms(5) that] s2(4) s1(4) l2 by (simp add: platter_def)
  obtain s3 where s3: "install_trans W False s2 = Ok s3" "pinned d new {} {} p s3" "rest_same s2 s3"
    "writes s3 = writes s2 @ home_part start (platter s2) hs (length hs)"
    using install_trans_cal [OF s2(2) assms(2), of hs False] assms(3-6) pl l2 by auto
  define s4 where "s4 = set_lh (\<lambda>lh. lh\<lparr>lh_n := 0\<rparr>) s3"
  have l4: "log_dev (log s4) = d" "log_start (log s4) = start" "lh_n (log_lh (log s4)) = 0"
    using s3(3) l2 assms(3,4) by (simp_all add: s4_def rest_same_def)
  have c4: "pinned d new {} {} p s4" using s3(2) by (simp add: s4_def)
  let ?bs = "platter s4 (sector (logblk start 0))"
  obtain s5 where s5: "write_head W s4 = Ok s5" "pinned d new {} {} p s5" "rest_same s4 s5"
    "writes s5 = writes s4 @ [(sector (logblk start 0), encode_head (log_lh (log s4)) ?bs)]"
    using write_head_cal [OF c4 assms(2) _ l4(1), of hs] assms(5) l4 by (auto simp: head_ok_def)
  have "commit W s = Ok s5" using s1(1) s2(1) s3(1) s5(1) assms(8) by (simp add: commit_def Let_def s4_def)
  moreover have "length ?hd = BSIZE" "length ?bs = BSIZE" using calD(5) [OF s1(2)] calD(5) [OF c4] by (simp_all add: cache_data_def)
  moreover have "writes s5 = writes s @ commit_writes start new hs (encode_head (log_lh (log s)) ?hd) (encode_head (log_lh (log s4)) ?bs)"
    using s5(4) s3(4) s2(4) s1(4) home_transaction [of hs "platter s2" start, OF pl] by (simp add: commit_writes_def s4_def)
  ultimately show ?thesis using s5(2,3) l4 s3(3) l2
    by (intro exI [of _ s5] exI [of _ "log_lh (log s4)"] exI [of _ ?hd] exI [of _ ?bs]) (auto simp: s4_def rest_same_def)
qed

text \<open>What the disk stands for after each of these writes.\<close>

lemma commit_prefix:
  assumes "log_geom start hs" "disk_log start m = []" "hs = log_blocks lh" "head_ok lh" "length hb = BSIZE" "length bs = BSIZE" "lh_n lh0 = 0"
    and m'_def: "m' = apply_writes (take n (commit_writes start new hs (encode_head lh hb) (encode_head lh0 bs))) m"
  shows "disk_log start m' = [] \<or> disk_log start m' = hs"
    "k \<notin> log_area start \<Longrightarrow> logical start m' k = (if n \<le> length hs then m k else apply_writes (transaction new hs) m k)"
    "2 * length hs + 1 < n \<Longrightarrow> disk_log start m' = []"
proof -
  let ?L = "length hs" and ?k0 = "sector (logblk start 0)"
  let ?m1 = "(apply_writes (log_part start new hs ?L) m)(?k0 := encode_head lh hb)"
  have area: "apply_writes (log_part start new hs j) m k = m k" if "j \<le> ?L" "k \<notin> log_area start" for j k
    using log_part_area(1) [OF assms(1) that(1), of new] that(2) by (intro apply_out) blast
  consider "n \<le> ?L" | "?L < n" "n \<le> 2 * ?L + 1" | "2 * ?L + 1 < n" by linarith
  then have "(disk_log start m' = [] \<or> disk_log start m' = hs) \<and>
    (k \<notin> log_area start \<longrightarrow> logical start m' k = (if n \<le> ?L then m k else apply_writes (transaction new hs) m k)) \<and>
    (2 * ?L + 1 < n \<longrightarrow> disk_log start m' = [])"
  proof cases
    case 1
    then have m': "m' = apply_writes (log_part start new hs n) m" by (simp add: m'_def commit_writes_def take_log_part)
    have "disk_log start m' = []" unfolding m'
      using disk_log_cong [of _ start m] apply_out [OF log_part_area(2) [OF assms(1) 1]] assms(2) by simp
    then show ?thesis using 1 area [OF 1] by (simp add: logical_empty) (simp add: m')
  next
    case 2
    define j where "j = n - (?L + 1)"
    have j: "n = ?L + 1 + j" "j \<le> ?L" using 2 by (simp_all add: j_def)
    have d1: "disk_log start ?m1 = hs" using disk_log_encode [OF assms(4,5)] assms(3) by simp
    have t: "home_part start ?m1 hs ?L = transaction new hs" by (rule home_transaction) (rule logged_blocks [OF assms(1)])
    have "take n (commit_writes start new hs (encode_head lh hb) (encode_head lh0 bs)) =
      log_part start new hs ?L @ [(?k0, encode_head lh hb)] @ take j (transaction new hs)"
      using j by (simp add: commit_writes_def transaction_def)
    then have m': "m' = apply_writes (home_part start ?m1 hs j) ?m1"
      using take_home [OF j(2), of start ?m1 hs] unfolding t by (simp add: m'_def)
    have "logical start m' = apply_writes (transaction new hs) ?m1"
      unfolding m' logical_install(2) [OF d1 assms(1) j(2)] by (simp only: logical_def d1 t)
    moreover have "apply_writes (transaction new hs) ?m1 k = apply_writes (transaction new hs) m k" if "k \<notin> log_area start"
      using area [of ?L k] that by (intro apply_cong) auto
    ultimately show ?thesis using logical_install(1) [OF d1 assms(1) j(2)] 2 unfolding m' [symmetric] by auto
  next
    case 3
    have m': "m' = (apply_writes (transaction new hs) ?m1)(?k0 := encode_head lh0 bs)"
      using 3 by (simp add: m'_def commit_writes_def transaction_def)
    note l = logical_cleared [OF assms(6,7), of start "apply_writes (transaction new hs) ?m1", folded m']
    have "?m1 k = m k" "k \<noteq> ?k0" if "k \<notin> log_area start" using area [of ?L k] that zero_area [of start] by auto
    then have "apply_writes (transaction new hs) ?m1 k = apply_writes (transaction new hs) m k" "k \<noteq> ?k0" if "k \<notin> log_area start"
      using that apply_cong [of k "transaction new hs" ?m1 m] by blast+
    then show ?thesis using l 3 by (auto simp: m' simp del: fun_upd_apply) (auto simp: m')
  qed
  then show "disk_log start m' = [] \<or> disk_log start m' = hs"
    "k \<notin> log_area start \<Longrightarrow> logical start m' k = (if n \<le> length hs then m k else apply_writes (transaction new hs) m k)"
    "2 * length hs + 1 < n \<Longrightarrow> disk_log start m' = []" by blast+
qed

section \<open>Properties\<close>

text \<open>
  A machine that has been restarted on the disk contents \<open>m\<close>: the cache is empty, nobody holds a lock and
  the log is set up for device \<open>d\<close> and block \<open>start\<close>.
\<close>

definition booted :: "uint32 \<Rightarrow> int \<Rightarrow> (uint64 \<Rightarrow> uint8 list) \<Rightarrow> nat \<Rightarrow> 'z logged_scheme \<Rightarrow> bool" where
  "booted d start m p t \<longleftrightarrow> d \<noteq> 0 \<and> quiet p t \<and> (\<exists>xs. bcache_inv t xs) \<and> log_dev (log t) = d \<and> log_start (log t) = start
     \<and> platter t = m \<and> (\<forall>k. length (m k) = BSIZE)
     \<and> (\<forall>b<NBUF. b_dev (bufs t b) = 0 \<and> b_refcnt (bufs t b) = 0 \<and> sl_locked (slocks t (SLEEP_BUF b)) = 0)"

lemma booted_pinned: "booted d start m p t \<Longrightarrow> pinned d new {} {} p t"
  by (auto simp: booted_def pinned_def cache_refs_def cache_data_def cache_locks_def)

lemma recover_booted:
  assumes "booted d start m p t" "serves W" "log_geom start (disk_log start m)"
  shows "\<exists>t' lh bs. recover_from_log W t = Ok t' \<and> lh_n lh = 0 \<and> length bs = BSIZE \<and> disk_log start (platter t') = []
    \<and> writes t' = writes t @ home_part start m (disk_log start m) (length (disk_log start m)) @ [(sector (logblk start 0), encode_head lh bs)]
    \<and> platter t' = (logical start m)(sector (logblk start 0) := encode_head lh bs)"
proof -
  have b: "log_dev (log t) = d" "log_start (log t) = start" "platter t = m" using assms(1) by (simp_all add: booted_def)
  obtain t' lh bs where t': "recover_from_log W t = Ok t'" "medium t' = medium t" "lh_n lh = 0" "length bs = BSIZE"
    "writes t' = writes t @ home_part start m (disk_log start m) (length (disk_log start m)) @ [(sector (logblk start 0), encode_head lh bs)]"
    using recover_cal [OF booted_pinned [OF assms(1)] assms(2) b(1,2) refl, of "\<lambda>_. []"] assms(3) unfolding b(3) by blast
  have "platter t' = (logical start m)(sector (logblk start 0) := encode_head lh bs)"
    using t'(2,5) b(3) by (simp add: platter_def logical_def)
  with logical_cleared(1) [OF t'(4,3)] show ?thesis using t' by auto
qed

text \<open>A device that keeps the contract, and a machine on which a transaction of one block is ready to commit.\<close>

definition disk_world :: "'z logged_scheme world" where
  "disk_world = \<lparr>others = (\<lambda>s.
     let i = unat (dk_avail_ring (disk s) (unat (dk_avail_idx (disk s) - 1) mod NUM));
         b = the (i_b (dk_info (disk s) i)); r = dk_ops (disk s) i; u = bufs s b;
         out = (rq_type r = VIRTIO_BLK_T_OUT)
     in Ok (s\<lparr>bufs := (bufs s)(b := u\<lparr>b_disk := 0, b_data := (if out then b_data u else platter s (rq_sector r))\<rparr>),
               writes := writes s @ (if out then [(rq_sector r, b_data u)] else [])\<rparr>)), rounds = 1\<rparr>"

lemma disk_world_serves: "serves disk_world"
proof -
  have "\<exists>s'. others disk_world s = Ok s' \<and> holds_only {PROC p} p s' \<and> completed b write s s'"
    if h: "holds_only {PROC p} p s" and r: "requested s b write" for p s b "write"
  proof -
    obtain i where i: "i < NUM" "dk_avail_ring (disk s) (unat (dk_avail_idx (disk s) - 1) mod NUM) = of_nat i"
      "dk_ops (disk s) i = \<lparr>rq_type = (if write then VIRTIO_BLK_T_OUT else VIRTIO_BLK_T_IN), rq_reserved = 0,
          rq_sector = sector (b_blockno (bufs s b))\<rparr>" "i_b (dk_info (disk s) i) = Some b"
      using r unfolding requested_def by blast
    have "unat (of_nat i :: uint16) = i" using i(1) by (simp add: unat_of_nat)
    then show ?thesis using h i
      by (auto simp: disk_world_def Let_def completed_def holds_only_def machine_ops VIRTIO_BLK_T_OUT_def VIRTIO_BLK_T_IN_def)
  qed
  then show ?thesis by (auto simp: serves_def disk_world_def)
qed

definition crash_machine :: "(nat \<Rightarrow> buf) \<Rightarrow> logheader \<Rightarrow> (uint64 \<Rightarrow> uint8 list) \<Rightarrow> logged" where
  "crash_machine bs lh m = (vdisk.extend sample_cache (logged.fields
     \<lparr>log_start = 100, log_size = 30, log_outstanding = 0, log_committing = 0, log_dev = 1, log_lh = lh\<rparr>))
     \<lparr>bufs := bs, medium := m\<rparr>"

definition blank :: "uint64 \<Rightarrow> uint8 list" where
  "blank = (\<lambda>_. replicate BSIZE 0)"

definition ready_buf :: "nat \<Rightarrow> buf" where
  "ready_buf b = (if b = 3 then (sample_buf b)\<lparr>b_refcnt := 1, b_data := replicate BSIZE 1\<rparr> else sample_buf b)"

definition ready :: logged where
  "ready = crash_machine ready_buf \<lparr>lh_n = 1, lh_block = (\<lambda>_. 7)\<rparr> blank"

definition restarted :: "(uint64 \<Rightarrow> uint8 list) \<Rightarrow> logged" where
  "restarted m = crash_machine (\<lambda>b. (sample_buf b)\<lparr>b_dev := 0\<rparr>) \<lparr>lh_n = 0, lh_block = (\<lambda>_. 0)\<rparr> m"

lemma crash_machine_fields [simp]:
  "bufs (crash_machine bs lh m) = bs" "platter (crash_machine bs lh m) = m" "writes (crash_machine bs lh m) = []"
  "log_dev (log (crash_machine bs lh m)) = 1" "log_start (log (crash_machine bs lh m)) = 100" "log_lh (log (crash_machine bs lh m)) = lh"
  "sl_locked (slocks (crash_machine bs lh m) lk) = 0" "quiet 0 (crash_machine bs lh m)"
  by (simp_all add: crash_machine_def logged.defs platter_def quiet_def holds_only_def sample_cache_defs sample_dev_def machine_ops)

lemma crash_machine_inv:
  assumes "bs = (bufs sample_cache)(b := f (bufs sample_cache b))" "\<And>u. b_next (f u) = b_next u \<and> b_prev (f u) = b_prev u"
    "\<And>c. c < NBUF \<Longrightarrow> c \<noteq> 3 \<Longrightarrow> b_dev (bs c) = 0"
  shows "bcache_inv (crash_machine bs lh m) (rev [0..<NBUF])"
proof -
  have "nx (crash_machine bs lh m) = nx sample_cache" "pv (crash_machine bs lh m) = pv sample_cache"
    using assms(1,2) by (simp_all add: nx_def pv_def fun_eq_iff)
  moreover have "a = c" if "a < NBUF" "c < NBUF" "b_dev (bs a) \<noteq> 0" "b_dev (bs c) = b_dev (bs a)" for a c
    using assms(3) [of a] assms(3) [of c] that by metis
  ultimately show ?thesis using sample_cache_inv by (auto simp: bcache_inv_def blist_def is_block_def)
qed

lemma ready_geom: "log_geom 100 [7]"
proof -
  have "(7 :: uint32) \<noteq> logblk 100 i" if "i < LOGSIZE" for i
  proof
    assume "7 = logblk 100 i"
    moreover have "logblk 100 i = of_nat (100 + i)" by (simp add: logblk_def)
    ultimately have "unat (7 :: uint32) = unat (of_nat (100 + i) :: uint32)" by (rule arg_cong [OF trans])
    then show False using that by (simp add: unat_of_nat del: of_nat_add)
  qed
  then show ?thesis by (simp add: log_geom_def)
qed

lemma blank_log: "disk_log start blank = []"
proof -
  have "data32 (blank k) 0 = 0" for k by (simp add: data32_def blank_def eval_nat_numeral)
  then show ?thesis by (simp add: disk_log_def decode_head_def log_blocks_def)
qed

lemma ready_pinned: "pinned 1 (\<lambda>_. replicate BSIZE 1) {7} {} 0 ready"
proof -
  have "bcache_inv ready (rev [0..<NBUF])" unfolding ready_def
    by (rule crash_machine_inv [where b = 3 and f = "\<lambda>u. u\<lparr>b_refcnt := 1, b_data := replicate BSIZE 1\<rparr>"])
      (auto simp: ready_buf_def sample_cache_fields sample_buf_def)
  moreover have "\<exists>b<NBUF. is_block 1 7 (ready_buf b)" by (rule exI [of _ 3]) (simp add: is_block_def ready_buf_def sample_buf_def)
  ultimately show ?thesis
    by (auto simp: pinned_def cache_refs_def cache_data_def cache_locks_def ready_def)
      (auto simp: ready_buf_def sample_buf_def blank_def split: if_splits)
qed

lemma restarted_booted: "(\<And>k. length (m k) = BSIZE) \<Longrightarrow> booted 1 100 m 0 (restarted m)"
proof -
  assume len: "\<And>k. length (m k) = BSIZE"
  have "bcache_inv (restarted m) (rev [0..<NBUF])" unfolding restarted_def
    by (rule crash_machine_inv [where b = 3 and f = "\<lambda>u. u\<lparr>b_dev := 0\<rparr>"]) (auto simp: sample_cache_fields sample_buf_def)
  then show ?thesis using len by (auto simp: booted_def restarted_def sample_buf_def)
qed

text \<open>A disk whose log has one committed block.\<close>

definition committed :: "uint64 \<Rightarrow> uint8 list" where
  "committed = blank(sector (logblk 100 0) := encode_head \<lparr>lh_n = 1, lh_block = (\<lambda>_. 7)\<rparr> (replicate BSIZE 0),
     sector (logblk 100 (Suc 0)) := replicate BSIZE 1)"

lemma committed_log:
  "committed (sector (logblk 100 0)) = encode_head \<lparr>lh_n = 1, lh_block = (\<lambda>_. 7)\<rparr> (replicate BSIZE 0)"
  "committed (sector (logblk 100 (Suc 0))) = replicate BSIZE 1"
proof -
  have "sector (logblk 100 0) \<noteq> sector (logblk 100 (Suc 0))"
    using logblk_inj(1) [OF ready_geom, of 0 "Suc 0"] logblk_inj(2) [OF ready_geom, of _ 0] by (simp add: sector_inj)
  then show "committed (sector (logblk 100 0)) = encode_head \<lparr>lh_n = 1, lh_block = (\<lambda>_. 7)\<rparr> (replicate BSIZE 0)"
    "committed (sector (logblk 100 (Suc 0))) = replicate BSIZE 1" by (simp_all add: committed_def)
qed

text \<open>
  C3. A transaction is atomic. \<open>commit\<close>, run on a transaction of fewer than 30 blocks whose new contents
  are pinned in the cache, returns with the new contents on the disk. If the machine stops after any
  number of its disk writes and is restarted, \<open>recover_from_log\<close> returns and leaves every block
  outside the log with its old contents, when the header had not been written yet, and otherwise
  every block with its new contents; never a mixture.
\<close>

theorem commit_crash_atomic:
  assumes "pinned d new (set hs) {} p s" "serves W" "log_dev (log s) = d" "log_start (log s) = start"
    "hs = log_blocks (log_lh (log s))" "hs \<noteq> []" "log_geom start hs" "\<And>h. h \<in> set hs \<Longrightarrow> length (new h) = BSIZE"
    "disk_log start (platter s) = []" "serves W'"
  shows "\<exists>s'. commit W s = Ok s' \<and> disk_log start (platter s') = []
    \<and> (\<forall>k. k \<notin> log_area start \<longrightarrow> platter s' k = apply_writes (transaction new hs) (platter s) k)
    \<and> (\<forall>n t q. booted d start (apply_writes (take n (drop (length (writes s)) (writes s'))) (platter s)) q t \<longrightarrow>
        (\<exists>t'. recover_from_log W' t = Ok t' \<and> disk_log start (platter t') = []
          \<and> (\<forall>k. k \<notin> log_area start \<longrightarrow>
               platter t' k = (if n \<le> length hs then platter s k else apply_writes (transaction new hs) (platter s) k))))"
proof -
  have ok: "head_ok (log_lh (log s))" "0 < lh_n (log_lh (log s))"
    using assms(5-7) by (auto simp: head_ok_def log_geom_def log_blocks_def)
  obtain s' lh hb bs where s': "commit W s = Ok s'" "medium s' = medium s" "lh_n lh = 0" "length hb = BSIZE" "length bs = BSIZE"
    "writes s' = writes s @ commit_writes start new hs (encode_head (log_lh (log s)) hb) (encode_head lh bs)"
    using commit_cal [OF assms(1-4,7,5,8) ok(2)] by blast
  let ?ws = "commit_writes start new hs (encode_head (log_lh (log s)) hb) (encode_head lh bs)"
  note pre = commit_prefix [OF assms(7,9,5) ok(1) s'(4,5,3) refl, where new = new]
  have "platter s' = apply_writes (take (length ?ws) ?ws) (platter s)" using s'(2,6) by (simp add: platter_def)
  moreover have long: "2 * length hs + 1 < length ?ws" by (simp add: commit_writes_def transaction_def)
  ultimately have fin: "disk_log start (platter s') = []"
    "k \<notin> log_area start \<Longrightarrow> platter s' k = apply_writes (transaction new hs) (platter s) k" for k
    using pre(3) [where n = "length ?ws"] pre(2) [where k = k and n = "length ?ws"] by (simp_all add: logical_empty)
  have "\<exists>t'. recover_from_log W' t = Ok t' \<and> disk_log start (platter t') = []
      \<and> (\<forall>k. k \<notin> log_area start \<longrightarrow>
           platter t' k = (if n \<le> length hs then platter s k else apply_writes (transaction new hs) (platter s) k))"
    if b: "booted d start (apply_writes (take n ?ws) (platter s)) q t" for n t q
  proof -
    have "log_geom start []" using assms(7) by (simp add: log_geom_def)
    then have g: "log_geom start (disk_log start (apply_writes (take n ?ws) (platter s)))" using pre(1) [where n = n] assms(7) by metis
    obtain t' x where t': "recover_from_log W' t = Ok t'" "disk_log start (platter t') = []"
      "platter t' = (logical start (apply_writes (take n ?ws) (platter s)))(sector (logblk start 0) := x)"
      using recover_booted [OF b assms(10) g] by blast
    have "platter t' k = (if n \<le> length hs then platter s k else apply_writes (transaction new hs) (platter s) k)"
      if "k \<notin> log_area start" for k
      using pre(2) [OF that, where n = n] that zero_area [of start] t'(3) by (metis fun_upd_other)
    with t' show ?thesis by blast
  qed
  then show ?thesis using s'(1,6) fin by (intro exI [of _ s']) simp
qed

theorem commit_crash_atomic_witness:
  "\<exists>s' t'. commit disk_world ready = Ok s' \<and> platter s' (sector 7) = replicate BSIZE 1
    \<and> recover_from_log disk_world (restarted blank) = Ok t' \<and> platter t' (sector 7) = replicate BSIZE 0"
proof -
  have r: "log_dev (log ready) = 1" "log_start (log ready) = 100" "log_blocks (log_lh (log ready)) = [7]" "platter ready = blank" "writes ready = []"
    by (simp_all add: ready_def log_blocks_def)
  have "pinned 1 (\<lambda>_. replicate BSIZE 1) (set [7]) {} 0 ready" using ready_pinned by simp
  note t = commit_crash_atomic [OF this disk_world_serves r(1,2) r(3) [symmetric] _ ready_geom _ _ disk_world_serves, unfolded r(4,5)]
  let ?tr = "apply_writes (transaction (\<lambda>_. replicate BSIZE 1) [7]) blank"
  obtain s' where s': "commit disk_world ready = Ok s'" "\<forall>k. k \<notin> log_area 100 \<longrightarrow> platter s' k = ?tr k"
    "\<forall>n (t :: logged) q. booted 1 100 (apply_writes (take n (drop (length ([] :: (uint64 \<times> uint8 list) list)) (writes s'))) blank) q t \<longrightarrow>
      (\<exists>t'. recover_from_log disk_world t = Ok t' \<and> disk_log 100 (platter t') = [] \<and> (\<forall>k. k \<notin> log_area 100 \<longrightarrow>
        platter t' k = (if n \<le> length [7 :: uint32] then blank k else ?tr k)))"
    using t blank_log by fastforce
  have k: "sector 7 \<notin> log_area 100" using home_outside [OF ready_geom, of 1 blank] by (auto simp: fst_home)
  have "booted 1 100 blank 0 (restarted blank)" by (rule restarted_booted) (simp add: blank_def)
  then have "\<exists>t'. recover_from_log disk_world (restarted blank) = Ok t' \<and> (\<forall>k. k \<notin> log_area 100 \<longrightarrow> platter t' k = blank k)"
    using s'(3) [THEN spec, of 0] by auto
  then show ?thesis using s'(1,2) k by (auto simp: transaction_def blank_def)
qed

text \<open>
  C4. \<open>recover_from_log\<close> returns, empties the log and copies every block the header on the disk names to its
  place, and nothing else; and it may itself be interrupted. If the machine stops after any number of the disk writes of
  \<open>recover_from_log\<close> and is restarted, running \<open>recover_from_log\<close> again leaves every block outside the log
  as the first run would have.
\<close>

theorem recovery_idempotent:
  assumes "booted d start m p t" "serves W" "log_geom start (disk_log start m)" "serves W'"
  shows "\<exists>t'. recover_from_log W t = Ok t' \<and> disk_log start (platter t') = []
    \<and> (\<forall>k. k \<notin> log_area start \<longrightarrow> platter t' k = apply_writes
        (map (\<lambda>i. (sector (disk_log start m ! i), m (sector (logblk start (Suc i))))) [0..<length (disk_log start m)]) m k)
    \<and> (\<forall>n u q. booted d start (apply_writes (take n (drop (length (writes t)) (writes t'))) m) q u \<longrightarrow>
        (\<exists>u'. recover_from_log W' u = Ok u' \<and> disk_log start (platter u') = []
          \<and> (\<forall>k. k \<notin> log_area start \<longrightarrow> platter u' k = platter t' k)))"
proof -
  let ?hs = "disk_log start m" and ?k0 = "sector (logblk start 0)"
  obtain t' lh bs where t': "recover_from_log W t = Ok t'" "disk_log start (platter t') = []" "lh_n lh = 0" "length bs = BSIZE"
    "writes t' = writes t @ home_part start m ?hs (length ?hs) @ [(?k0, encode_head lh bs)]"
    "platter t' = (logical start m)(?k0 := encode_head lh bs)"
    using recover_booted [OF assms(1-3)] by blast
  let ?ws = "home_part start m ?hs (length ?hs) @ [(?k0, encode_head lh bs)]"
  have pre: "log_geom start (disk_log start (apply_writes (take n ?ws) m)) \<and>
    (\<forall>k. k \<notin> log_area start \<longrightarrow> logical start (apply_writes (take n ?ws) m) k = logical start m k)" for n
  proof (cases "n \<le> length ?hs")
    case True
    then show ?thesis using logical_install [OF refl assms(3) True] assms(3) by (simp add: take_home)
  next
    case False
    then have "apply_writes (take n ?ws) m = (logical start m)(?k0 := encode_head lh bs)" by (simp add: logical_def)
    then show ?thesis using logical_cleared [OF t'(4,3), of start "logical start m"] assms(3) zero_area [of start]
      by (auto simp: log_geom_def)
  qed
  have "\<exists>u'. recover_from_log W' u = Ok u' \<and> disk_log start (platter u') = []
      \<and> (\<forall>k. k \<notin> log_area start \<longrightarrow> platter u' k = platter t' k)"
    if b: "booted d start (apply_writes (take n ?ws) m) q u" for n u q
  proof -
    obtain u' x where u': "recover_from_log W' u = Ok u'" "disk_log start (platter u') = []"
      "platter u' = (logical start (apply_writes (take n ?ws) m))(?k0 := x)"
      using recover_booted [OF b assms(4) conjunct1 [OF pre]] by blast
    have "platter u' k = platter t' k" if k: "k \<notin> log_area start" for k
    proof -
      have "k \<noteq> ?k0" using k zero_area [of start] by metis
      then show ?thesis using pre [of n] k u'(3) t'(6) by simp
    qed
    with u' show ?thesis by blast
  qed
  moreover have "platter t' k = logical start m k" if "k \<notin> log_area start" for k
    using that zero_area [of start] t'(6) by (metis fun_upd_other)
  ultimately show ?thesis using t'(1,2,5) by (intro exI [of _ t']) (simp add: logical_def home_part_def)
qed

theorem recovery_idempotent_witness:
  "\<exists>t'. recover_from_log disk_world (restarted committed) = Ok t' \<and> platter t' (sector 7) = replicate BSIZE 1"
proof -
  have b: "booted 1 100 committed 0 (restarted committed)"
    by (rule restarted_booted) (simp add: committed_def blank_def decode_encode_head(3) head_ok_def)
  have d: "disk_log 100 committed = [7]"
    using disk_log_encode [of "\<lparr>lh_n = 1, lh_block = (\<lambda>_. 7)\<rparr>" "replicate BSIZE 0" committed 100] committed_log(1)
    by (simp add: head_ok_def log_blocks_def)
  have k: "sector 7 \<notin> log_area 100" using home_outside [OF ready_geom, of 1 blank] by (auto simp: fst_home)
  show ?thesis using recovery_idempotent [OF b disk_world_serves _ disk_world_serves] ready_geom k committed_log(2) by (auto simp: d)
qed

end
