(* ===== verification/Dispatch.thy ===== *)
theory Dispatch
  imports Lockset
begin

text \<open>
  The scheduler is fair: one round over the process table runs every process that is runnable when
  the round begins. The state has one more field, the processes the hart has been given to, the
  newest last.
\<close>

record runlog = proctab +
  ran :: "nat list"

text \<open>
  What the scheduler relies on: a process that is switched to gives the hart back with its own lock
  held and no other, and it does not stop another process from being runnable.
\<close>

definition gives_back :: "runlog world \<Rightarrow> bool" where
  "gives_back run \<longleftrightarrow> (\<forall>p s. holds_only {PROC p} p s \<longrightarrow> p_state (procs s p) = RUNNING \<longrightarrow>
     (\<exists>s'. others run s = Ok s' \<and> holds_only {PROC p} p s' \<and> ran s' = ran s @ [p]
       \<and> (\<forall>q. q \<noteq> p \<longrightarrow> p_state (procs s q) = RUNNABLE \<longrightarrow> p_state (procs s' q) = RUNNABLE)))"

definition idle_hart :: "'z machine_scheme \<Rightarrow> bool" where
  "idle_hart s \<longleftrightarrow> (\<forall>lk. lock_free lk s) \<and> noff (mycpu s) = 0"

lemma idle_cpu_ok: "idle_hart s \<Longrightarrow> cpu_ok s"
  by (simp add: idle_hart_def cpu_ok_def)

lemma idle_settle [simp]: "idle_hart (settle s) = idle_hart s"
  by (simp add: idle_hart_def settle_def lock_free_def machine_ops)

lemma ran_settle [simp]: "ran (settle s) = ran s"
  by (simp add: settle_def machine_ops)

lemma mach_ran: "mach s s' \<Longrightarrow> ran s' = ran s"
  by (drule mach_upd, drule arg_cong [where f = ran], simp)

text \<open>The state in which the scheduler switches to \<open>p\<close>, and the one it makes of what \<open>p\<close> leaves.\<close>

lemma dispatch_holds:
  assumes "idle_hart s"
  shows "holds_only {PROC p} p (set_mycpu (\<lambda>c. c\<lparr>cpu_proc := Some p\<rparr>) (set_proc p f (locking (PROC p) s)))"
  using assms by (auto simp: idle_hart_def holds_only_def lock_free_def locking_def push_off_def set_proc_def machine_ops Let_def)

lemma release_back:
  assumes "holds_only {PROC p} p s"
  shows "\<exists>s'. release (PROC p) (set_mycpu (\<lambda>c. c\<lparr>cpu_proc := None\<rparr>) s) = Ok s' \<and> idle_hart s'
    \<and> mach (set_mycpu (\<lambda>c. c\<lparr>cpu_proc := None\<rparr>) s) s'"
proof -
  let ?u = "set_mycpu (\<lambda>c. c\<lparr>cpu_proc := None\<rparr>) s"
  have u: "locks ?u (PROC p) = \<lparr>locked = 1, lk_cpu = Some (tp s)\<rparr>" "\<And>lk. lk \<noteq> PROC p \<Longrightarrow> locks ?u lk = \<lparr>locked = 0, lk_cpu = None\<rparr>"
    "noff (mycpu ?u) = 1" "\<not> intr_get ?u" "tp ?u = tp s"
    using assms by (auto simp: holds_only_def machine_ops)
  let ?t = "?u\<lparr>locks := (locks ?u)(PROC p := \<lparr>locked = 0, lk_cpu = None\<rparr>), cpus := (cpus ?u)(tp s := (mycpu ?u)\<lparr>noff := 0\<rparr>)\<rparr>"
  let ?v = "if intena (mycpu ?u) then intr_on ?t else ?t"
  have "release (PROC p) ?u = Ok ?v"
    using u by (auto simp: release_def holding_def pop_off_def machine_ops Let_def)
  moreover have "idle_hart ?v" using u by (auto simp: idle_hart_def lock_free_def machine_ops)
  moreover have "mach ?u ?v" by (simp add: mach_def machine_ops)
  ultimately show ?thesis by blast
qed

lemma schedule_one_spec:
  assumes "idle_hart s" "gives_back run"
  shows "\<exists>s'. schedule_one run p (found, s) = Ok (found \<or> p_state (procs s p) = RUNNABLE, s') \<and> idle_hart s'
    \<and> ran s' = ran s @ (if p_state (procs s p) = RUNNABLE then [p] else [])
    \<and> (\<forall>q. q \<noteq> p \<longrightarrow> p_state (procs s q) = RUNNABLE \<longrightarrow> p_state (procs s' q) = RUNNABLE)"
proof -
  let ?l = "locking (PROC p) s"
  have free: "lock_free (PROC p) s" using assms(1) by (simp add: idle_hart_def)
  have l: "acquire (PROC p) s = Ok ?l" "procs ?l = procs s" "ran ?l = ran s"
    using acquire_free [OF free] by (simp_all add: locking_def push_off_def machine_ops Let_def)
  show ?thesis
  proof (cases "p_state (procs s p) = RUNNABLE")
    case False
    then have "schedule_one run p (found, s) = Ok (found, settle s)"
      using l release_locking [OF idle_cpu_ok [OF assms(1)] free] by (simp add: schedule_one_def)
    moreover have "procs (settle s) = procs s" by (rule mach_procs [OF mach_settle])
    ultimately show ?thesis using assms(1) False by simp
  next
    case True
    define t where "t = set_mycpu (\<lambda>c. c\<lparr>cpu_proc := Some p\<rparr>) (set_proc p (\<lambda>q. q\<lparr>p_state := RUNNING\<rparr>) ?l)"
    have h: "holds_only {PROC p} p t" unfolding t_def by (rule dispatch_holds [OF assms(1)])
    have t: "procs t = (procs s)(p := (procs s p)\<lparr>p_state := RUNNING\<rparr>)" "ran t = ran s"
      using l(2,3) by (simp_all add: t_def set_proc_def set_mycpu_def)
    obtain u where u: "others run t = Ok u" "holds_only {PROC p} p u" "ran u = ran t @ [p]"
      "\<forall>q. q \<noteq> p \<longrightarrow> p_state (procs t q) = RUNNABLE \<longrightarrow> p_state (procs u q) = RUNNABLE"
      using assms(2) h t unfolding gives_back_def by fastforce
    obtain v where v: "release (PROC p) (set_mycpu (\<lambda>c. c\<lparr>cpu_proc := None\<rparr>) u) = Ok v" "idle_hart v"
      "mach (set_mycpu (\<lambda>c. c\<lparr>cpu_proc := None\<rparr>) u) v"
      using release_back [OF u(2)] by blast
    have "schedule_one run p (found, s) = Ok (True, v)"
      using l(1,2) True u(1) v(1) by (simp add: schedule_one_def Let_def t_def)
    moreover have "procs v = procs u" using mach_procs [OF v(3)] by (simp add: set_mycpu_def)
    moreover have "ran v = ran u" using mach_ran [OF v(3)] by (simp add: set_mycpu_def)
    ultimately show ?thesis using True u(3,4) v(2) t by auto
  qed
qed

lemma round_spec:
  assumes "idle_hart s" "gives_back run"
  shows "\<exists>s' rs. for_upto 0 NPROC (schedule_one run) (False, s) = Ok (rs \<noteq> [], s') \<and> idle_hart s' \<and> ran s' = ran s @ rs
    \<and> sorted_wrt (<) rs \<and> (\<forall>p<NPROC. p_state (procs s p) = RUNNABLE \<longrightarrow> p \<in> set rs)"
proof -
  let ?P = "\<lambda>j (found, t :: runlog). \<exists>rs. found = (rs \<noteq> []) \<and> idle_hart t \<and> ran t = ran s @ rs \<and> sorted_wrt (<) rs \<and> (\<forall>p\<in>set rs. p < j)
    \<and> (\<forall>p. p_state (procs s p) = RUNNABLE \<longrightarrow> (if p < j then p \<in> set rs else p_state (procs t p) = RUNNABLE))"
  have "\<exists>x. for_upto 0 NPROC (schedule_one run) (False, s) = Ok x \<and> ?P NPROC x"
  proof (rule for_upto_total [where P = ?P])
    show "?P 0 (False, s)" using assms(1) by auto
    fix j and x :: "bool \<times> runlog" assume "?P j x"
    then obtain t rs where x: "x = (rs \<noteq> [], t)" "idle_hart t" "ran t = ran s @ rs" "sorted_wrt (<) rs" "\<forall>p\<in>set rs. p < j"
      "\<forall>p. p_state (procs s p) = RUNNABLE \<longrightarrow> (if p < j then p \<in> set rs else p_state (procs t p) = RUNNABLE)" by auto
    obtain t' where t': "schedule_one run j x = Ok (rs \<noteq> [] \<or> p_state (procs t j) = RUNNABLE, t')" "idle_hart t'"
      "ran t' = ran t @ (if p_state (procs t j) = RUNNABLE then [j] else [])"
      "\<forall>q. q \<noteq> j \<longrightarrow> p_state (procs t q) = RUNNABLE \<longrightarrow> p_state (procs t' q) = RUNNABLE"
      using schedule_one_spec [OF x(2) assms(2), of j "rs \<noteq> []"] x(1) by blast
    let ?rs = "rs @ (if p_state (procs t j) = RUNNABLE then [j] else [])"
    have "\<forall>p. p_state (procs s p) = RUNNABLE \<longrightarrow> (if p < Suc j then p \<in> set ?rs else p_state (procs t' p) = RUNNABLE)"
      using x(6) t'(4) by (auto simp: less_Suc_eq)
    moreover have "sorted_wrt (<) ?rs" "\<forall>p\<in>set ?rs. p < Suc j" using x(4,5) by (auto simp: sorted_wrt_append less_SucI)
    ultimately show "\<exists>x'. schedule_one run j x = Ok x' \<and> ?P (Suc j) x'"
      using t'(1-3) x(3) by (auto intro!: exI [of _ ?rs])
  qed simp
  then show ?thesis by (fastforce split: prod.splits)
qed

section \<open>Property\<close>

text \<open>
  C34. No runnable process waits for ever: one round of \<open>scheduler\<close> returns, and has given the hart to every
  process that was runnable when it began, in the order of the table and to none of them twice,
  whatever the processes do when they run, as long as they give the hart back. The hart goes to
  wait for an interrupt only when there was none.
\<close>

theorem scheduler_round_fair:
  assumes "idle_hart s" "gives_back run"
  shows "\<exists>s' rs. scheduler_round run s = Ok (rs \<noteq> [], s') \<and> ran s' = ran s @ rs \<and> sorted_wrt (<) rs \<and> idle_hart s'
    \<and> (\<forall>p. p < NPROC \<and> p_state (procs s p) = RUNNABLE \<longrightarrow> p \<in> set rs)"
proof -
  have i: "idle_hart (intr_on t) = idle_hart t" "procs (intr_on t) = procs t" "ran (intr_on t) = ran t" for t :: runlog
    by (simp_all add: idle_hart_def lock_free_def machine_ops)
  obtain s' rs where "for_upto 0 NPROC (schedule_one run) (False, intr_on s) = Ok (rs \<noteq> [], s')" "idle_hart s'" "ran s' = ran s @ rs"
    "sorted_wrt (<) rs" "\<forall>p<NPROC. p_state (procs s p) = RUNNABLE \<longrightarrow> p \<in> set rs"
    using round_spec [of "intr_on s", OF _ assms(2)] assms(1) by (auto simp: i)
  then show ?thesis by (intro exI [of _ "if rs \<noteq> [] then s' else intr_on s'"] exI [of _ rs]) (simp add: scheduler_round_def i)
qed

text \<open>A process that is preempted at once.\<close>

definition preempted :: "runlog world" where
  "preempted = \<lparr>others = (\<lambda>s. let p = the (cpu_proc (mycpu s))
     in Ok ((set_proc p (\<lambda>q. q\<lparr>p_state := RUNNABLE\<rparr>) s)\<lparr>ran := ran s @ [p]\<rparr>)), rounds = 0\<rparr>"

lemma preempted_gives_back: "gives_back preempted"
  by (auto simp: gives_back_def preempted_def holds_only_def set_proc_def machine_ops Let_def)

definition sample_run :: runlog where
  "sample_run = proctab.extend (sample_procs\<lparr>procs := (procs sample_procs)(5 := sample_proc\<lparr>p_state := RUNNABLE\<rparr>)\<rparr>) (runlog.fields [])"

theorem scheduler_round_fair_witness:
  "\<exists>s' rs. scheduler_round preempted sample_run = Ok (True, s') \<and> ran s' = rs \<and> 5 \<in> set rs"
proof -
  have "idle_hart sample_run" "ran sample_run = []" "p_state (procs sample_run 5) = RUNNABLE"
    by (simp_all add: sample_run_def proctab.defs runlog.defs sample_procs_def idle_hart_def lock_free_def machine_ops)
  then show ?thesis using scheduler_round_fair [OF _ preempted_gives_back, of sample_run] by force
qed

end
