(* ===== verification/Grep.thy ===== *)
theory Grep
  imports Prelude
begin

text \<open>
  The search program (\<open>user/grep.c\<close>): its matcher for patterns with \<open>^ . * $\<close>, proved equal to the set of
  strings a pattern stands for, and the loop that reads a file through a buffer of 1024 bytes.

  A pointer to a string is the list of the bytes from it up to the terminating zero byte. The
  system call \<open>read\<close> is an argument \<open>rd\<close>: it takes the number of bytes asked for and the state of
  the outside world, and returns the bytes, or \<open>None\<close> when it fails. What is written to the
  standard output is a list of the blocks written.
\<close>

type_synonym bytes = "uint8 list"

section \<open>The matcher\<close>

text \<open>The characters \<open>^\<close>, \<open>$\<close>, \<open>*\<close>, \<open>.\<close> and the newline are 94, 36, 42, 46 and 10.\<close>

function (sequential) matchhere :: "bytes \<Rightarrow> bytes \<Rightarrow> bool" and matchstar :: "uint8 \<Rightarrow> bytes \<Rightarrow> bytes \<Rightarrow> bool" where
  "matchhere [] str = True"
| "matchhere (c # re) str =
     (if re \<noteq> [] \<and> hd re = 42 then matchstar c (tl re) str
      else if c = 36 \<and> re = [] then str = []
      else if str \<noteq> [] \<and> (c = 46 \<or> c = hd str) then matchhere re (tl str)
      else False)"
| "matchstar c re str =
     (if matchhere re str then True
      else if str \<noteq> [] \<and> (hd str = c \<or> c = 46) then matchstar c re (tl str)
      else False)"
  by pat_completeness auto
termination
  by (relation "measures [\<lambda>x. case x of Inl (re, str) \<Rightarrow> 2 * length re | Inr (c, re, str) \<Rightarrow> 2 * length re + 1,
      \<lambda>x. case x of Inl (re, str) \<Rightarrow> length str | Inr (c, re, str) \<Rightarrow> length str]")
    (auto simp: neq_Nil_conv)

primrec match_from :: "bytes \<Rightarrow> bytes \<Rightarrow> bool" where
  "match_from re [] = matchhere re []"
| "match_from re (c # str) = (if matchhere re (c # str) then True else match_from re str)"

definition match :: "bytes \<Rightarrow> bytes \<Rightarrow> bool" where
  "match re str = (if re \<noteq> [] \<and> hd re = 94 then matchhere (tl re) str else match_from re str)"

section \<open>What a pattern stands for\<close>

datatype atom = Lit uint8 | Any

datatype piece = Single atom | Many atom

text \<open>The pieces of a pattern, and whether it ends with the sign for the end of the text.\<close>

definition atom_of :: "uint8 \<Rightarrow> atom" where
  "atom_of c = (if c = 46 then Any else Lit c)"

fun pieces :: "bytes \<Rightarrow> piece list \<times> bool" where
  "pieces [] = ([], False)"
| "pieces [c] = (if c = 36 then ([], True) else ([Single (atom_of c)], False))"
| "pieces (c # d # re) =
     (if d = 42 then let (ps, e) = pieces re in (Many (atom_of c) # ps, e)
      else let (ps, e) = pieces (d # re) in (Single (atom_of c) # ps, e))"

fun atom_set :: "atom \<Rightarrow> uint8 set" where
  "atom_set (Lit c) = {c}"
| "atom_set Any = UNIV"

fun lang :: "piece list \<Rightarrow> bytes set" where
  "lang [] = {[]}"
| "lang (Single a # ps) = {c # w | c w. c \<in> atom_set a \<and> w \<in> lang ps}"
| "lang (Many a # ps) = {u @ w | u w. set u \<subseteq> atom_set a \<and> w \<in> lang ps}"

text \<open>A prefix of the text, and all of it when the pattern asks for the end, is in the language.\<close>

definition prefix_in :: "piece list \<times> bool \<Rightarrow> bytes \<Rightarrow> bool" where
  "prefix_in p str \<longleftrightarrow> (\<exists>u v. str = u @ v \<and> u \<in> lang (fst p) \<and> (snd p \<longrightarrow> v = []))"

lemma prefix_in_nil: "prefix_in ([], e) str \<longleftrightarrow> (e \<longrightarrow> str = [])"
  by (auto simp: prefix_in_def)

lemma prefix_in_single:
  "prefix_in (Single a # ps, e) str \<longleftrightarrow> (case str of [] \<Rightarrow> False | c # t \<Rightarrow> c \<in> atom_set a \<and> prefix_in (ps, e) t)"
  by (cases str) (auto simp: prefix_in_def Cons_eq_append_conv)

lemma prefix_in_many_iff:
  "prefix_in (Many a # ps, e) str \<longleftrightarrow> (\<exists>u w v. str = u @ w @ v \<and> set u \<subseteq> atom_set a \<and> w \<in> lang ps \<and> (e \<longrightarrow> v = []))"
  unfolding prefix_in_def fst_conv snd_conv lang.simps by (simp only: mem_Collect_eq) (metis append_assoc)

lemma prefix_in_many:
  "prefix_in (Many a # ps, e) str \<longleftrightarrow>
     prefix_in (ps, e) str \<or> (case str of [] \<Rightarrow> False | c # t \<Rightarrow> c \<in> atom_set a \<and> prefix_in (Many a # ps, e) t)"
  (is "?l = ?r")
proof
  assume ?l
  then obtain u w v where e: "str = u @ w @ v" "set u \<subseteq> atom_set a" "w \<in> lang ps" "e \<longrightarrow> v = []"
    unfolding prefix_in_many_iff by blast
  show ?r
  proof (cases u)
    case Nil
    then show ?thesis using e by (auto simp: prefix_in_def)
  next
    case (Cons c u')
    then have "prefix_in (Many a # ps, e) (u' @ w @ v)" unfolding prefix_in_many_iff using e(2-4)
      by (intro exI [of _ u'] exI [of _ w] exI [of _ v]) simp
    then show ?thesis using e Cons by simp
  qed
next
  assume ?r
  then consider "prefix_in (ps, e) str" | c t where "str = c # t" "c \<in> atom_set a" "prefix_in (Many a # ps, e) t"
    by (auto split: list.splits)
  then show ?l
  proof cases
    case 1
    then obtain w v where "str = [] @ w @ v" "w \<in> lang ps" "e \<longrightarrow> v = []" by (auto simp: prefix_in_def)
    then show ?thesis unfolding prefix_in_many_iff using empty_subsetI set_empty by metis
  next
    case 2
    then obtain u w v where "t = u @ w @ v" "set u \<subseteq> atom_set a" "w \<in> lang ps" "e \<longrightarrow> v = []"
      unfolding prefix_in_many_iff by blast
    then show ?thesis unfolding prefix_in_many_iff using 2(1,2)
      by (intro exI [of _ "c # u"] exI [of _ w] exI [of _ v]) simp
  qed
qed

lemma in_atom_of: "d \<in> atom_set (atom_of c) \<longleftrightarrow> c = 46 \<or> c = d"
  by (auto simp: atom_of_def)

lemma matcher_correct:
  "matchhere re str = prefix_in (pieces re) str"
  "matchstar c re str = prefix_in (Many (atom_of c) # fst (pieces re), snd (pieces re)) str"
proof (induction re str and c re str rule: matchhere_matchstar.induct)
  case (1 str)
  then show ?case by (simp add: prefix_in_nil)
next
  case (2 c re str)
  show ?case
  proof (cases re)
    case Nil
    then show ?thesis using 2(2) by (cases str) (auto simp: prefix_in_nil prefix_in_single in_atom_of)
  next
    case (Cons d re')
    obtain ps e where pe: "pieces re' = (ps, e)" "pieces re = (fst (pieces re), snd (pieces re))" by (cases "pieces re'") auto
    show ?thesis
    proof (cases "d = 42")
      case True
      then show ?thesis using 2(1) Cons pe by simp
    next
      case False
      then have p: "pieces (c # re) = (Single (atom_of c) # fst (pieces re), snd (pieces re))"
        using Cons by (simp add: split_beta)
      show ?thesis using 2(2) False Cons unfolding p prefix_in_single
        by (cases str) (auto simp: in_atom_of)
    qed
  qed
next
  case (3 c re str)
  show ?case using 3 by (subst prefix_in_many) (auto simp: in_atom_of split: list.splits)
qed

section \<open>Searching a file\<close>

text \<open>
  The loop over the complete lines in the buffer, from \<open>p\<close> on: \<open>strchr\<close> looks for the newline up to the
  first zero byte. The results are what is written and the bytes that stay.
\<close>

function grep_scan :: "bytes \<Rightarrow> bytes \<Rightarrow> bytes \<times> bytes" where
  "grep_scan pattern p =
     (let line = takeWhile (\<lambda>c. c \<noteq> 10 \<and> c \<noteq> 0) p; q = drop (length line) p in
      if q \<noteq> [] \<and> hd q = 10
      then let (out, rest) = grep_scan pattern (tl q)
           in ((if match pattern line then line @ [10] else []) @ out, rest)
      else ([], p))"
  by pat_completeness auto
termination
  by (relation "measure (length \<circ> snd)") (auto simp: neq_Nil_conv)

declare grep_scan.simps [simp del]

text \<open>
  The loop that fills the buffer; \<open>buf\<close> is the part of it in use. It ends when \<open>read\<close> returns 0 or fails;
  a \<open>read\<close> that always returns something keeps it going, hence the bound \<open>fuel\<close>.
\<close>

primrec grep :: "nat \<Rightarrow> (nat \<Rightarrow> 'w \<Rightarrow> bytes option \<times> 'w) \<Rightarrow> bytes \<Rightarrow> bytes \<Rightarrow> 'w \<Rightarrow> (bytes \<times> 'w) res" where
  "grep 0 rd pattern buf w = Hang"
| "grep (Suc fuel) rd pattern buf w =
     (case rd (1024 - length buf - 1) w of
        (None, w) \<Rightarrow> Ok ([], w)
      | (Some bs, w) \<Rightarrow>
          if bs = [] then Ok ([], w)
          else let (out, rest) = grep_scan pattern (buf @ bs)
               in bnd (grep fuel rd pattern rest w) (\<lambda>(out', w). Ok (out @ out', w)))"

text \<open>
  The whole program: \<open>op\<close> is the system call \<open>open\<close>, \<open>cl\<close> is \<open>close\<close>. The result is the exit status and what was
  written to the descriptors 1 and 2, byte by byte.
\<close>

definition to_fd :: "int \<Rightarrow> bytes \<Rightarrow> (int \<times> uint8) list" where
  "to_fd fd bs = map (Pair fd) bs"

primrec grep_files :: "nat \<Rightarrow> (int \<Rightarrow> nat \<Rightarrow> 'w \<Rightarrow> bytes option \<times> 'w) \<Rightarrow> (bytes \<Rightarrow> 'w \<Rightarrow> int \<times> 'w) \<Rightarrow> (int \<Rightarrow> 'w \<Rightarrow> 'w) \<Rightarrow> bytes \<Rightarrow>
    bytes list \<Rightarrow> 'w \<Rightarrow> (int \<times> (int \<times> uint8) list \<times> 'w) res" where
  "grep_files fuel rd op cl pattern [] w = Ok (0, [], w)"
| "grep_files fuel rd op cl pattern (f # fs) w =
     (case op f w of (fd, w) \<Rightarrow>
        if fd < 0 then Ok (1, to_fd 1 (map of_char ''grep: cannot open '' @ f @ [10]), w)
        else bnd (grep fuel (rd fd) pattern [] w) (\<lambda>(out, w).
             bnd (grep_files fuel rd op cl pattern fs (cl fd w)) (\<lambda>(st, out', w). Ok (st, to_fd 1 out @ out', w))))"

definition grep_main :: "nat \<Rightarrow> (int \<Rightarrow> nat \<Rightarrow> 'w \<Rightarrow> bytes option \<times> 'w) \<Rightarrow> (bytes \<Rightarrow> 'w \<Rightarrow> int \<times> 'w) \<Rightarrow> (int \<Rightarrow> 'w \<Rightarrow> 'w) \<Rightarrow>
    bytes list \<Rightarrow> 'w \<Rightarrow> (int \<times> (int \<times> uint8) list \<times> 'w) res" where
  "grep_main fuel rd op cl argv w =
     (if length argv \<le> 1 then Ok (1, to_fd 2 (map of_char ''usage: grep pattern [file ...]'' @ [10]), w)
      else if length argv \<le> 2
      then bnd (grep fuel (rd 0) (argv ! 1) [] w) (\<lambda>(out, w). Ok (0, to_fd 1 out, w))
      else grep_files fuel rd op cl (argv ! 1) (drop 2 argv) w)"

section \<open>Lines\<close>

text \<open>The complete lines of a text, and what follows the last newline.\<close>

fun split_lines :: "bytes \<Rightarrow> bytes list \<times> bytes" where
  "split_lines [] = ([], [])"
| "split_lines (c # cs) =
     (let (ls, r) = split_lines cs in
      if c = 10 then ([] # ls, r)
      else case ls of [] \<Rightarrow> ([], c # r) | l # ls' \<Rightarrow> ((c # l) # ls', r))"

abbreviation lines_of :: "bytes \<Rightarrow> bytes list" where "lines_of bs \<equiv> fst (split_lines bs)"

lemma split_lines_line: "10 \<notin> set l \<Longrightarrow> split_lines (l @ 10 # bs) = (l # lines_of bs, snd (split_lines bs))"
  by (induction l) (auto simp: split_beta)

lemma split_lines_none: "10 \<notin> set l \<Longrightarrow> split_lines l = ([], l)"
  by (induction l) auto

lemma split_lines_append:
  "split_lines (as @ bs) = (lines_of as @ lines_of (snd (split_lines as) @ bs), snd (split_lines (snd (split_lines as) @ bs)))"
proof (induction "length as" arbitrary: as rule: less_induct)
  case less
  show ?case
  proof (cases "10 \<in> set as")
    case True
    then obtain l as' where as: "as = l @ 10 # as'" "10 \<notin> set l" by (metis split_list_first)
    then have "split_lines (as' @ bs) = (lines_of as' @ lines_of (snd (split_lines as') @ bs), snd (split_lines (snd (split_lines as') @ bs)))"
      by (intro less) simp
    then show ?thesis using split_lines_line [OF as(2)] as(1) by simp
  qed (simp add: split_lines_none)
qed

lemma split_lines_join: "concat (map (\<lambda>l. l @ [10]) (lines_of bs)) @ snd (split_lines bs) = bs"
  by (induction bs) (auto simp: split_beta split: list.splits)

lemma rest_no_newline: "10 \<notin> set (snd (split_lines bs))"
  by (induction bs) (auto simp: split_beta split: list.splits)

lemma grep_scan_lines:
  "0 \<notin> set bs \<Longrightarrow> grep_scan pattern bs =
     (concat (map (\<lambda>l. l @ [10]) (filter (match pattern) (lines_of bs))), snd (split_lines bs))"
proof (induction "length bs" arbitrary: bs rule: less_induct)
  case less
  let ?l = "takeWhile (\<lambda>c. c \<noteq> 10 \<and> c \<noteq> 0) bs"
  have tw: "?l = takeWhile (\<lambda>c. c \<noteq> 10) bs" using less.prems by (intro takeWhile_cong) auto
  show ?case
  proof (cases "10 \<in> set bs")
    case True
    then obtain l r where bs: "bs = l @ 10 # r" "10 \<notin> set l" by (metis split_list_first)
    then have l: "?l = l" unfolding tw by (auto simp: takeWhile_tail)
    have "grep_scan pattern r = (concat (map (\<lambda>l. l @ [10]) (filter (match pattern) (lines_of r))), snd (split_lines r))"
      using less.prems bs by (intro less.hyps) auto
    then show ?thesis unfolding grep_scan.simps [of pattern bs] l using split_lines_line [OF bs(2)] by (simp add: bs(1) Let_def)
  next
    case False
    then have e: "?l = bs" unfolding tw by (simp add: takeWhile_eq_all_conv) metis
    show ?thesis unfolding grep_scan.simps [of pattern bs] e using split_lines_none [OF False] by (simp add: Let_def)
  qed
qed

section \<open>Properties\<close>

text \<open>
  C35. The matcher is right, and ends on every pattern and text: \<open>match\<close> answers yes exactly when some part of
  the text, at its start if the pattern begins with \<open>^\<close> and up to its end if it ends with \<open>$\<close>, is in the
  language of the pattern, in which a dot stands for every character and a star for any number of
  repetitions of the character before it.
\<close>

theorem match_correct:
  "match re str \<longleftrightarrow>
     (let anchored = (re \<noteq> [] \<and> hd re = 94); (ps, ends) = pieces (if anchored then tl re else re) in
      \<exists>before part after. str = before @ part @ after \<and> part \<in> lang ps
        \<and> (anchored \<longrightarrow> before = []) \<and> (ends \<longrightarrow> after = []))"
proof -
  have mf: "match_from re str \<longleftrightarrow> (\<exists>u v. str = u @ v \<and> prefix_in (pieces re) v)"
    by (induction str) (auto simp: matcher_correct Cons_eq_append_conv)
  obtain ps e where pe: "pieces re = (ps, e)" by (cases "pieces re")
  obtain ps' e' where pe': "pieces (tl re) = (ps', e')" by (cases "pieces (tl re)")
  show ?thesis
  proof (cases "re \<noteq> [] \<and> hd re = 94")
    case True
    then show ?thesis using pe' by (simp add: match_def matcher_correct prefix_in_def Let_def)
  next
    case False
    then have "match re str \<longleftrightarrow> (\<exists>u v. str = u @ v \<and> prefix_in (ps, e) v)" using mf pe by (simp add: match_def) metis
    also have "\<dots> \<longleftrightarrow> (\<exists>u x y. str = u @ x @ y \<and> x \<in> lang ps \<and> (e \<longrightarrow> y = []))" unfolding prefix_in_def by auto
    finally show ?thesis using False pe by (simp only: Let_def if_False prod.case simp_thms)
  qed
qed

theorem match_correct_witness:
  "match [97, 46, 42] [120, 97, 98] \<and>
    (\<exists>before part after. [120, 97, 98] = before @ part @ after \<and> part \<in> lang [Single (Lit 97), Many Any])"
proof -
  have "pieces [97, 46, 42] = ([Single (Lit 97), Many Any], False)" by (simp add: atom_of_def)
  moreover have "match [97, 46, 42] [120, 97, 98]" by (simp add: match_def)
  ultimately show ?thesis using match_correct [of "[97, 46, 42]" "[120, 97, 98]"] by (simp only: list.sel) simp
qed

text \<open>
  A file as \<open>read\<close> delivers it: \<open>content w\<close> is what is still to come, a call returns a piece of it no
  longer than asked for, and nothing only at the end or when nothing was asked for.
\<close>

definition delivers :: "(nat \<Rightarrow> 'w \<Rightarrow> bytes option \<times> 'w) \<Rightarrow> ('w \<Rightarrow> bytes) \<Rightarrow> bool" where
  "delivers rd content \<longleftrightarrow> (\<forall>n w. \<exists>bs w'. rd n w = (Some bs, w') \<and> content w = bs @ content w' \<and> length bs \<le> n
     \<and> (bs = [] \<longrightarrow> n = 0 \<or> content w = []))"

lemma grep_lines:
  assumes "delivers rd content" "0 \<notin> set (buf @ content w)" "10 \<notin> set buf" "length (content w) < fuel"
    "\<And>l. l \<in> set (lines_of (buf @ content w)) \<Longrightarrow> length l < 1023" "length (snd (split_lines (buf @ content w))) < 1023"
  shows "\<exists>w'. content w' = [] \<and> grep fuel rd pattern buf w =
    Ok (concat (map (\<lambda>l. l @ [10]) (filter (match pattern) (lines_of (buf @ content w)))), w')"
  using assms(2-)
proof (induction fuel arbitrary: buf w)
  case (Suc fuel)
  obtain bs w' where r: "rd (1024 - length buf - 1) w = (Some bs, w')" "content w = bs @ content w'"
    "length bs \<le> 1024 - length buf - 1" "bs = [] \<longrightarrow> 1024 - length buf - 1 = 0 \<or> content w = []"
    using assms(1) unfolding delivers_def by blast
  have buf: "length buf < 1023"
  proof (cases "10 \<in> set (content w)")
    case True
    then obtain l c where c: "content w = l @ 10 # c" "10 \<notin> set l" by (metis split_list_first)
    then have "lines_of (buf @ content w) = (buf @ l) # lines_of c"
      using split_lines_line [of "buf @ l" c] Suc.prems(2) by simp
    then show ?thesis using Suc.prems(4) [of "buf @ l"] by simp
  next
    case False
    then show ?thesis using Suc.prems(2,5) split_lines_none [of "buf @ content w"] by simp
  qed
  show ?case
  proof (cases "bs = []")
    case True
    then have "content w = []" using r(4) buf by simp
    then show ?thesis using True r split_lines_none [OF Suc.prems(2)] by auto
  next
    case False
    let ?rest = "snd (split_lines (buf @ bs))"
    have sc: "grep_scan pattern (buf @ bs) = (concat (map (\<lambda>l. l @ [10]) (filter (match pattern) (lines_of (buf @ bs)))), ?rest)"
      using Suc.prems(1) r(2) by (intro grep_scan_lines) auto
    have sp: "split_lines (buf @ content w) =
        (lines_of (buf @ bs) @ lines_of (?rest @ content w'), snd (split_lines (?rest @ content w')))"
      using split_lines_append [of "buf @ bs" "content w'"] r(2) by simp
    have join: "concat (map (\<lambda>l. l @ [10]) (lines_of (buf @ bs))) @ ?rest = buf @ bs" by (rule split_lines_join)
    have "\<exists>w''. content w'' = [] \<and> grep fuel rd pattern ?rest w' =
      Ok (concat (map (\<lambda>l. l @ [10]) (filter (match pattern) (lines_of (?rest @ content w')))), w'')"
    proof (rule Suc.IH)
      have "set ?rest \<subseteq> set (buf @ bs)" using arg_cong [OF join, of set] by auto
      then show "0 \<notin> set (?rest @ content w')" using Suc.prems(1) r(2) by auto
      show "10 \<notin> set ?rest" by (rule rest_no_newline)
      show "length (content w') < fuel" using Suc.prems(3) r(2) False by (cases bs) auto
    qed (use Suc.prems(4,5) sp in auto)
    then show ?thesis using r(1) False sc sp by (auto simp: Let_def)
  qed
qed simp

text \<open>
  C36. On a file without zero bytes whose lines are shorter than 1023 bytes \<open>grep\<close> returns, having read the
  whole file however \<open>read\<close> cuts it into pieces, and has written exactly the lines that match the
  pattern, each with its newline and in the order of the file. Bytes after the last newline are
  never looked at.
\<close>

theorem grep_prints_matching:
  assumes "delivers rd content" "0 \<notin> set (content w)" "length (content w) < fuel"
    "\<And>l. l \<in> set (lines_of (content w)) \<Longrightarrow> length l < 1023" "length (snd (split_lines (content w))) < 1023"
  shows "\<exists>w'. grep fuel rd pattern [] w =
      Ok (concat (map (\<lambda>l. l @ [10]) (filter (match pattern) (lines_of (content w)))), w') \<and> content w' = []"
  using grep_lines [of rd content "[]" w fuel pattern] assms by auto

text \<open>The pattern \<open>^a.*b$\<close> on the lines \<open>ab\<close>, \<open>ba\<close> and \<open>acb\<close>, and an \<open>ab\<close> without newline.\<close>

theorem grep_prints_matching_witness:
  "\<exists>w'. grep 100 (\<lambda>n w. (Some (take n w), drop n w)) [94, 97, 46, 42, 98, 36] []
      [97, 98, 10, 98, 97, 10, 97, 99, 98, 10, 97, 98] = Ok ([97, 98, 10, 97, 99, 98, 10], w')"
proof -
  let ?f = "[97, 98, 10, 98, 97, 10, 97, 99, 98, 10, 97, 98] :: bytes"
  have d: "delivers (\<lambda>n w. (Some (take n w), drop n w)) (\<lambda>w. w)" by (auto simp: delivers_def)
  let ?p = "[94, 97, 46, 42, 98, 36] :: bytes"
  have "\<exists>w'. grep 100 (\<lambda>n w. (Some (take n w), drop n w)) ?p [] ?f
      = Ok (concat (map (\<lambda>l. l @ [10]) (filter (match ?p) (lines_of ?f))), w') \<and> w' = []"
    by (rule grep_prints_matching [OF d]) auto
  moreover have "concat (map (\<lambda>l. l @ [10]) (filter (match ?p) (lines_of ?f))) = [97, 98, 10, 97, 99, 98, 10]"
    by (simp add: match_def)
  ultimately show ?thesis by metis
qed

text \<open>A line of 1023 bytes or more fills the buffer, and the search ends there without a message.\<close>

lemma grep_stops_at_long_line:
  assumes "delivers rd content" "content w = l @ c" "10 \<notin> set (buf @ l)" "0 \<notin> set (buf @ l)" "1023 \<le> length (buf @ l)"
    "length buf \<le> 1023" "1023 < fuel + length buf"
  shows "\<exists>w'. grep fuel rd pattern buf w = Ok ([], w')"
  using assms(2-)
proof (induction fuel arbitrary: buf w l)
  case (Suc fuel)
  obtain bs w' where r: "rd (1024 - length buf - 1) w = (Some bs, w')" "content w = bs @ content w'" "length bs \<le> 1024 - length buf - 1"
    using assms(1) unfolding delivers_def by blast
  show ?case
  proof (cases "bs = []")
    case True
    then show ?thesis using r(1) by simp
  next
    case False
    have "length bs \<le> length l" using r(3) Suc.prems(4) by simp
    moreover have "bs @ content w' = l @ c" using r(2) Suc.prems(1) by simp
    ultimately obtain l' where l: "l = bs @ l'" "content w' = l' @ c" by (auto simp: append_eq_append_conv2)
    have "grep_scan pattern (buf @ bs) = ([], buf @ bs)"
      using grep_scan_lines [of "buf @ bs" pattern] split_lines_none [of "buf @ bs"] Suc.prems(2,3) l by simp
    moreover have "\<exists>w''. grep fuel rd pattern (buf @ bs) w' = Ok ([], w'')"
    proof (rule Suc.IH [OF l(2)])
      have "1 \<le> length bs" using False by (simp add: Suc_le_eq)
      then show "1023 < fuel + length (buf @ bs)" using Suc.prems(6) by (simp del: length_greater_0_conv)
    qed (use Suc.prems(2-5) r(3) l(1) in simp_all)
    ultimately show ?thesis using r(1) False by (auto simp: Let_def)
  qed
qed simp

end
