(* ===== verification/Shell.thy ===== *)
theory Shell
  imports Prelude
begin

text \<open>
  The shell (\<open>user/sh.c\<close>): the tokens, the recursive-descent parser, and the pass that ends the strings
  of a command in place.

  The command line is the list of its bytes without the terminating zero, a pointer into it an index,
  and \<open>es\<close> its length. The nodes of a command are a datatype; that there is memory for them is taken
  for granted, as in the code. \<open>panic\<close> of the shell ends the process and is the outcome \<open>Panic\<close>.
\<close>

section \<open>Tokens\<close>

definition byte_at :: "uint8 list \<Rightarrow> nat \<Rightarrow> uint8" where
  "byte_at s i = (if i < length s then s ! i else 0)"

text \<open>The characters of \<open>whitespace\<close> and of \<open>symbols\<close>.\<close>

definition whitespace :: "uint8 set" where "whitespace = {32, 9, 13, 10, 11}"

definition symbols :: "uint8 set" where "symbols = {60, 124, 62, 38, 59, 40, 41}"

text \<open>\<open>while(s < es && P(*s)) s++\<close>\<close>

function skip :: "(uint8 \<Rightarrow> bool) \<Rightarrow> uint8 list \<Rightarrow> nat \<Rightarrow> nat" where
  "skip P s i = (if i < length s \<and> P (s ! i) then skip P s (Suc i) else i)"
  by pat_completeness auto
termination by (relation "measure (\<lambda>(P, s, i). length s - i)") auto

declare skip.simps [simp del]

definition skip_space :: "uint8 list \<Rightarrow> nat \<Rightarrow> nat" where
  "skip_space = skip (\<lambda>c. c \<in> whitespace)"

definition word_char :: "uint8 \<Rightarrow> bool" where
  "word_char c \<longleftrightarrow> c \<notin> whitespace \<and> c \<notin> symbols"

text \<open>The token at \<open>i\<close>: what it is (97, an \<open>a\<close>, for a word), where it begins and ends, and where the next one begins.\<close>

definition gettoken :: "uint8 list \<Rightarrow> nat \<Rightarrow> uint8 \<times> nat \<times> nat \<times> nat" where
  "gettoken s i =
     (let q = skip_space s i; c = byte_at s q;
          (ret, eq) = (if c = 0 then (0, q)
                       else if c \<in> {124, 40, 41, 59, 38, 60} then (c, q + 1)
                       else if c = 62 then (if byte_at s (q + 1) = 62 then (43, q + 2) else (62, q + 1))
                       else (97, skip word_char s q))
      in (ret, q, eq, skip_space s eq))"

definition peek :: "uint8 list \<Rightarrow> nat \<Rightarrow> uint8 set \<Rightarrow> nat \<times> bool" where
  "peek s i toks = (let i = skip_space s i in (i, byte_at s i \<noteq> 0 \<and> byte_at s i \<in> toks))"

section \<open>What the tokens promise\<close>

lemma skip_range: "i \<le> skip P s i" "i \<le> length s \<Longrightarrow> skip P s i \<le> length s"
  by (induction P s i rule: skip.induct) (subst skip.simps, force)+

lemma skip_body: "i \<le> j \<Longrightarrow> j < skip P s i \<Longrightarrow> P (s ! j)"
proof (induction P s i rule: skip.induct)
  case (1 P s i)
  show ?case using 1 skip.simps [of P s i] by (cases "j = i") (auto split: if_splits)
qed

lemma skip_end: "skip P s i < length s \<Longrightarrow> \<not> P (s ! skip P s i)"
proof (induction P s i rule: skip.induct)
  case (1 P s i)
  show ?case using 1 skip.simps [of P s i] by (auto split: if_splits)
qed

lemmas skip_space_range = skip_range [where P = "\<lambda>c. c \<in> whitespace", folded skip_space_def]
lemmas skip_space_end = skip_end [where P = "\<lambda>c. c \<in> whitespace", folded skip_space_def]

lemma skip_space_fix: "skip_space s (skip_space s i) = skip_space s i"
  using skip_space_end [of s i] skip.simps [of "\<lambda>c. c \<in> whitespace" s "skip_space s i"] by (auto simp: skip_space_def)

text \<open>A word: not empty, made of word characters, and as long as possible.\<close>

definition word_ok :: "uint8 list \<Rightarrow> nat \<times> nat \<Rightarrow> bool" where
  "word_ok s = (\<lambda>(q, e). q < e \<and> e \<le> length s \<and> (\<forall>j. q \<le> j \<and> j < e \<longrightarrow> word_char (s ! j)) \<and> (e < length s \<longrightarrow> \<not> word_char (s ! e)))"

lemma gettoken_spec:
  assumes "gettoken s i = (ret, q, e, i')"
  shows "i \<le> i'" "i \<le> length s \<Longrightarrow> i' \<le> length s" "ret \<noteq> 0 \<Longrightarrow> i < i'" "ret = 97 \<Longrightarrow> word_ok s (q, e)"
    "ret \<noteq> 0 \<longleftrightarrow> byte_at s (skip_space s i) \<noteq> 0" "ret \<noteq> 0 \<Longrightarrow> i' \<le> length s"
proof -
  let ?q = "skip_space s i" and ?w = "skip word_char s (skip_space s i)"
  have q: "i \<le> ?q" "i \<le> length s \<Longrightarrow> ?q \<le> length s" using skip_space_range by simp_all
  have ws: "s ! ?q \<notin> whitespace" if "?q < length s" using skip_space_end [OF that] by simp
  have adv: "?q < ?w" if "?q < length s" "s ! ?q \<notin> symbols"
    using that ws skip.simps [of word_char s ?q] skip_range(1) [of "Suc ?q" word_char s] by (simp add: word_char_def)
  note sp = skip_space_range
  have "i \<le> i' \<and> (i \<le> length s \<longrightarrow> i' \<le> length s) \<and> (ret \<noteq> 0 \<longrightarrow> i < i' \<and> i' \<le> length s) \<and> (ret = 97 \<longrightarrow> word_ok s (q, e)) \<and>
    (ret \<noteq> 0 \<longleftrightarrow> byte_at s ?q \<noteq> 0)"
  proof (cases "byte_at s ?q = 0")
    case True
    then show ?thesis using assms q sp(1) [of ?q s] sp(2) [of ?q s] by (auto simp: gettoken_def Let_def)
  next
    case False
    then have l: "?q < length s" "byte_at s ?q = s ! ?q" "s ! ?q \<noteq> 0" by (auto simp: byte_at_def split: if_splits)
    consider "s ! ?q \<in> {124, 40, 41, 59, 38, 60}" | "s ! ?q = 62" | "s ! ?q \<notin> symbols" by (auto simp: symbols_def)
    then show ?thesis
    proof cases
      case 1
      then have "ret = s ! ?q" "i' = skip_space s (Suc ?q)" using assms l by (auto simp: gettoken_def Let_def)
      then show ?thesis using 1 q l sp(1) [of "Suc ?q" s] sp(2) [of "Suc ?q" s] by auto
    next
      case 2
      let ?d = "byte_at s (Suc ?q) = 62"
      have d: "?d \<Longrightarrow> Suc (Suc ?q) \<le> length s" by (auto simp: byte_at_def split: if_splits)
      have "ret = (if ?d then 43 else 62)" "i' = skip_space s (if ?d then Suc (Suc ?q) else Suc ?q)"
        using assms l 2 by (auto simp: gettoken_def Let_def)
      then show ?thesis using q l d sp(1) [of "if ?d then Suc (Suc ?q) else Suc ?q" s] sp(2) [of "if ?d then Suc (Suc ?q) else Suc ?q" s]
        by (auto split: if_splits)
    next
      case 3
      then have e: "ret = 97" "q = ?q" "e = ?w" "i' = skip_space s ?w"
        using assms l by (auto simp: gettoken_def Let_def symbols_def)
      have w: "?q \<le> ?w" "?w \<le> length s" using skip_range [of ?q] l(1) by simp_all
      have "word_ok s (?q, ?w)" using adv [OF l(1) 3] w skip_body [of ?q _ word_char s] skip_end [of word_char s ?q] by (auto simp: word_ok_def)
      then show ?thesis using e q l adv [OF l(1) 3] w(2) sp(1) [of ?w s] sp(2) [of ?w s] by auto
    qed
  qed
  then show "i \<le> i'" "i \<le> length s \<Longrightarrow> i' \<le> length s" "ret \<noteq> 0 \<Longrightarrow> i < i'" "ret = 97 \<Longrightarrow> word_ok s (q, e)"
    "ret \<noteq> 0 \<longleftrightarrow> byte_at s ?q \<noteq> 0" "ret \<noteq> 0 \<Longrightarrow> i' \<le> length s" by blast+
qed

lemma peek_spec:
  assumes "peek s i toks = (i', b)"
  shows "i \<le> i'" "i \<le> length s \<Longrightarrow> i' \<le> length s" "skip_space s i' = i'" "b \<longleftrightarrow> byte_at s i' \<noteq> 0 \<and> byte_at s i' \<in> toks"
    "b \<Longrightarrow> i' < length s"
proof -
  have p: "i' = skip_space s i" "b \<longleftrightarrow> byte_at s i' \<noteq> 0 \<and> byte_at s i' \<in> toks" using assms by (auto simp: peek_def Let_def)
  show "i \<le> i'" "i \<le> length s \<Longrightarrow> i' \<le> length s" "skip_space s i' = i'" "b \<longleftrightarrow> byte_at s i' \<noteq> 0 \<and> byte_at s i' \<in> toks"
    using p skip_space_range skip_space_fix by simp_all
  show "b \<Longrightarrow> i' < length s" using p(2) by (auto simp: byte_at_def split: if_splits)
qed

text \<open>A token that was peeked at is taken, and the rest of the line is shorter.\<close>

lemma peek_take:
  assumes "peek s i toks = (i1, True)" "gettoken s i1 = (tok, q, e, i2)"
  shows "i1 < i2" "i2 \<le> length s" "length s - i2 < length s - i"
proof -
  have "tok \<noteq> 0" using gettoken_spec(5) [OF assms(2)] peek_spec(3,4) [OF assms(1)] by simp
  then show "i1 < i2" "i2 \<le> length s" using gettoken_spec(3,6) [OF assms(2)] by simp_all
  then show "length s - i2 < length s - i" using peek_spec(1) [OF assms(1)] by simp
qed

lemma redir_step:
  assumes "peek s i toks = (i1, True)" "gettoken s i1 = (tok, q1, e1, i2)" "gettoken s i2 = (t, q, e, i3)"
  shows "length s - i3 < length s - i"
  using peek_take [OF assms(1,2)] gettoken_spec(1) [OF assms(3)] by simp

section \<open>The parser\<close>

datatype cmd = ExecCmd "(nat \<times> nat) list" | RedirCmd cmd nat nat int int | PipeCmd cmd cmd | ListCmd cmd cmd | BackCmd cmd

text \<open>
  \<open>parseredirs\<close> wraps a command in redirections; the result here is the list of the file name, the mode
  and the descriptor of each, in the order in which the code wraps them. \<open>O_RDONLY\<close> is 0,
  \<open>O_WRONLY|O_CREATE|O_TRUNC\<close> is 0x601 and \<open>O_WRONLY|O_CREATE\<close> is 0x201.
\<close>

type_synonym redir = "nat \<times> nat \<times> int \<times> int"

definition redircmds :: "cmd \<Rightarrow> redir list \<Rightarrow> cmd" where
  "redircmds cmd rs = foldl (\<lambda>c (q, eq, mode, fd). RedirCmd c q eq mode fd) cmd rs"

function parseredirs :: "uint8 list \<Rightarrow> nat \<Rightarrow> (redir list \<times> nat) res" where
  "parseredirs s i =
     (case peek s i {60, 62} of (i, b) \<Rightarrow>
      if \<not> b then Ok ([], i)
      else case gettoken s i of (tok, _, _, i) \<Rightarrow>
           case gettoken s i of (t, q, eq, i) \<Rightarrow>
           if t \<noteq> 97 then Panic ''missing file for redirection''
           else bnd (parseredirs s i) (\<lambda>(rs, i).
                Ok ((if tok = 60 then (q, eq, 0, 0) else if tok = 62 then (q, eq, 0x601, 1) else (q, eq, 0x201, 1)) # rs, i)))"
  by pat_completeness auto
termination
proof (relation "measure (\<lambda>(s, i). length s - i)", goal_cases)
  case (2 s i i1 b tok x q1 y e1 i2 t z q w eq i3)
  then have "peek s i {60, 62} = (i1, True)" "gettoken s i1 = (tok, q1, e1, i2)" "gettoken s i2 = (t, q, eq, i3)" by simp_all
  then show ?case using redir_step by auto
qed simp

declare parseredirs.simps [simp del]

text \<open>
  The words of a simple command. The code stores them in the node while the redirections around it are
  already built; \<open>MAXARGS\<close> is 10.
\<close>

function parseargs :: "uint8 list \<Rightarrow> nat \<Rightarrow> (nat \<times> nat) list \<Rightarrow> redir list \<Rightarrow> ((nat \<times> nat) list \<times> redir list \<times> nat) res" where
  "parseargs s i argv rs =
     (case peek s i {124, 41, 38, 59} of (i, b) \<Rightarrow>
      if b then Ok (argv, rs, i)
      else case gettoken s i of (tok, q, eq, i) \<Rightarrow>
           if tok = 0 then Ok (argv, rs, i)
           else if tok \<noteq> 97 then Panic ''syntax''
           else if length argv + 1 \<ge> 10 then Panic ''too many args''
           else bnd (parseredirs s i) (\<lambda>(rs', i). parseargs s i (argv @ [(q, eq)]) (rs @ rs')))"
  by pat_completeness auto
termination
  by (relation "measure (\<lambda>(s, i, argv, rs). 10 - length argv)") auto

declare parseargs.simps [simp del]

function parseback :: "uint8 list \<Rightarrow> cmd \<Rightarrow> nat \<Rightarrow> cmd \<times> nat" where
  "parseback s cmd i =
     (case peek s i {38} of (i, b) \<Rightarrow>
      if b then case gettoken s i of (_, _, _, i) \<Rightarrow> parseback s (BackCmd cmd) i else (cmd, i))"
  by pat_completeness auto
termination
proof (relation "measure (\<lambda>(s, cmd, i). length s - i)", goal_cases)
  case (2 s cmd i i1 b tok x q y e i2)
  then have "peek s i {38} = (i1, True)" "gettoken s i1 = (tok, q, e, i2)" by simp_all
  then show ?case using peek_take(3) by auto
qed simp

declare parseback.simps [simp del]

text \<open>
  The mutually recursive parsers, with a bound on the depth of their calls; \<open>parsecmd_total\<close> below shows
  that four times the length of the line and four more are enough.
\<close>

fun parseline :: "nat \<Rightarrow> uint8 list \<Rightarrow> nat \<Rightarrow> (cmd \<times> nat) res"
  and parsepipe :: "nat \<Rightarrow> uint8 list \<Rightarrow> nat \<Rightarrow> (cmd \<times> nat) res"
  and parseexec :: "nat \<Rightarrow> uint8 list \<Rightarrow> nat \<Rightarrow> (cmd \<times> nat) res"
  and parseblock :: "nat \<Rightarrow> uint8 list \<Rightarrow> nat \<Rightarrow> (cmd \<times> nat) res" where
  "parseline 0 s i = Hang"
| "parseline (Suc n) s i =
     bnd (parsepipe n s i) (\<lambda>(cmd, i).
     case parseback s cmd i of (cmd, i) \<Rightarrow>
     case peek s i {59} of (i, b) \<Rightarrow>
     if b then case gettoken s i of (_, _, _, i) \<Rightarrow>
               bnd (parseline n s i) (\<lambda>(right, i). Ok (ListCmd cmd right, i))
     else Ok (cmd, i))"
| "parsepipe 0 s i = Hang"
| "parsepipe (Suc n) s i =
     bnd (parseexec n s i) (\<lambda>(cmd, i).
     case peek s i {124} of (i, b) \<Rightarrow>
     if b then case gettoken s i of (_, _, _, i) \<Rightarrow>
               bnd (parsepipe n s i) (\<lambda>(right, i). Ok (PipeCmd cmd right, i))
     else Ok (cmd, i))"
| "parseexec 0 s i = Hang"
| "parseexec (Suc n) s i =
     (case peek s i {40} of (i, b) \<Rightarrow>
      if b then parseblock n s i
      else bnd (parseredirs s i) (\<lambda>(rs, i).
           bnd (parseargs s i [] rs) (\<lambda>(argv, rs, i).
           Ok (redircmds (ExecCmd argv) rs, i))))"
| "parseblock 0 s i = Hang"
| "parseblock (Suc n) s i =
     (case peek s i {40} of (i, b) \<Rightarrow>
      if \<not> b then Panic ''parseblock''
      else case gettoken s i of (_, _, _, i) \<Rightarrow>
           bnd (parseline n s i) (\<lambda>(cmd, i).
           case peek s i {41} of (i, b) \<Rightarrow>
           if \<not> b then Panic ''syntax - missing )''
           else case gettoken s i of (_, _, _, i) \<Rightarrow>
                bnd (parseredirs s i) (\<lambda>(rs, i). Ok (redircmds cmd rs, i))))"

text \<open>Ending the strings: a zero byte after each word, in the line with its own zero byte at the end.\<close>

primrec nulterminate :: "cmd \<Rightarrow> uint8 list \<Rightarrow> uint8 list" where
  "nulterminate (ExecCmd argv) buf = foldl (\<lambda>buf (q, eq). buf[eq := 0]) buf argv"
| "nulterminate (RedirCmd cmd q eq mode fd) buf = (nulterminate cmd buf)[eq := 0]"
| "nulterminate (PipeCmd left right) buf = nulterminate right (nulterminate left buf)"
| "nulterminate (ListCmd left right) buf = nulterminate right (nulterminate left buf)"
| "nulterminate (BackCmd cmd) buf = nulterminate cmd buf"

definition parsecmd :: "uint8 list \<Rightarrow> (cmd \<times> uint8 list) res" where
  "parsecmd s =
     bnd (parseline (4 * length s + 4) s 0) (\<lambda>(cmd, i).
     case peek s i {} of (i, _) \<Rightarrow>
     if i \<noteq> length s then Panic ''syntax''
     else Ok (cmd, nulterminate cmd (s @ [0])))"

section \<open>The parser returns, and what it returns\<close>

primrec words :: "cmd \<Rightarrow> (nat \<times> nat) list" where
  "words (ExecCmd argv) = argv"
| "words (RedirCmd cmd q eq mode fd) = words cmd @ [(q, eq)]"
| "words (PipeCmd left right) = words left @ words right"
| "words (ListCmd left right) = words left @ words right"
| "words (BackCmd cmd) = words cmd"

primrec args_ok :: "cmd \<Rightarrow> bool" where
  "args_ok (ExecCmd argv) = (length argv < 10)"
| "args_ok (RedirCmd cmd q eq mode fd) = ((fd = 0 \<or> fd = 1) \<and> args_ok cmd)"
| "args_ok (PipeCmd left right) = (args_ok left \<and> args_ok right)"
| "args_ok (ListCmd left right) = (args_ok left \<and> args_ok right)"
| "args_ok (BackCmd cmd) = args_ok cmd"

definition cmd_ok :: "uint8 list \<Rightarrow> cmd \<Rightarrow> bool" where
  "cmd_ok s cmd \<longleftrightarrow> (\<forall>w\<in>set (words cmd). word_ok s w) \<and> args_ok cmd"

definition syntax_errors :: "string set" where
  "syntax_errors = {''missing file for redirection'', ''syntax'', ''too many args'', ''syntax - missing )''}"

text \<open>A parser returns a result at a later place that satisfies \<open>P\<close>, or reports a syntax error.\<close>

definition parsed :: "uint8 list \<Rightarrow> nat \<Rightarrow> ('a \<Rightarrow> bool) \<Rightarrow> ('a \<times> nat) res \<Rightarrow> bool" where
  "parsed s i P r \<longleftrightarrow> (case r of Hang \<Rightarrow> False | Undef \<Rightarrow> False | Panic m \<Rightarrow> m \<in> syntax_errors | Ok (x, i') \<Rightarrow> i \<le> i' \<and> i' \<le> length s \<and> P x)"

lemma parsed_bnd:
  assumes "parsed s i P r" "\<And>x j. i \<le> j \<Longrightarrow> j \<le> length s \<Longrightarrow> P x \<Longrightarrow> parsed s i Q (f (x, j))"
  shows "parsed s i Q (bnd r f)"
  using assms by (cases r) (auto simp: parsed_def)

lemma parsed_later: "parsed s j P r \<Longrightarrow> i \<le> j \<Longrightarrow> parsed s i P r"
  by (auto simp: parsed_def split: res.splits)

lemma parsed_Ok [simp]: "parsed s i P (Ok (x, j)) \<longleftrightarrow> i \<le> j \<and> j \<le> length s \<and> P x"
  by (simp add: parsed_def)

lemma parsed_Panic [simp]: "parsed s i P (Panic m) \<longleftrightarrow> m \<in> syntax_errors"
  by (simp add: parsed_def)

definition redirs_ok :: "uint8 list \<Rightarrow> redir list \<Rightarrow> bool" where
  "redirs_ok s rs \<longleftrightarrow> (\<forall>(q, eq, mode, fd)\<in>set rs. word_ok s (q, eq) \<and> (fd = 0 \<or> fd = 1))"

lemma redircmds_ok: "cmd_ok s cmd \<Longrightarrow> redirs_ok s rs \<Longrightarrow> cmd_ok s (redircmds cmd rs)"
proof (induction rs arbitrary: cmd)
  case (Cons r rs)
  obtain q e m fd where r: "r = (q, e, m, fd)" by (cases r)
  have "cmd_ok s (RedirCmd cmd q e m fd)" using Cons.prems r by (auto simp: cmd_ok_def redirs_ok_def)
  then have "cmd_ok s (redircmds (RedirCmd cmd q e m fd) rs)" using Cons by (auto simp: redirs_ok_def)
  then show ?case by (simp add: redircmds_def r)
qed (simp add: redircmds_def)

lemma exec_ok: "\<forall>w\<in>set argv. word_ok s w \<Longrightarrow> length argv < 10 \<Longrightarrow> cmd_ok s (ExecCmd argv)"
  by (simp add: cmd_ok_def)

lemma parseredirs_spec: "i \<le> length s \<Longrightarrow> parsed s i (redirs_ok s) (parseredirs s i)"
proof (induction s i rule: parseredirs.induct)
  case (1 s i)
  obtain i1 b where p: "peek s i {60, 62} = (i1, b)" by (cases "peek s i {60, 62}")
  note pk = peek_spec [OF p]
  show ?case
  proof (cases b)
    case False
    then show ?thesis using p pk 1(2) by (subst parseredirs.simps) (simp add: redirs_ok_def)
  next
    case True
    obtain tok q1 e1 i2 where g1: "gettoken s i1 = (tok, q1, e1, i2)" by (cases "gettoken s i1")
    obtain t q e i3 where g2: "gettoken s i2 = (t, q, e, i3)" by (cases "gettoken s i2")
    have i2: "i1 < i2" "i2 \<le> length s" using peek_take [OF _ g1] p True by auto
    note gt = gettoken_spec [OF g2]
    show ?thesis
    proof (cases "t = 97")
      case False
      then show ?thesis using p True g1 g2 by (subst parseredirs.simps) (simp add: syntax_errors_def)
    next
      case t: True
      have "parsed s i3 (redirs_ok s) (parseredirs s i3)"
        by (rule 1(1) [OF p [symmetric] _ g1 [symmetric] refl refl g2 [symmetric] refl refl]) (use True t gt(2) i2 in auto)
      then have "parsed s i (redirs_ok s) (parseredirs s i3)" using i2 gt(1) pk(1) by (elim parsed_later) simp
      then show ?thesis using p True g1 g2 t gt(4)
        by (subst parseredirs.simps) (auto intro!: parsed_bnd simp: redirs_ok_def)
    qed
  qed
qed

lemma parseargs_spec:
  assumes "i \<le> length s" "\<forall>w\<in>set argv. word_ok s w" "length argv < 10" "redirs_ok s rs"
  shows "parsed s i (\<lambda>(argv, rs). (\<forall>w\<in>set argv. word_ok s w) \<and> length argv < 10 \<and> redirs_ok s rs)
    (bnd (parseargs s i argv rs) (\<lambda>(argv, rs, i). Ok ((argv, rs), i)))"
  using assms
proof (induction s i argv rs rule: parseargs.induct)
  case (1 s i argv rs)
  obtain i1 b where p: "peek s i {124, 41, 38, 59} = (i1, b)" by (cases "peek s i {124, 41, 38, 59}")
  note pk = peek_spec [OF p]
  obtain tok q e i2 where g: "gettoken s i1 = (tok, q, e, i2)" by (cases "gettoken s i1")
  note gt = gettoken_spec [OF g]
  have i2: "i \<le> i2" "i2 \<le> length s" using pk(1,2) gt(1,2) 1(2) by auto
  show ?case
  proof (cases "b \<or> tok \<noteq> 97 \<or> 10 \<le> length argv + 1")
    case True
    then show ?thesis using p pk(1,2) g i2 1(2-5) by (subst parseargs.simps) (auto simp: syntax_errors_def)
  next
    case False
    have r: "parsed s i (redirs_ok s) (parseredirs s i2)" using parseredirs_spec [OF i2(2)] i2(1) by (rule parsed_later)
    have "parsed s i (\<lambda>(argv, rs). (\<forall>w\<in>set argv. word_ok s w) \<and> length argv < 10 \<and> redirs_ok s rs)
      (bnd (parseredirs s i2) (\<lambda>(rs', i). bnd (parseargs s i (argv @ [(q, e)]) (rs @ rs')) (\<lambda>(argv, rs, i). Ok ((argv, rs), i))))"
    proof (cases "parseredirs s i2")
      case (Ok a)
      obtain rs' j where a: "a = (rs', j)" by (cases a)
      have j: "i \<le> j" "j \<le> length s" "redirs_ok s rs'" using r Ok a by (simp_all add: parsed_def)
      have "parsed s j (\<lambda>(argv, rs). (\<forall>w\<in>set argv. word_ok s w) \<and> length argv < 10 \<and> redirs_ok s rs)
        (bnd (parseargs s j (argv @ [(q, e)]) (rs @ rs')) (\<lambda>(argv, rs, i). Ok ((argv, rs), i)))"
        by (rule 1(1) [OF p [symmetric] _ g [symmetric] refl refl _ _ _ Ok [unfolded a] refl])
          (use False 1(3-5) gt(4) j in \<open>auto simp: redirs_ok_def\<close>)
      then show ?thesis using Ok a j(1) parsed_later by auto
    qed (use r in \<open>auto simp: parsed_def\<close>)
    then show ?thesis using False p g by (subst parseargs.simps) (auto simp: split_def)
  qed
qed

lemma parseback_spec: "i \<le> length s \<Longrightarrow> cmd_ok s cmd \<Longrightarrow> parsed s i (cmd_ok s) (Ok (parseback s cmd i))"
proof (induction s cmd i rule: parseback.induct)
  case (1 s cmd i)
  obtain i1 b where p: "peek s i {38} = (i1, b)" by (cases "peek s i {38}")
  obtain tok q e i2 where g: "gettoken s i1 = (tok, q, e, i2)" by (cases "gettoken s i1")
  show ?case
  proof (cases b)
    case True
    then have i2: "i1 < i2" "i2 \<le> length s" "i \<le> i1" using peek_take [OF _ g] peek_spec(1) [OF p] p by auto
    have "parsed s i2 (cmd_ok s) (Ok (parseback s (BackCmd cmd) i2))"
      by (rule 1(1) [OF p [symmetric] True g [symmetric] refl refl]) (use i2 1(3) in \<open>auto simp: cmd_ok_def\<close>)
    then show ?thesis using True p g i2 parsed_later [of s i2 "cmd_ok s" _ i] by (subst parseback.simps) simp
  next
    case False
    then show ?thesis using p 1(2,3) peek_spec(1,2) [OF p] by (subst parseback.simps) simp
  qed
qed

definition parses :: "(nat \<Rightarrow> uint8 list \<Rightarrow> nat \<Rightarrow> (cmd \<times> nat) res) \<Rightarrow> nat \<Rightarrow> uint8 list \<Rightarrow> nat \<Rightarrow> bool" where
  "parses f k s n \<longleftrightarrow> (\<forall>i. i \<le> length s \<and> 4 * (length s - i) + k \<le> n \<longrightarrow> parsed s i (cmd_ok s) (f n s i))"

lemma parsesD: "parses f k s n \<Longrightarrow> i \<le> length s \<Longrightarrow> 4 * (length s - i) + k \<le> n \<Longrightarrow> parsed s i (cmd_ok s) (f n s i)"
  by (simp add: parses_def)

lemma parseline_step:
  assumes "parses parsepipe 3 s n" "parses parseline 4 s n"
    and i: "i \<le> length s" "4 * (length s - i) + 4 \<le> Suc n"
  shows "parsed s i (cmd_ok s) (parseline (Suc n) s i)"
proof -
  have "parsed s i (cmd_ok s) (parsepipe n s i)" by (rule parsesD [OF assms(1)]) (use i in simp_all)
  then show ?thesis unfolding parseline.simps
  proof (rule parsed_bnd)
    fix c j assume j: "i \<le> j" "j \<le> length s" "cmd_ok s c"
    obtain c1 k where k: "parseback s c j = (c1, k)" by (cases "parseback s c j")
    then have k': "j \<le> k" "k \<le> length s" "cmd_ok s c1" using parseback_spec [OF j(2,3)] by simp_all
    obtain i1 b where p: "peek s k {59} = (i1, b)" by (cases "peek s k {59}")
    obtain tok q e i2 where g: "gettoken s i1 = (tok, q, e, i2)" by (cases "gettoken s i1")
    show "parsed s i (cmd_ok s) ((\<lambda>(cmd, i). case parseback s cmd i of (cmd, i) \<Rightarrow> case peek s i {59} of (i, b) \<Rightarrow>
        if b then case gettoken s i of (_, _, _, i) \<Rightarrow> bnd (parseline n s i) (\<lambda>(right, i). Ok (ListCmd cmd right, i))
        else Ok (cmd, i)) (c, j))"
    proof (cases b)
      case True
      then have i2: "i1 < i2" "i2 \<le> length s" "k \<le> i1" using peek_take [OF _ g] peek_spec(1) [OF p] p by auto
      have "parsed s i2 (cmd_ok s) (parseline n s i2)" by (rule parsesD [OF assms(2)]) (use i(2) i2 j k' in auto)
      then have "parsed s i (cmd_ok s) (parseline n s i2)" by (rule parsed_later) (use i2 j k' in simp)
      then show ?thesis using True k p g k'(3) by (auto intro!: parsed_bnd simp: cmd_ok_def)
    next
      case False
      then show ?thesis using k p k' j peek_spec(1,2) [OF p] by simp
    qed
  qed
qed

lemma parsepipe_step:
  assumes "parses parseexec 2 s n" "parses parsepipe 3 s n"
    and i: "i \<le> length s" "4 * (length s - i) + 3 \<le> Suc n"
  shows "parsed s i (cmd_ok s) (parsepipe (Suc n) s i)"
proof -
  have "parsed s i (cmd_ok s) (parseexec n s i)" by (rule parsesD [OF assms(1)]) (use i in simp_all)
  then show ?thesis unfolding parsepipe.simps
  proof (rule parsed_bnd)
    fix c j assume j: "i \<le> j" "j \<le> length s" "cmd_ok s c"
    obtain i1 b where p: "peek s j {124} = (i1, b)" by (cases "peek s j {124}")
    obtain tok q e i2 where g: "gettoken s i1 = (tok, q, e, i2)" by (cases "gettoken s i1")
    show "parsed s i (cmd_ok s) ((\<lambda>(cmd, i). case peek s i {124} of (i, b) \<Rightarrow>
        if b then case gettoken s i of (_, _, _, i) \<Rightarrow> bnd (parsepipe n s i) (\<lambda>(right, i). Ok (PipeCmd cmd right, i))
        else Ok (cmd, i)) (c, j))"
    proof (cases b)
      case True
      then have i2: "i1 < i2" "i2 \<le> length s" "j \<le> i1" using peek_take [OF _ g] peek_spec(1) [OF p] p by auto
      have "parsed s i2 (cmd_ok s) (parsepipe n s i2)" by (rule parsesD [OF assms(2)]) (use i(2) i2 j in auto)
      then have "parsed s i (cmd_ok s) (parsepipe n s i2)" by (rule parsed_later) (use i2 j in simp)
      then show ?thesis using True p g j(3) by (auto intro!: parsed_bnd simp: cmd_ok_def)
    next
      case False
      then show ?thesis using p j peek_spec(1,2) [OF p] by simp
    qed
  qed
qed

lemma parseexec_step:
  assumes "\<And>j j1. peek s j {40} = (j1, True) \<Longrightarrow> j \<le> length s \<Longrightarrow> 4 * (length s - j) + 1 \<le> n \<Longrightarrow> parsed s j (cmd_ok s) (parseblock n s j)"
    and i: "i \<le> length s" "4 * (length s - i) + 2 \<le> Suc n"
  shows "parsed s i (cmd_ok s) (parseexec (Suc n) s i)"
proof -
  obtain i1 b where p: "peek s i {40} = (i1, b)" by (cases "peek s i {40}")
  note pk = peek_spec [OF p]
  show ?thesis
  proof (cases b)
    case True
    have "peek s i1 {40} = (i1, True)" using pk(3,4) True by (simp add: peek_def)
    then have "parsed s i1 (cmd_ok s) (parseblock n s i1)"
      by (rule assms(1)) (use i pk(1,2) in auto)
    then show ?thesis using p True pk(1) parsed_later by auto
  next
    case False
    have i1: "i \<le> i1" "i1 \<le> length s" using pk(1,2) i(1) by auto
    have "parsed s i1 (cmd_ok s) (bnd (parseredirs s i1) (\<lambda>(rs, i). bnd (bnd (parseargs s i [] rs) (\<lambda>(argv, rs, i). Ok ((argv, rs), i)))
        (\<lambda>((argv, rs), i). Ok (redircmds (ExecCmd argv) rs, i))))"
    proof (rule parsed_bnd [OF parseredirs_spec [OF i1(2)]], clarsimp simp del: bnd_assoc)
      fix rs j assume j: "i1 \<le> j" "j \<le> length s" "redirs_ok s rs"
      show "parsed s i1 (cmd_ok s) (bnd (bnd (parseargs s j [] rs) (\<lambda>(argv, rs, i). Ok ((argv, rs), i)))
        (\<lambda>((argv, rs), i). Ok (redircmds (ExecCmd argv) rs, i)))"
        by (rule parsed_bnd [OF parsed_later [OF parseargs_spec [OF j(2) _ _ j(3)] j(1)]])
          (auto intro!: redircmds_ok exec_ok)
    qed
    then show ?thesis using p False i1(1) parsed_later by (auto simp: split_def)
  qed
qed

lemma parseblock_step:
  assumes "parses parseline 4 s n" "snd (peek s i {40})"
    and i: "i \<le> length s" "4 * (length s - i) + 1 \<le> Suc n"
  shows "parsed s i (cmd_ok s) (parseblock (Suc n) s i)"
proof -
  obtain i1 b where p: "peek s i {40} = (i1, b)" by (cases "peek s i {40}")
  then have b: "b" using assms(2) by simp
  obtain tok q e i2 where g: "gettoken s i1 = (tok, q, e, i2)" by (cases "gettoken s i1")
  have i2: "i1 < i2" "i2 \<le> length s" "i \<le> i1" using peek_take [OF _ g] peek_spec(1) [OF p] p b by auto
  have "parsed s i2 (cmd_ok s) (parseline n s i2)" by (rule parsesD [OF assms(1)]) (use i(2) i2 in auto)
  then have "parsed s i (cmd_ok s) (parseline n s i2)" by (rule parsed_later) (use i2 in simp)
  then have "parsed s i (cmd_ok s) (bnd (parseline n s i2) (\<lambda>(cmd, i). case peek s i {41} of (i, b) \<Rightarrow>
      if \<not> b then Panic ''syntax - missing )'' else case gettoken s i of (_, _, _, i) \<Rightarrow>
        bnd (parseredirs s i) (\<lambda>(rs, i). Ok (redircmds cmd rs, i))))"
  proof (rule parsed_bnd)
    fix c j assume j: "i \<le> j" "j \<le> length s" "cmd_ok s c"
    obtain j1 d where p1: "peek s j {41} = (j1, d)" by (cases "peek s j {41}")
    obtain tok1 q1 e1 j2 where g1: "gettoken s j1 = (tok1, q1, e1, j2)" by (cases "gettoken s j1")
    have j2: "j1 < j2" "j2 \<le> length s" "j \<le> j1" if d using peek_take [OF _ g1] peek_spec(1) [OF p1] p1 that by auto
    then have "parsed s i (redirs_ok s) (parseredirs s j2)" if d
      using parsed_later [OF parseredirs_spec] j(1) that by fastforce
    then show "parsed s i (cmd_ok s) ((\<lambda>(cmd, i). case peek s i {41} of (i, b) \<Rightarrow>
      if \<not> b then Panic ''syntax - missing )'' else case gettoken s i of (_, _, _, i) \<Rightarrow>
        bnd (parseredirs s i) (\<lambda>(rs, i). Ok (redircmds cmd rs, i))) (c, j))"
      using p1 g1 j(3) by (auto intro!: parsed_bnd redircmds_ok simp: syntax_errors_def)
  qed
  then show ?thesis using p b g by simp
qed

lemma parsers_spec:
  "parses parseline 4 s n \<and> parses parsepipe 3 s n \<and> parses parseexec 2 s n \<and>
   (\<forall>j j1. peek s j {40} = (j1, True) \<longrightarrow> j \<le> length s \<longrightarrow> 4 * (length s - j) + 1 \<le> n \<longrightarrow> parsed s j (cmd_ok s) (parseblock n s j))"
proof (induction n)
  case 0
  show ?case by (simp add: parses_def)
next
  case (Suc n)
  have "parses parseline 4 s (Suc n)" "parses parsepipe 3 s (Suc n)" "parses parseexec 2 s (Suc n)"
    using Suc parseline_step [of s n] parsepipe_step [of s n] parseexec_step [of s n] unfolding parses_def by blast+
  moreover have "parsed s j (cmd_ok s) (parseblock (Suc n) s j)"
    if "peek s j {40} = (j1, True)" "j \<le> length s" "4 * (length s - j) + 1 \<le> Suc n" for j j1
    by (rule parseblock_step) (use Suc that in \<open>simp_all del: parseline.simps parsepipe.simps parseexec.simps parseblock.simps\<close>)
  ultimately show ?case by blast
qed

lemma parseline_ok: "parsed s 0 (cmd_ok s) (parseline (4 * length s + 4) s 0)"
  using parsesD [OF conjunct1 [OF parsers_spec [of s "4 * length s + 4"]], of 0] by simp

lemma parsecmd_ok: "parsecmd s = Ok (cmd, buf) \<Longrightarrow> cmd_ok s cmd"
  using parseline_ok [of s] by (cases "parseline (4 * length s + 4) s 0") (auto simp: parsecmd_def parsed_def split_beta split: if_splits)

section \<open>The strings of a command\<close>

text \<open>The zero bytes go where no word has a character.\<close>

definition cut :: "nat list \<Rightarrow> uint8 list \<Rightarrow> uint8 list" where
  "cut es buf = foldl (\<lambda>buf e. buf[e := 0]) buf es"

lemma cut_append: "cut (es @ fs) buf = cut fs (cut es buf)"
  by (simp add: cut_def)

lemma nulterminate_cut: "nulterminate cmd buf = cut (map snd (words cmd)) buf"
proof (induction cmd arbitrary: buf)
  case (ExecCmd argv)
  show ?case by (induction argv arbitrary: buf) (auto simp: cut_def split_def)
qed (simp_all add: cut_append, simp add: cut_def)

lemma length_cut [simp]: "length (cut es buf) = length buf"
  by (induction es arbitrary: buf) (simp_all add: cut_def)

lemma nth_cut: "j < length buf \<Longrightarrow> cut es buf ! j = (if j \<in> set es then 0 else buf ! j)"
proof (induction es arbitrary: buf)
  case (Cons e es)
  have "cut (e # es) buf = cut es (buf[e := 0])" by (simp add: cut_def)
  then show ?case using Cons by (auto simp: nth_list_update)
qed (simp add: cut_def)

lemma word_string:
  assumes "cmd_ok s cmd" "(q, e) \<in> set (words cmd)" "0 \<notin> set s"
  shows "takeWhile (\<lambda>c. c \<noteq> 0) (drop q (nulterminate cmd (s @ [0]))) = take (e - q) (drop q s)"
proof -
  let ?b = "nulterminate cmd (s @ [0])" and ?E = "snd ` set (words cmd)"
  have w: "q < e" "e \<le> length s" "\<And>j. q \<le> j \<Longrightarrow> j < e \<Longrightarrow> word_char (s ! j)" using assms(1,2) by (auto simp: cmd_ok_def word_ok_def)
  have out: "j \<notin> ?E" if "q \<le> j" "j < e" for j
  proof
    assume "j \<in> ?E"
    then obtain q' where "word_ok s (q', j)" using assms(1) by (auto simp: cmd_ok_def)
    then show False using w(2) w(3) [OF that] that by (auto simp: word_ok_def)
  qed
  have nth: "?b ! j = (if j \<in> ?E then 0 else (s @ [0]) ! j)" if "j \<le> length s" for j
    using nth_cut [of j "s @ [0]"] that by (simp add: nulterminate_cut)
  have len: "length ?b = Suc (length s)" by (simp add: nulterminate_cut)
  have "take (e - q) (drop q ?b) = take (e - q) (drop q s)"
    using w(1,2) out len by (intro nth_equalityI) (auto simp: nth nth_append)
  moreover have "0 \<notin> set (take (e - q) (drop q s))" using assms(3) by (meson in_set_dropD in_set_takeD)
  moreover have "drop q ?b = take (e - q) (drop q ?b) @ 0 # drop (Suc (e - q)) (drop q ?b)"
  proof -
    have "drop q ?b ! (e - q) = 0" using nth [OF w(2)] assms(2) w(1,2) len by (auto simp: image_iff)
    then show ?thesis using id_take_nth_drop [of "e - q" "drop q ?b"] w(1,2) len by simp
  qed
  moreover have "takeWhile (\<lambda>c. c \<noteq> 0) (xs @ 0 # ys) = xs" if "0 \<notin> set xs" for xs ys :: "uint8 list"
    using that by (induction xs) auto
  ultimately show ?thesis by metis
qed

section \<open>Property\<close>

text \<open>
  C37. Parsing ends on every command line, without end of recursion or loop, in a command or in one of four
  syntax errors. In a command, every program name, argument and file name is, read from its first
  byte up to the first zero byte in the line as \<open>nulterminate\<close> leaves it, exactly the word it was in
  the line: not empty, without white space or symbols, and cut off by no zero byte of another word;
  no program has more than the nine arguments its node has room for, and only the standard input
  and output are redirected.
\<close>

theorem parsecmd_total:
  assumes "0 \<notin> set s"
  shows "case parsecmd s of Hang \<Rightarrow> False | Undef \<Rightarrow> False | Panic m \<Rightarrow> m \<in> syntax_errors
    | Ok (cmd, buf) \<Rightarrow> args_ok cmd \<and> (\<forall>(q, e)\<in>set (words cmd). q < e \<and> e \<le> length s
        \<and> takeWhile (\<lambda>c. c \<noteq> 0) (drop q buf) = take (e - q) (drop q s) \<and> (\<forall>c\<in>set (take (e - q) (drop q s)). word_char c))"
proof -
  note p = parseline_ok [of s]
  have ok: "q < e \<and> e \<le> length s \<and> takeWhile (\<lambda>c. c \<noteq> 0) (drop q (nulterminate cmd (s @ [0]))) = take (e - q) (drop q s)
      \<and> (\<forall>c\<in>set (take (e - q) (drop q s)). word_char c)" if c: "cmd_ok s cmd" "(q, e) \<in> set (words cmd)" for cmd q e
  proof -
    have w: "word_ok s (q, e)" using c by (auto simp: cmd_ok_def)
    then have "\<forall>c\<in>set (take (e - q) (drop q s)). word_char c" by (auto simp: word_ok_def in_set_conv_nth)
    then show ?thesis using w word_string [OF c assms] by (simp add: word_ok_def)
  qed
  have "args_ok cmd" if "cmd_ok s cmd" for cmd using that by (simp add: cmd_ok_def)
  with ok have "args_ok cmd \<and> (\<forall>(q, e)\<in>set (words cmd). q < e \<and> e \<le> length s
      \<and> takeWhile (\<lambda>c. c \<noteq> 0) (drop q (nulterminate cmd (s @ [0]))) = take (e - q) (drop q s)
      \<and> (\<forall>c\<in>set (take (e - q) (drop q s)). word_char c))" if "cmd_ok s cmd" for cmd using that by blast
  note fin = this
  show ?thesis
  proof (cases "parseline (4 * length s + 4) s 0")
    case (Ok a)
    obtain cmd i where a: "a = (cmd, i)" by (cases a)
    obtain j b where j: "peek s i {} = (j, b)" by (cases "peek s i {}")
    have "parsecmd s = (if j \<noteq> length s then Panic ''syntax'' else Ok (cmd, nulterminate cmd (s @ [0])))"
      unfolding parsecmd_def Ok a using j by simp
    then show ?thesis using fin [of cmd] p Ok a by (simp add: syntax_errors_def)
  qed (use p in \<open>auto simp: parsecmd_def parsed_def\<close>)
qed

text \<open>The line \<open>a b>c|d\<close> and its newline.\<close>

lemma sample_line:
  "parsecmd [97, 32, 98, 62, 99, 124, 100, 10] =
     Ok (PipeCmd (RedirCmd (ExecCmd [(0, 1), (2, 3)]) 4 5 0x601 1) (ExecCmd [(6, 7)]), [97, 0, 98, 0, 99, 0, 100, 0, 0])"
  by code_simp

theorem parsecmd_total_witness:
  "\<exists>cmd buf. parsecmd [97, 32, 98, 62, 99, 124, 100, 10] = Ok (cmd, buf) \<and> (4, 5) \<in> set (words cmd)
     \<and> takeWhile (\<lambda>c. c \<noteq> 0) (drop 4 buf) = [99]"
  using parsecmd_total [of "[97, 32, 98, 62, 99, 124, 100, 10]"] unfolding sample_line by simp

end
