(* ===== verification/Shellrun.thy ===== *)
theory Shellrun
  imports Shell
begin

text \<open>
  The shell at work (\<open>user/sh.c\<close>): \<open>runcmd\<close>, the prompt and the main loop, as the tree of the system calls
  they make; and what the calls of \<open>runcmd\<close> come to: which programs are started, with which files.

  A node of the tree is a call, with the rest of the program as a function of what the call returns.
  Three numbers are enough for every call: the result, and for \<open>pipe\<close> the two descriptors it stores,
  for \<open>read\<close> of one byte the byte. A message, which \<open>fprintf\<close> writes byte by byte, is one write.
\<close>

section \<open>The program\<close>

datatype scall = SClose int | SOpen "uint8 list" int | SDup int | SExec "uint8 list" "uint8 list list" | SFork | SWait
  | SPipe | SWrite int "uint8 list" | SRead int | SChdir "uint8 list"

datatype prog = Call scall "int \<times> int \<times> int \<Rightarrow> prog" | Exit int

definition lit :: "string \<Rightarrow> uint8 list" where
  "lit cs = map of_char cs"

text \<open>The string at index \<open>q\<close> of the line.\<close>

definition str_at :: "uint8 list \<Rightarrow> nat \<Rightarrow> uint8 list" where
  "str_at buf q = takeWhile (\<lambda>c. c \<noteq> 0) (drop q buf)"

definition sh_panic :: "string \<Rightarrow> prog" where
  "sh_panic m = Call (SWrite 2 (lit m @ [10])) (\<lambda>_. Exit 1)"

definition fork1 :: "(int \<Rightarrow> prog) \<Rightarrow> prog" where
  "fork1 k = Call SFork (\<lambda>(pid, _). if pid = -1 then sh_panic ''fork'' else k pid)"

primrec runcmd :: "uint8 list \<Rightarrow> cmd \<Rightarrow> prog" where
  "runcmd buf (ExecCmd argv) =
     (if argv = [] then Exit 1
      else Call (SExec (str_at buf (fst (hd argv))) (map (\<lambda>(q, eq). str_at buf q) argv)) (\<lambda>_.
           Call (SWrite 2 (lit ''exec '' @ str_at buf (fst (hd argv)) @ lit '' failed'' @ [10])) (\<lambda>_.
           Exit 0)))"
| "runcmd buf (RedirCmd cmd q eq mode fd) =
     Call (SClose fd) (\<lambda>_.
     Call (SOpen (str_at buf q) mode) (\<lambda>(r, _).
     if r < 0 then Call (SWrite 2 (lit ''open '' @ str_at buf q @ lit '' failed'' @ [10])) (\<lambda>_. Exit 1)
     else runcmd buf cmd))"
| "runcmd buf (ListCmd left right) =
     fork1 (\<lambda>pid. if pid = 0 then runcmd buf left else Call SWait (\<lambda>_. runcmd buf right))"
| "runcmd buf (PipeCmd left right) =
     Call SPipe (\<lambda>(r, p0, p1).
     if r < 0 then sh_panic ''pipe''
     else fork1 (\<lambda>pid.
       if pid = 0
       then Call (SClose 1) (\<lambda>_. Call (SDup p1) (\<lambda>_. Call (SClose p0) (\<lambda>_. Call (SClose p1) (\<lambda>_. runcmd buf left))))
       else fork1 (\<lambda>pid.
         if pid = 0
         then Call (SClose 0) (\<lambda>_. Call (SDup p0) (\<lambda>_. Call (SClose p0) (\<lambda>_. Call (SClose p1) (\<lambda>_. runcmd buf right))))
         else Call (SClose p0) (\<lambda>_. Call (SClose p1) (\<lambda>_. Call SWait (\<lambda>_. Call SWait (\<lambda>_. Exit 0)))))))"
| "runcmd buf (BackCmd cmd) = fork1 (\<lambda>pid. if pid = 0 then runcmd buf cmd else Exit 0)"

text \<open>\<open>gets\<close> of the library with room for \<open>n\<close> more bytes, and \<open>getcmd\<close> with its buffer of 100 bytes.\<close>

primrec gets :: "nat \<Rightarrow> uint8 list \<Rightarrow> (uint8 list \<Rightarrow> prog) \<Rightarrow> prog" where
  "gets 0 buf k = k buf"
| "gets (Suc n) buf k =
     Call (SRead 0) (\<lambda>(cc, c, _).
     if cc < 1 then k buf
     else let buf = buf @ [of_int c] in if c = 10 \<or> c = 13 then k buf else gets n buf k)"

definition getcmd :: "(uint8 list \<Rightarrow> prog) \<Rightarrow> prog \<Rightarrow> prog" where
  "getcmd k eof = Call (SWrite 2 (lit ''$ '')) (\<lambda>_.
     gets 99 [] (\<lambda>buf. let s = takeWhile (\<lambda>c. c \<noteq> 0) buf in if s = [] then eof else k s))"

text \<open>The commands of the main loop; it ends at the end of the input, here at the latest after \<open>n\<close> of them.\<close>

primrec sh_loop :: "nat \<Rightarrow> prog" where
  "sh_loop 0 = Exit 0"
| "sh_loop (Suc n) =
     getcmd (\<lambda>buf.
       if take 3 buf = lit ''cd ''
       then let dir = drop 3 (butlast buf) in
            Call (SChdir dir) (\<lambda>(r, _).
            if r < 0 then Call (SWrite 2 (lit ''cannot cd '' @ dir @ [10])) (\<lambda>_. sh_loop n) else sh_loop n)
       else fork1 (\<lambda>pid.
            if pid = 0
            then case parsecmd buf of
                   Ok (cmd, buf) \<Rightarrow> runcmd buf cmd
                 | Panic m \<Rightarrow> sh_panic m
                 | Hang \<Rightarrow> Exit 0
            else Call SWait (\<lambda>_. sh_loop n)))
     (Exit 0)"

text \<open>Before it, descriptors are opened until the fourth one.\<close>

primrec sh_main :: "nat \<Rightarrow> nat \<Rightarrow> prog" where
  "sh_main 0 n = sh_loop n"
| "sh_main (Suc k) n = Call (SOpen (lit ''console'') 2) (\<lambda>(fd, _).
     if fd \<ge> 3 then Call (SClose fd) (\<lambda>_. sh_loop n)
     else if fd \<ge> 0 then sh_main k n else sh_loop n)"

section \<open>What the calls do\<close>

text \<open>
  An open file: one opened by name, an end of a pipe, or one that was there before. A process has a table
  of 16 descriptors, and \<open>open\<close>, \<open>dup\<close> and \<open>pipe\<close> take the lowest free ones, as \<open>fdalloc\<close> of the kernel does.
\<close>

datatype handle = Named "uint8 list" int | PipeIn nat | PipeOut nat | Given nat

type_synonym fdtable = "int \<Rightarrow> handle option"

definition free_fd :: "fdtable \<Rightarrow> int" where
  "free_fd t = (case find (\<lambda>i. t i = None) (map int [0..<16]) of Some i \<Rightarrow> i | None \<Rightarrow> -1)"

definition put_fd :: "handle \<Rightarrow> fdtable \<Rightarrow> int \<times> fdtable" where
  "put_fd h t = (let i = free_fd t in (i, if i < 0 then t else t(i := Some h)))"

text \<open>
  The programs that a process and its children start, each with its arguments and its descriptors, when
  every file can be opened, every process created and every program found; \<open>n\<close> is the number of
  pipes made so far. A process that has started a program is that program.
\<close>

primrec started :: "prog \<Rightarrow> fdtable \<Rightarrow> nat \<Rightarrow> (uint8 list list \<times> fdtable) list \<times> nat" where
  "started (Exit st) t n = ([], n)"
| "started (Call c k) t n =
     (case c of
        SClose fd \<Rightarrow> started (k (0, 0, 0)) (t(fd := None)) n
      | SOpen f mode \<Rightarrow> (case put_fd (Named f mode) t of (fd, t) \<Rightarrow> started (k (fd, 0, 0)) t n)
      | SDup fd \<Rightarrow> (case t fd of
            Some h \<Rightarrow> (case put_fd h t of (fd, t) \<Rightarrow> started (k (fd, 0, 0)) t n)
          | None \<Rightarrow> started (k (-1, 0, 0)) t n)
      | SPipe \<Rightarrow>
          (case put_fd (PipeIn n) t of (p0, t0) \<Rightarrow> case put_fd (PipeOut n) t0 of (p1, t1) \<Rightarrow>
           if p0 < 0 \<or> p1 < 0 then started (k (-1, 0, 0)) t n else started (k (0, p0, p1)) t1 (Suc n))
      | SExec f argv \<Rightarrow> ([(argv, t)], n)
      | SFork \<Rightarrow> (case started (k (0, 0, 0)) t n of (a, n) \<Rightarrow> case started (k (1, 0, 0)) t n of (b, n) \<Rightarrow> (a @ b, n))
      | _ \<Rightarrow> started (k (0, 0, 0)) t n)"

section \<open>What a command means\<close>

text \<open>
  A redirection replaces one descriptor; the two sides of a pipeline get the two ends of one new pipe as
  their output and input, and keep everything else.
\<close>

primrec meaning :: "uint8 list \<Rightarrow> cmd \<Rightarrow> fdtable \<Rightarrow> nat \<Rightarrow> (uint8 list list \<times> fdtable) list \<times> nat" where
  "meaning buf (ExecCmd argv) t n = (if argv = [] then [] else [(map (\<lambda>(q, eq). str_at buf q) argv, t)], n)"
| "meaning buf (RedirCmd cmd q eq mode fd) t n = meaning buf cmd (t(fd := Some (Named (str_at buf q) mode))) n"
| "meaning buf (ListCmd left right) t n =
     (case meaning buf left t n of (a, n) \<Rightarrow> case meaning buf right t n of (b, n) \<Rightarrow> (a @ b, n))"
| "meaning buf (PipeCmd left right) t n =
     (case meaning buf left (t(1 := Some (PipeOut n))) (Suc n) of (a, n') \<Rightarrow>
      case meaning buf right (t(0 := Some (PipeIn n))) n' of (b, n'') \<Rightarrow> (a @ b, n''))"
| "meaning buf (BackCmd cmd) t n = meaning buf cmd t n"

text \<open>Descriptors 0 and 1 are open, and two others are free for a pipe.\<close>

definition fds_ok :: "fdtable \<Rightarrow> bool" where
  "fds_ok t \<longleftrightarrow> t 0 \<noteq> None \<and> t 1 \<noteq> None \<and> 2 \<le> length (filter (\<lambda>i. t i = None) (map int [0..<16]))"

lemma find_filter: "find P xs = (case filter P xs of [] \<Rightarrow> None | x # _ \<Rightarrow> Some x)"
  by (induction xs) auto

lemma upto16: "map int [0..<16] = 0 # 1 # map int [2..<16]"
  by (simp add: upt_conv_Cons)

lemma fds_ok_upd:
  assumes "fds_ok t" "i = 0 \<or> i = 1"
  shows "fds_ok (t(i := Some h))"
proof -
  have "(\<lambda>j. (t(i := Some h)) j = None) = (\<lambda>j. t j = None)" using assms by (auto simp: fun_eq_iff fds_ok_def)
  then show ?thesis using assms by (simp add: fds_ok_def)
qed

text \<open>The lowest free descriptors: after closing 0, 0; after closing 1, 1; and two for a pipe.\<close>

lemma free_std:
  "free_fd (t(0 := None)) = 0" "t 0 \<noteq> None \<Longrightarrow> free_fd (t(1 := None)) = 1"
  unfolding free_fd_def upto16 by simp_all

lemma free_two:
  assumes "fds_ok t"
  obtains p q where "1 < p" "p < q" "free_fd t = p" "\<And>h. free_fd (t(p := Some h)) = q" "t p = None" "t q = None"
proof -
  obtain p q r where f: "filter (\<lambda>i. t i = None) (map int [0..<16]) = p # q # r"
    using assms by (cases "filter (\<lambda>i. t i = None) (map int [0..<16])" rule: remdups_adj.cases) (auto simp: fds_ok_def)
  have s: "sorted_wrt (<) (p # q # r)" unfolding f [symmetric] by (intro sorted_wrt_filter) (simp add: sorted_wrt_map)
  have "i \<in> set (p # q # r) \<Longrightarrow> t i = None \<and> 0 \<le> i" for i unfolding f [symmetric] by auto
  then have m: "t p = None" "t q = None" "0 \<le> p" by simp_all
  have "p \<noteq> 0" "p \<noteq> 1" using m assms by (auto simp: fds_ok_def)
  then have "1 < p" using m by simp
  moreover have "free_fd t = p" by (simp add: free_fd_def find_filter f)
  moreover have "free_fd (t(p := Some h)) = q" for h
  proof -
    have "filter (\<lambda>i. (t(p := Some h)) i = None) (map int [0..<16]) = filter (\<lambda>i. i \<noteq> p) (p # q # r)"
      unfolding f [symmetric] filter_filter by (rule filter_cong) auto
    also have "\<dots> = q # r" using s by (auto simp: filter_id_conv)
    finally show ?thesis by (simp add: free_fd_def find_filter)
  qed
  ultimately show ?thesis using that m s by auto
qed

text \<open>The steps of \<open>started\<close> that \<open>runcmd\<close> uses.\<close>

lemma started_fork1: "started (fork1 k) t n =
    (case started (k 0) t n of (a, n) \<Rightarrow> case started (k 1) t n of (b, n) \<Rightarrow> (a @ b, n))"
  by (simp add: fork1_def)

lemma started_dup:
  assumes "t fd = Some h" "free_fd t = i" "0 \<le> i"
  shows "started (Call (SDup fd) k) t n = started (k (i, 0, 0)) (t(i := Some h)) n"
  using assms by (simp add: put_fd_def Let_def)

lemma started_open:
  assumes "free_fd t = i" "0 \<le> i"
  shows "started (Call (SOpen f mode) k) t n = started (k (i, 0, 0)) (t(i := Some (Named f mode))) n"
  using assms by (simp add: put_fd_def Let_def)

lemma started_pipe:
  assumes "free_fd t = p" "\<And>h. free_fd (t(p := Some h)) = q" "0 \<le> p" "0 \<le> q"
  shows "started (Call SPipe k) t n = started (k (0, p, q)) (t(p := Some (PipeIn n), q := Some (PipeOut n))) (Suc n)"
  using assms by (simp add: put_fd_def Let_def)

lemma started_simps:
  "started (Call (SClose fd) k) t n = started (k (0, 0, 0)) (t(fd := None)) n"
  "started (Call SWait k) t n = started (k (0, 0, 0)) t n"
  by simp_all

text \<open>A side of a pipeline: an end of the pipe in place of a standard descriptor, the pipe's own ones closed.\<close>

lemma pipe_side:
  assumes "fds_ok t" "i = 0 \<or> i = 1" "1 < p" "p < q" "t p = None" "t q = None" "e = p \<or> e = q" "u = t(p := Some a, q := Some b)"
  shows "started (Call (SClose i) (\<lambda>_. Call (SDup e) (\<lambda>_. Call (SClose p) (\<lambda>_. Call (SClose q) (\<lambda>_. k))))) u n
    = started k (t(i := Some (if e = p then a else b))) n"
proof -
  let ?h = "if e = p then a else b"
  have "(u(i := None)) e = Some ?h" using assms by auto
  moreover have "free_fd (u(i := None)) = i" using assms free_std [of u] by (auto simp: fds_ok_def)
  moreover have "0 \<le> i" using assms(2) by auto
  moreover have "(u(i := None))(i := Some ?h, p := None, q := None) = t(i := Some ?h)" using assms by (auto simp: fun_eq_iff)
  ultimately show ?thesis by (simp only: started_simps started_dup)
qed

lemma started_runcmd: "args_ok cmd \<Longrightarrow> fds_ok t \<Longrightarrow> started (runcmd buf cmd) t n = meaning buf cmd t n"
proof (induction cmd arbitrary: t n)
  case (RedirCmd cmd q eq mode fd)
  have f: "free_fd (t(fd := None)) = fd" "0 \<le> fd" using RedirCmd.prems free_std [of t] by (auto simp: fds_ok_def)
  have ok: "fds_ok (t(fd := Some (Named (str_at buf q) mode)))" using RedirCmd.prems by (intro fds_ok_upd) auto
  have "started (runcmd buf cmd) (t(fd := Some (Named (str_at buf q) mode))) n = meaning buf cmd (t(fd := Some (Named (str_at buf q) mode))) n"
    using RedirCmd.prems by (intro RedirCmd.IH ok) simp
  then show ?case using f by (simp add: started_open started_simps del: started.simps)
next
  case (PipeCmd l r)
  obtain p q where pq: "1 < p" "p < q" "free_fd t = p" "\<And>h. free_fd (t(p := Some h)) = q" "t p = None" "t q = None"
    using free_two [OF PipeCmd.prems(2)] by metis
  let ?u = "t(p := Some (PipeIn n), q := Some (PipeOut n))"
  note side = pipe_side [OF PipeCmd.prems(2) _ pq(1,2,5,6) _ refl, where a = "PipeIn n" and b = "PipeOut n"]
  have l: "started (runcmd buf l) (t(1 := Some (PipeOut n))) (Suc n) = meaning buf l (t(1 := Some (PipeOut n))) (Suc n)"
    using PipeCmd.prems by (intro PipeCmd.IH(1) fds_ok_upd) auto
  have r: "started (runcmd buf r) (t(0 := Some (PipeIn n))) m = meaning buf r (t(0 := Some (PipeIn n))) m" for m
    using PipeCmd.prems by (intro PipeCmd.IH(2) fds_ok_upd) auto
  have k: "started (Call (SClose p) (\<lambda>_. Call (SClose q) (\<lambda>_. Call SWait (\<lambda>_. Call SWait (\<lambda>_. Exit 0))))) v m = ([], m)" for v m
    by simp
  have "0 \<le> p" "0 \<le> q" "q \<noteq> p" using pq(1,2) by simp_all
  then show ?case using side [where i = 1 and e = q and k = "runcmd buf l"] side [where i = 0 and e = p and k = "runcmd buf r"] pq(3,4)
    by (simp add: started_pipe started_fork1 l r k split_beta del: started.simps)
qed (auto simp: started_fork1 split_beta)

section \<open>Property\<close>

text \<open>
  C38. The system calls of \<open>runcmd\<close> do what the command line means: in a process with standard input and
  output open and two descriptors to spare, they start exactly the programs of the command, each
  with its arguments, with the files it was redirected to, with one new pipe between the two sides
  of each pipeline, and with no descriptor left over.
\<close>

theorem runcmd_meaning:
  assumes "parsecmd s = Ok (cmd, buf)" "fds_ok t"
  shows "started (runcmd buf cmd) t n = meaning buf cmd t n"
  using started_runcmd assms parsecmd_ok by (simp add: cmd_ok_def)

theorem runcmd_meaning_witness:
  "\<exists>cmd buf. parsecmd [97, 32, 98, 62, 99, 124, 100, 10] = Ok (cmd, buf) \<and>
    started (runcmd buf cmd) [0 \<mapsto> Given 0, 1 \<mapsto> Given 1, 2 \<mapsto> Given 2] 0 =
      ([([[97], [98]], [0 \<mapsto> Given 0, 1 \<mapsto> Named [99] 0x601, 2 \<mapsto> Given 2]),
        ([[100]], [0 \<mapsto> PipeIn 0, 1 \<mapsto> Given 1, 2 \<mapsto> Given 2])], 1)"
proof -
  let ?t = "[0 \<mapsto> Given 0, 1 \<mapsto> Given 1, 2 \<mapsto> Given 2] :: fdtable"
  have "filter (\<lambda>i. ?t i = None) (map int [0..<16]) = map int [3..<16]" by (simp add: upt_rec)
  then have "fds_ok ?t" by (simp add: fds_ok_def)
  from runcmd_meaning [OF sample_line this, of 0] show ?thesis
    unfolding sample_line by (simp add: str_at_def fun_upd_twist)
qed

end
