(* ===== verification/Umalloc.thy ===== *)
theory Umalloc
  imports Prelude Linked
begin

text \<open>
  The memory allocator of the user library (\<open>user/umalloc.c\<close>): a circular list of free blocks in the
  order of their addresses, each with a header of 16 bytes that holds the address of the next block
  and the size of the block in units of 16 bytes.

  The headers are two maps from addresses; \<open>base_hdr\<close> is the address of the static header \<open>base\<close>, below
  the heap. \<open>sbrk a k\<close> is the end of the heap after the system call \<open>sbrk(k)\<close> when it was \<open>a\<close> before, and
  \<open>None\<close> when the call fails. The loops run round the list and have a bound \<open>n\<close>.
\<close>

section \<open>Operations\<close>

record uheap =
  hptr :: "uint64 \<Rightarrow> uint64"
  hsize :: "uint64 \<Rightarrow> uint32"
  freep :: uint64
  brk :: uint64

definition units :: "uint32 \<Rightarrow> uint64" where
  "units k = 16 * ucast k"

primrec free_find :: "nat \<Rightarrow> uint64 \<Rightarrow> uint64 \<Rightarrow> uheap \<Rightarrow> uint64 res" where
  "free_find 0 bp p s = Hang"
| "free_find (Suc n) bp p s =
     (if p < bp \<and> bp < hptr s p then Ok p
      else if hptr s p \<le> p \<and> (p < bp \<or> bp < hptr s p) then Ok p
      else free_find n bp (hptr s p) s)"

definition free_at :: "uint64 \<Rightarrow> uint64 \<Rightarrow> uheap \<Rightarrow> uheap" where
  "free_at bp p s =
     (let nx = hptr s p;
          s = (if bp + units (hsize s bp) = nx
               then s\<lparr>hsize := (hsize s)(bp := hsize s bp + hsize s nx), hptr := (hptr s)(bp := hptr s nx)\<rparr>
               else s\<lparr>hptr := (hptr s)(bp := nx)\<rparr>);
          s = (if p + units (hsize s p) = bp
               then s\<lparr>hsize := (hsize s)(p := hsize s p + hsize s bp), hptr := (hptr s)(p := hptr s bp)\<rparr>
               else s\<lparr>hptr := (hptr s)(p := bp)\<rparr>)
      in s\<lparr>freep := p\<rparr>)"

definition ufree :: "nat \<Rightarrow> uint64 \<Rightarrow> uheap \<Rightarrow> uheap res" where
  "ufree n ap s = (let bp = ap - 16 in bnd (free_find n bp (freep s) s) (\<lambda>p. Ok (free_at bp p s)))"

text \<open>The argument of \<open>sbrk\<close> is an \<open>int\<close>: the number of bytes loses its upper bits.\<close>

definition morecore :: "nat \<Rightarrow> (uint64 \<Rightarrow> int \<Rightarrow> uint64 option) \<Rightarrow> uint32 \<Rightarrow> uheap \<Rightarrow> (uint64 option \<times> uheap) res" where
  "morecore n sbrk nu s =
     (let nu = (if nu < 4096 then 4096 else nu); k = sint (ucast (units nu) :: uint32); hp = brk s in
      case sbrk hp k of None \<Rightarrow> Ok (None, s)
      | Some e \<Rightarrow>
        let s = s\<lparr>brk := e\<rparr>;
            s = s\<lparr>hsize := (hsize s)(hp := nu)\<rparr>
        in bnd (ufree n (hp + 16) s) (\<lambda>s. Ok (Some (freep s), s)))"

definition carve :: "uint64 \<Rightarrow> uint64 \<Rightarrow> uint32 \<Rightarrow> uheap \<Rightarrow> uint64 \<times> uheap" where
  "carve prevp p nunits s =
     (if hsize s p = nunits then (p, s\<lparr>hptr := (hptr s)(prevp := hptr s p), freep := prevp\<rparr>)
      else let s = s\<lparr>hsize := (hsize s)(p := hsize s p - nunits)\<rparr>;
               p = p + units (hsize s p)
           in (p, s\<lparr>hsize := (hsize s)(p := nunits), freep := prevp\<rparr>))"

primrec malloc_loop :: "nat \<Rightarrow> nat \<Rightarrow> (uint64 \<Rightarrow> int \<Rightarrow> uint64 option) \<Rightarrow> uint32 \<Rightarrow> uint64 \<Rightarrow> uint64 \<Rightarrow> uheap \<Rightarrow> (uint64 option \<times> uheap) res" where
  "malloc_loop 0 n sbrk nunits prevp p s = Hang"
| "malloc_loop (Suc k) n sbrk nunits prevp p s =
     (if nunits \<le> hsize s p then case carve prevp p nunits s of (p, s) \<Rightarrow> Ok (Some (p + 16), s)
      else if p = freep s
      then bnd (morecore n sbrk nunits s) (\<lambda>(q, s).
           case q of None \<Rightarrow> Ok (None, s) | Some p \<Rightarrow> malloc_loop k n sbrk nunits p (hptr s p) s)
      else malloc_loop k n sbrk nunits p (hptr s p) s)"

definition nunits_for :: "uint32 \<Rightarrow> uint32" where
  "nunits_for nbytes = ucast ((ucast nbytes + 16 - 1) div 16 + 1 :: uint64)"

definition malloc :: "nat \<Rightarrow> uint64 \<Rightarrow> (uint64 \<Rightarrow> int \<Rightarrow> uint64 option) \<Rightarrow> uint32 \<Rightarrow> uheap \<Rightarrow> (uint64 option \<times> uheap) res" where
  "malloc n base_hdr sbrk nbytes s =
     (let s = (if freep s = 0
               then s\<lparr>hptr := (hptr s)(base_hdr := base_hdr), freep := base_hdr, hsize := (hsize s)(base_hdr := 0)\<rparr>
               else s)
      in malloc_loop n n sbrk (nunits_for nbytes) (freep s) (hptr s (freep s)) s)"

section \<open>The invariant\<close>

text \<open>The address after a block.\<close>

definition end_of :: "uheap \<Rightarrow> uint64 \<Rightarrow> nat" where
  "end_of s b = unat b + 16 * unat (hsize s b)"

definition in_heap :: "uint64 \<Rightarrow> uheap \<Rightarrow> uint64 \<Rightarrow> bool" where
  "in_heap base_hdr s b \<longleftrightarrow> unat base_hdr < unat b \<and> 0 < hsize s b \<and> end_of s b \<le> unat (brk s)"

text \<open>The free blocks are linked in the order of their addresses, with a gap between any two of them: they do not
  overlap, and adjacent blocks have been merged. The heap ends below \<open>2\<^sup>3\<^sup>6\<close>.\<close>

definition heap_ok :: "uint64 \<Rightarrow> uheap \<Rightarrow> uint64 list \<Rightarrow> bool" where
  "heap_ok base_hdr s bs \<longleftrightarrow> chain (hptr s) base_hdr bs base_hdr \<and> sorted_wrt (\<lambda>a b. end_of s a < unat b) bs
     \<and> (\<forall>b\<in>set bs. in_heap base_hdr s b) \<and> hsize s base_hdr = 0 \<and> freep s \<in> set (base_hdr # bs)
     \<and> base_hdr \<noteq> 0 \<and> unat base_hdr < unat (brk s) \<and> unat (brk s) < 2 ^ 36"

lemma in_heapD:
  assumes "in_heap base_hdr s b"
  shows "unat base_hdr < unat b" "unat b < end_of s b" "end_of s b \<le> unat (brk s)"
  using assms by (auto simp: in_heap_def end_of_def word_gt_0 unat_gt_0)

definition free_mem :: "uheap \<Rightarrow> uint64 list \<Rightarrow> nat set" where
  "free_mem s bs = (\<Union>b\<in>set bs. {unat b..<end_of s b})"

lemma free_mem_simps [simp]:
  "free_mem s [] = {}" "free_mem s (b # bs) = {unat b..<end_of s b} \<union> free_mem s bs" "free_mem s (as @ bs) = free_mem s as \<union> free_mem s bs"
  by (auto simp: free_mem_def)

lemma free_mem_cong: "(\<And>b. b \<in> set bs \<Longrightarrow> end_of s b = end_of t b) \<Longrightarrow> free_mem s bs = free_mem t bs"
  by (auto simp: free_mem_def)

lemma sorted_distinct:
  assumes "sorted_wrt (\<lambda>a b. end_of s a \<le> unat b) bs" "\<And>b. b \<in> set bs \<Longrightarrow> in_heap base_hdr s b"
  shows "sorted_wrt (\<lambda>a b. unat a < unat b) (base_hdr # bs)" "distinct (base_hdr # bs)"
proof -
  have "unat a < end_of s a" if "a \<in> set bs" for a by (rule in_heapD(2) [OF assms(2) [OF that]])
  then have "sorted_wrt (\<lambda>a b. unat a < unat b) bs"
    using sorted_wrt_mono_rel [of bs "\<lambda>a b. end_of s a \<le> unat b" "\<lambda>a b. unat a < unat b"] assms(1) by force
  then show s: "sorted_wrt (\<lambda>a b. unat a < unat b) (base_hdr # bs)" using assms(2) by (simp add: in_heap_def)
  show "distinct (base_hdr # bs)" using s by (induction bs) (auto simp: sorted_wrt_append)
qed

lemma heap_okD:
  assumes "heap_ok base_hdr s bs"
  shows "chain (hptr s) base_hdr bs base_hdr" "sorted_wrt (\<lambda>a b. end_of s a \<le> unat b) bs" "\<And>b. b \<in> set bs \<Longrightarrow> in_heap base_hdr s b"
    "hsize s base_hdr = 0" "freep s \<in> set (base_hdr # bs)" "base_hdr \<noteq> 0" "unat base_hdr < unat (brk s)" "unat (brk s) < 2 ^ 36"
    "sorted_wrt (\<lambda>a b. unat a < unat b) (base_hdr # bs)" "distinct (base_hdr # bs)" "sorted_wrt (\<lambda>a b. end_of s a < unat b) bs"
proof -
  show 1: "chain (hptr s) base_hdr bs base_hdr" "sorted_wrt (\<lambda>a b. end_of s a \<le> unat b) bs" "\<And>b. b \<in> set bs \<Longrightarrow> in_heap base_hdr s b"
    "hsize s base_hdr = 0" "freep s \<in> set (base_hdr # bs)" "base_hdr \<noteq> 0" "unat base_hdr < unat (brk s)" "unat (brk s) < 2 ^ 36"
    using assms by (auto simp: heap_ok_def intro: sorted_wrt_mono_rel [of _ "\<lambda>a b. end_of s a < unat b"])
  show "sorted_wrt (\<lambda>a b. end_of s a < unat b) bs" using assms by (simp add: heap_ok_def)
  show "sorted_wrt (\<lambda>a b. unat a < unat b) (base_hdr # bs)" "distinct (base_hdr # bs)" by (rule sorted_distinct [OF 1(2,3)], assumption)+
qed

lemma unat_units: "unat (units k) = 16 * unat k"
proof -
  have "unat k < 2 ^ 32" using unsigned_less [of k, where 'a = nat] by simp
  then show ?thesis by (simp add: units_def unat_word_ariths unsigned_ucast_eq take_bit_nat_eq_self)
qed

lemma end_units:
  assumes "end_of s b < 2 ^ 36"
  shows "unat (b + units (hsize s b)) = end_of s b"
  using assms by (simp add: end_of_def unat_word_ariths unat_units)

text \<open>A block that overlaps no free one lies between two neighbours of the list.\<close>

lemma place_of:
  assumes "heap_ok base_hdr s bs" "in_heap base_hdr s bp" "{unat bp..<end_of s bp} \<inter> free_mem s bs = {}"
  obtains as cs where "bs = as @ cs" "\<And>a. a \<in> set as \<Longrightarrow> end_of s a \<le> unat bp" "\<And>c. c \<in> set cs \<Longrightarrow> end_of s bp \<le> unat c"
proof -
  let ?P = "\<lambda>b. unat b < unat bp"
  let ?as = "takeWhile ?P bs" and ?cs = "dropWhile ?P bs"
  have ne: "unat b < end_of s b" if "b \<in> set bs" for b
    by (rule in_heapD(2) [OF heap_okD(3) [OF assms(1) that]])
  have nbp: "unat bp < end_of s bp" by (rule in_heapD(2) [OF assms(2)])
  have sep: "end_of s b \<le> unat bp \<or> end_of s bp \<le> unat b" if "b \<in> set bs" for b
  proof (rule ccontr)
    assume "\<not> ?thesis"
    then have "max (unat b) (unat bp) \<in> {unat bp..<end_of s bp} \<inter> {unat b..<end_of s b}" using ne [OF that] nbp by auto
    then show False using assms(3) that unfolding free_mem_def by blast
  qed
  have as: "end_of s a \<le> unat bp" if "a \<in> set ?as" for a
    using sep [of a] set_takeWhileD [OF that] nbp by auto
  have cs: "end_of s bp \<le> unat c" if "c \<in> set ?cs" for c
  proof -
    have "sorted_wrt (\<lambda>a b. unat a < unat b) bs" using heap_okD(9) [OF assms(1)] by simp
    then have srt: "sorted_wrt (\<lambda>a b. unat a < unat b) ?cs" by (metis sorted_wrt_append takeWhile_dropWhile_id)
    have "?cs \<noteq> []" using that by (metis emptyE empty_set)
    then obtain d ds where d: "?cs = d # ds" by (metis neq_Nil_conv)
    have "\<not> ?P d" using hd_dropWhile [of ?P bs] unfolding d by simp
    then have "unat bp \<le> unat c" using srt that d by fastforce
    moreover have "c \<in> set bs" using that by (meson set_dropWhileD)
    ultimately show ?thesis using sep [of c] ne [of c] by auto
  qed
  show ?thesis by (rule that [of ?as ?cs]) (use as cs in auto)
qed

section \<open>Freeing\<close>

lemma find_low:
  assumes "chain (hptr s) x zs y" "sorted_wrt (\<lambda>a b. unat a < unat b) (x # zs)" "\<And>z. z \<in> set (x # zs) \<Longrightarrow> unat z < unat bp"
    "unat bp < unat y \<or> unat y \<le> unat (last (x # zs))" "length zs < n"
  shows "free_find n bp x s = Ok (last (x # zs))"
  using assms
proof (induction zs arbitrary: x n)
  case Nil
  then show ?case by (cases n) (auto simp: word_less_nat_alt word_le_nat_alt)
next
  case (Cons z zs)
  obtain m where n: "n = Suc m" using Cons.prems(5) by (cases n) auto
  have "free_find m bp z s = Ok (last (z # zs))" using Cons.prems n by (intro Cons.IH) auto
  moreover have "hptr s x = z" "unat x < unat z" "unat z < unat bp" using Cons.prems(1-3) by auto
  ultimately show ?case using n by (auto simp: word_less_nat_alt word_le_nat_alt)
qed

lemma find_high:
  assumes "chain (hptr s) x zs y" "sorted_wrt (\<lambda>a b. unat a < unat b) (x # zs)" "\<And>z. z \<in> set (x # zs) \<Longrightarrow> unat bp < unat z"
    "unat y < unat bp"
  shows "free_find (Suc (length zs + n)) bp x s = free_find n bp y s"
  using assms
proof (induction zs arbitrary: x)
  case Nil
  then show ?case by (auto simp: word_less_nat_alt word_le_nat_alt)
next
  case (Cons z zs)
  have "free_find (Suc (length zs + n)) bp z s = free_find n bp y s" using Cons.prems by (intro Cons.IH) auto
  moreover have "hptr s x = z" "unat x < unat z" "unat bp < unat x" using Cons.prems(1-3) by auto
  ultimately show ?case by (auto simp: word_less_nat_alt word_le_nat_alt)
qed

lemma free_find_place:
  assumes "heap_ok base_hdr s (as @ cs)" "unat base_hdr < unat bp" "\<And>a. a \<in> set as \<Longrightarrow> unat a < unat bp" "\<And>c. c \<in> set cs \<Longrightarrow> unat bp < unat c"
    "length (as @ cs) + 2 \<le> n"
  shows "free_find n bp (freep s) s = Ok (last (base_hdr # as))"
proof -
  let ?y = "hd (cs @ [base_hdr])"
  have srt: "sorted_wrt (\<lambda>a b. unat a < unat b) (base_hdr # as @ cs)" by (rule heap_okD(9) [OF assms(1)])
  have ch: "chain (hptr s) base_hdr (as @ cs) base_hdr" by (rule heap_okD(1) [OF assms(1)])
  then have as: "chain (hptr s) base_hdr as ?y" by (cases cs) (auto simp: chain_append)
  have y: "unat bp < unat ?y \<or> unat ?y \<le> unat (last (base_hdr # as))"
  proof (cases cs)
    case Nil
    have "last (base_hdr # as) \<in> set (base_hdr # as)" by (rule last_in_set) simp
    then show ?thesis using srt Nil by (auto simp: sorted_wrt_append intro: less_imp_le)
  qed (use assms(4) in auto)
  have low: "free_find k bp x s = Ok (last (base_hdr # as))"
    if "base_hdr # as = us @ x # vs" "length as < k" for x us vs k
  proof -
    have "chain (hptr s) x vs ?y" using as that(1) by (cases us) (auto simp: chain_append)
    moreover have "sorted_wrt (\<lambda>a b. unat a < unat b) (us @ x # vs)" using srt unfolding that(1) [symmetric] by (simp add: sorted_wrt_append)
    then have "sorted_wrt (\<lambda>a b. unat a < unat b) (x # vs)" by (simp add: sorted_wrt_append)
    moreover have "unat z < unat bp" if "z \<in> set (x # vs)" for z
      using that \<open>base_hdr # as = us @ x # vs\<close> assms(2,3) by (metis UnCI set_ConsD set_append)
    moreover have "last (x # vs) = last (base_hdr # as)" unfolding that(1) by simp
    moreover have "length vs < k" using arg_cong [OF that(1), of length] that(2) by simp
    ultimately show ?thesis using find_low [of s x vs ?y bp k] y by metis
  qed
  have "freep s \<in> set (base_hdr # as) \<or> freep s \<in> set cs" using heap_okD(5) [OF assms(1)] by auto
  then show ?thesis
  proof
    assume "freep s \<in> set (base_hdr # as)"
    then obtain us vs where "base_hdr # as = us @ freep s # vs" by (metis split_list)
    then show ?thesis using low assms(5) by auto
  next
    assume "freep s \<in> set cs"
    then obtain us vs where cs: "cs = us @ freep s # vs" by (metis split_list)
    have "chain (hptr s) (freep s) vs base_hdr" using ch unfolding cs append_assoc [symmetric] chain_append by blast
    moreover have "sorted_wrt (\<lambda>a b. unat a < unat b) (freep s # vs)" using srt cs by (simp add: sorted_wrt_append)
    ultimately have "free_find (Suc (length vs + m)) bp (freep s) s = free_find m bp base_hdr s" for m
      using assms(2,4) cs by (intro find_high) auto
    moreover obtain m where "n = Suc (length vs + m)" "length as < m"
    proof
      show "n = Suc (length vs + (n - length vs - 1))" "length as < n - length vs - 1" using assms(5) cs by auto
    qed
    ultimately show ?thesis using low [of "[]" base_hdr as m] by simp
  qed
qed

text \<open>The block with its right neighbour, when that is adjacent: its size, its link and the blocks above it.\<close>

definition right_merge :: "uint64 \<Rightarrow> uint64 list \<Rightarrow> uheap \<Rightarrow> bool" where
  "right_merge bp cs s \<longleftrightarrow> cs \<noteq> [] \<and> end_of s bp = unat (hd cs)"

definition merged :: "uint64 \<Rightarrow> uint64 list \<Rightarrow> uint64 \<Rightarrow> uheap \<Rightarrow> uheap" where
  "merged bp cs y s = (if right_merge bp cs s
     then s\<lparr>hsize := (hsize s)(bp := hsize s bp + hsize s y), hptr := (hptr s)(bp := hptr s y)\<rparr>
     else s\<lparr>hptr := (hptr s)(bp := y)\<rparr>)"

lemma unat_add_size:
  assumes "end_of s b < 2 ^ 36" "end_of s a = unat b"
  shows "unat a + 16 * unat (hsize s a + hsize s b) = end_of s b"
proof -
  have e: "unat a + 16 * (unat (hsize s a) + unat (hsize s b)) = end_of s b" using assms(2) by (simp add: end_of_def)
  then have "unat (hsize s a) + unat (hsize s b) < 2 ^ 32" using assms(1) by simp
  then have "unat (hsize s a + hsize s b) = unat (hsize s a) + unat (hsize s b)" by (simp add: unat_word_ariths)
  then show ?thesis using e by simp
qed

definition between :: "uheap \<Rightarrow> uint64 \<Rightarrow> uint64 list \<Rightarrow> uint64 list \<Rightarrow> bool" where
  "between s b as cs \<longleftrightarrow> (\<forall>a\<in>set as. end_of s a \<le> unat b) \<and> (\<forall>c\<in>set cs. end_of s b \<le> unat c)"

lemma betweenD:
  assumes "between s b as cs"
  shows "\<And>a. a \<in> set as \<Longrightarrow> end_of s a \<le> unat b" "\<And>c. c \<in> set cs \<Longrightarrow> end_of s b \<le> unat c"
  using assms by (auto simp: between_def)

lemma adjacent_iff:
  assumes "heap_ok base_hdr s bs" "in_heap base_hdr s a"
  shows "a + units (hsize s a) = b \<longleftrightarrow> end_of s a = unat b"
proof -
  have "end_of s a < 2 ^ 36" using assms heap_okD(8) [OF assms(1)] by (simp add: in_heap_def)
  from end_units [OF this] show ?thesis by (auto simp: word_unat_eq_iff)
qed

text \<open>The first half of freeing: the block takes in its right neighbour, which leaves the list.\<close>

lemma merge_right:
  assumes h: "heap_ok base_hdr s (as @ cs)" and b: "in_heap base_hdr s bp"
    and btw: "between s bp as cs"
  defines "p \<equiv> last (base_hdr # as)" and "y \<equiv> hd (cs @ [base_hdr])" and "cs' \<equiv> if right_merge bp cs s then tl cs else cs"
    and "t \<equiv> merged bp cs (hd (cs @ [base_hdr])) s"
  shows "bp + units (hsize s bp) = hptr s p \<longleftrightarrow> right_merge bp cs s" "hptr s p = y"
    "chain ((hptr s)(p := hptr t bp)) base_hdr (as @ cs') base_hdr" "in_heap base_hdr t bp" "end_of s bp \<le> end_of t bp"
    "\<And>c. c \<in> set cs' \<Longrightarrow> end_of t bp < unat c" "set cs' \<subseteq> set cs" "sorted_wrt (\<lambda>a b. end_of s a < unat b) (as @ cs')"
    "{unat bp..<end_of s bp} \<union> free_mem s cs = {unat bp..<end_of t bp} \<union> free_mem s cs'"
    "hsize t = (hsize s)(bp := hsize t bp)" "hptr t = (hptr s)(bp := hptr t bp)" "freep t = freep s" "brk t = brk s"
proof -
  note sep = betweenD [OF btw]
  note hd' = heap_okD [OF h]
  have l: "p \<in> set (base_hdr # as)" unfolding p_def by (rule last_in_set) simp
  have ends: "unat bp < end_of s bp" "unat base_hdr < unat bp" "end_of s bp \<le> unat (brk s)"
    using in_heapD [OF b] by simp_all
  show y: "hptr s p = y"
  proof -
    have "chain (hptr s) base_hdr as y" unfolding y_def using hd'(1) by (cases cs) (auto simp: chain_append)
    then show ?thesis unfolding p_def by (rule chain_last)
  qed
  have "unat base_hdr \<noteq> end_of s bp" using ends by simp
  then show rm: "bp + units (hsize s bp) = hptr s p \<longleftrightarrow> right_merge bp cs s"
    unfolding adjacent_iff [OF h b] y unfolding y_def by (cases cs) (auto simp: right_merge_def)
  show t: "hsize t = (hsize s)(bp := hsize t bp)" "hptr t = (hptr s)(bp := hptr t bp)" "freep t = freep s" "brk t = brk s"
    by (simp_all add: t_def merged_def)
  show "set cs' \<subseteq> set cs" by (cases cs) (auto simp: cs'_def)
  show "sorted_wrt (\<lambda>a b. end_of s a < unat b) (as @ cs')" using hd'(11) by (cases cs) (auto simp: cs'_def sorted_wrt_append)
  have "chain ((hptr s)(p := hptr t bp)) base_hdr (as @ cs') base_hdr \<and> in_heap base_hdr t bp \<and> end_of s bp \<le> end_of t bp
    \<and> (\<forall>c\<in>set cs'. end_of t bp < unat c) \<and> {unat bp..<end_of s bp} \<union> free_mem s cs = {unat bp..<end_of t bp} \<union> free_mem s cs'"
  proof (cases "right_merge bp cs s")
    case False
    then have e: "t = s\<lparr>hptr := (hptr s)(bp := y)\<rparr>" "cs' = cs" by (simp_all add: t_def merged_def y_def cs'_def)
    then have "(hptr s)(p := hptr t bp) = hptr s" using y by (auto simp: fun_eq_iff)
    moreover have "end_of s bp < unat c" if "c \<in> set cs" for c
    proof (cases cs)
      case (Cons d ds)
      have "end_of s bp < unat d" using False sep(2) [of d] Cons by (auto simp: right_merge_def)
      then show ?thesis using hd'(9) that Cons by (auto simp: sorted_wrt_append)
    qed (use that in simp)
    ultimately show ?thesis using hd'(1) b e by (simp add: in_heap_def end_of_def)
  next
    case True
    then obtain ds where cs: "cs = y # ds" "end_of s bp = unat y" unfolding y_def by (cases cs) (auto simp: right_merge_def)
    have e: "t = s\<lparr>hsize := (hsize s)(bp := hsize s bp + hsize s y), hptr := (hptr s)(bp := hptr s y)\<rparr>" "cs' = ds"
      using True cs(1) by (simp_all add: t_def merged_def cs'_def)
    have yh: "in_heap base_hdr s y" using hd'(3) cs(1) by simp
    then have "end_of s y < 2 ^ 36" using hd'(8) by (simp add: in_heap_def)
    then have en: "end_of t bp = end_of s y" using unat_add_size [OF _ cs(2)] e(1) by (simp add: end_of_def)
    have ny: "unat y < end_of s y" by (rule in_heapD(2) [OF yh])
    have "chain ((hptr s)(p := hptr s y)) base_hdr (as @ ds) base_hdr"
      unfolding p_def using hd'(1,10) cs(1) by (intro chain_remove) auto
    moreover have "in_heap base_hdr t bp"
    proof -
      have "hsize t bp \<noteq> 0" using en ny cs(2) ends(1) by (auto simp: end_of_def)
      then show ?thesis using en yh ends by (simp add: in_heap_def e word_gt_0)
    qed
    moreover have "\<forall>c\<in>set ds. end_of s y < unat c" using hd'(11) cs(1) by (simp add: sorted_wrt_append)
    moreover have "{unat bp..<end_of s bp} \<union> free_mem s cs = {unat bp..<end_of s y} \<union> free_mem s ds"
      using cs ends(1) ny by (auto simp: free_mem_def)
    ultimately show ?thesis using e en cs(2) ny by auto
  qed
  then show "chain ((hptr s)(p := hptr t bp)) base_hdr (as @ cs') base_hdr" "in_heap base_hdr t bp" "end_of s bp \<le> end_of t bp"
    "\<And>c. c \<in> set cs' \<Longrightarrow> end_of t bp < unat c" "{unat bp..<end_of s bp} \<union> free_mem s cs = {unat bp..<end_of t bp} \<union> free_mem s cs'"
    by blast+
qed

lemma not_free:
  assumes h: "heap_ok base_hdr s (as @ cs)" and b: "in_heap base_hdr s bp"
    and btw: "between s bp as cs"
  shows "bp \<notin> set (base_hdr # as @ cs)" "last (base_hdr # as) \<noteq> bp"
proof -
  note sep = betweenD [OF btw]
  have ne: "unat x < end_of s x" if "in_heap base_hdr s x" for x
    by (rule in_heapD(2) [OF that])
  have "bp \<notin> set as" "bp \<notin> set cs" using sep ne [OF b] by fastforce+
  then show *: "bp \<notin> set (base_hdr # as @ cs)" using b by (auto simp: in_heap_def)
  have "last (base_hdr # as) \<in> set (base_hdr # as)" by (rule last_in_set) simp
  then show "last (base_hdr # as) \<noteq> bp" using * by auto
qed

lemma free_at_merged:
  assumes h: "heap_ok base_hdr s (as @ cs)" and b: "in_heap base_hdr s bp"
    and btw: "between s bp as cs"
  defines "p \<equiv> last (base_hdr # as)" and "t \<equiv> merged bp cs (hd (cs @ [base_hdr])) s"
  shows "free_at bp p s =
     (if as \<noteq> [] \<and> end_of s p = unat bp
      then t\<lparr>hsize := (hsize t)(p := hsize s p + hsize t bp), hptr := (hptr t)(p := hptr t bp), freep := p\<rparr>
      else t\<lparr>hptr := (hptr t)(p := bp), freep := p\<rparr>)"
proof -
  note sep = betweenD [OF btw]
  note m = merge_right [OF h b btw, folded p_def t_def]
  have "p \<noteq> bp" using not_free(2) [OF h b btw] unfolding p_def by blast
  then have tp: "hsize t p = hsize s p" using m(10) by (metis fun_upd_apply)
  have "p + units (hsize s p) = bp \<longleftrightarrow> as \<noteq> [] \<and> end_of s p = unat bp"
  proof (cases "as = []")
    case True
    then show ?thesis using b heap_okD(4) [OF h] by (auto simp: p_def units_def in_heap_def)
  next
    case False
    then have "p \<in> set as" by (simp add: p_def)
    then show ?thesis using adjacent_iff [OF h, of p bp] heap_okD(3) [OF h] False by auto
  qed
  moreover have "free_at bp p s = (if p + units (hsize t p) = bp
      then t\<lparr>hsize := (hsize t)(p := hsize t p + hsize t bp), hptr := (hptr t)(p := hptr t bp), freep := p\<rparr>
      else t\<lparr>hptr := (hptr t)(p := bp), freep := p\<rparr>)"
    using m(1,2) unfolding free_at_def t_def merged_def by (cases "right_merge bp cs s") (simp_all add: Let_def)
  ultimately show ?thesis using tp by simp
qed

text \<open>Between the two halves the block is in order with the list, and points into it, but is not yet linked.\<close>

definition detached :: "uint64 \<Rightarrow> uheap \<Rightarrow> uint64 \<Rightarrow> uint64 list \<Rightarrow> uint64 list \<Rightarrow> bool" where
  "detached base_hdr t bp as cs \<longleftrightarrow> chain ((hptr t)(last (base_hdr # as) := hptr t bp)) base_hdr (as @ cs) base_hdr
     \<and> sorted_wrt (\<lambda>a b. end_of t a \<le> unat b) (as @ bp # cs)
     \<and> sorted_wrt (\<lambda>a b. end_of t a < unat b) (as @ cs) \<and> (\<forall>c\<in>set cs. end_of t bp < unat c) \<and> (\<forall>x\<in>set (as @ bp # cs). in_heap base_hdr t x)
     \<and> hsize t base_hdr = 0 \<and> base_hdr \<noteq> 0 \<and> unat base_hdr < unat (brk t) \<and> unat (brk t) < 2 ^ 36"

lemma detachedD:
  assumes "detached base_hdr t bp as cs"
  shows "chain ((hptr t)(last (base_hdr # as) := hptr t bp)) base_hdr (as @ cs) base_hdr"
    "sorted_wrt (\<lambda>a b. end_of t a \<le> unat b) (as @ bp # cs)" "\<And>x. x \<in> set (as @ bp # cs) \<Longrightarrow> in_heap base_hdr t x"
    "hsize t base_hdr = 0" "base_hdr \<noteq> 0" "unat base_hdr < unat (brk t)" "unat (brk t) < 2 ^ 36" "distinct (base_hdr # as @ bp # cs)"
    "sorted_wrt (\<lambda>a b. end_of t a < unat b) (as @ cs)" "\<And>c. c \<in> set cs \<Longrightarrow> end_of t bp < unat c"
proof -
  show 1: "chain ((hptr t)(last (base_hdr # as) := hptr t bp)) base_hdr (as @ cs) base_hdr"
    "sorted_wrt (\<lambda>a b. end_of t a \<le> unat b) (as @ bp # cs)" "\<And>x. x \<in> set (as @ bp # cs) \<Longrightarrow> in_heap base_hdr t x"
    "hsize t base_hdr = 0" "base_hdr \<noteq> 0" "unat base_hdr < unat (brk t)" "unat (brk t) < 2 ^ 36"
    using assms unfolding detached_def by blast+
  show "sorted_wrt (\<lambda>a b. end_of t a < unat b) (as @ cs)" "\<And>c. c \<in> set cs \<Longrightarrow> end_of t bp < unat c"
    using assms unfolding detached_def by blast+
  show "distinct (base_hdr # as @ bp # cs)" by (rule sorted_distinct(2) [OF 1(2,3)])
qed

lemma merge_detached:
  assumes h: "heap_ok base_hdr s (as @ cs)" and b: "in_heap base_hdr s bp"
    and btw: "between s bp as cs"
  defines "p \<equiv> last (base_hdr # as)" and "cs' \<equiv> if right_merge bp cs s then tl cs else cs"
    and "t \<equiv> merged bp cs (hd (cs @ [base_hdr])) s"
  shows "detached base_hdr t bp as cs'" "hsize t p = hsize s p" "set cs' \<subseteq> set cs"
    "free_mem t (as @ bp # cs') = {unat bp..<end_of s bp} \<union> free_mem s (as @ cs)"
proof -
  note sep = betweenD [OF btw]
  note m = merge_right [OF h b btw, folded p_def t_def cs'_def]
  note ho = heap_okD [OF h]
  have nin: "bp \<notin> set (base_hdr # as @ cs)" "p \<noteq> bp" using not_free [OF h b btw] unfolding p_def by blast+
  have same: "hsize t x = hsize s x" "end_of t x = end_of s x" if "x \<in> set (base_hdr # as @ cs')" for x
  proof -
    have "x \<noteq> bp" using that nin(1) m(7) by auto
    then show "hsize t x = hsize s x" using m(10) by (metis fun_upd_apply)
    then show "end_of t x = end_of s x" by (simp add: end_of_def)
  qed
  have "p \<in> set (base_hdr # as)" unfolding p_def by (rule last_in_set) simp
  then show "hsize t p = hsize s p" using same(1) by auto
  show "set cs' \<subseteq> set cs" by (rule m(7))
  have "free_mem t (as @ cs') = free_mem s as \<union> free_mem s cs'" using free_mem_cong [of "as @ cs'" t s] same by simp
  then show "free_mem t (as @ bp # cs') = {unat bp..<end_of s bp} \<union> free_mem s (as @ cs)" using m(9) by auto
  have strict: "sorted_wrt (\<lambda>a b. end_of t a < unat b) (as @ cs')" by (rule sorted_wrt_mono_rel [OF _ m(8)]) (simp add: same)
  then have "sorted_wrt (\<lambda>a b. end_of t a \<le> unat b) (as @ cs')" by (rule sorted_wrt_mono_rel [rotated]) simp
  then have "sorted_wrt (\<lambda>a b. end_of t a \<le> unat b) (as @ bp # cs')"
    using sep(1) same(2) m(6) by (auto simp: sorted_wrt_append intro: less_imp_le)
  moreover have "in_heap base_hdr t x" if "x \<in> set (as @ cs')" for x
    using that same [of x] m(7,13) ho(3) [of x] by (auto simp: in_heap_def)
  moreover have "chain ((hptr t)(p := hptr t bp)) base_hdr (as @ cs') base_hdr"
  proof -
    have "(hptr t)(p := hptr t bp) = ((hptr s)(p := hptr t bp))(bp := hptr t bp)" by (subst m(11)) (use nin(2) in auto)
    moreover have "bp \<notin> set (base_hdr # as @ cs')" using nin(1) m(7) by auto
    ultimately show ?thesis using m(3) by (simp add: chain_upd)
  qed
  ultimately show "detached base_hdr t bp as cs'"
    using m(4,6,13) strict ho(4,6-8) same(1) [of base_hdr] unfolding detached_def p_def by auto
qed

lemma link_in:
  assumes d: "detached base_hdr t bp as cs" defines "p \<equiv> last (base_hdr # as)"
  assumes gap: "as = [] \<or> end_of t p \<noteq> unat bp"
  defines "u \<equiv> t\<lparr>hptr := (hptr t)(p := bp), freep := p\<rparr>"
  shows "heap_ok base_hdr u (as @ bp # cs)" "free_mem u (as @ bp # cs) = free_mem t (as @ bp # cs)"
proof -
  note dd = detachedD [OF d, folded p_def]
  have l: "p \<in> set (base_hdr # as)" unfolding p_def by (rule last_in_set) simp
  have eu: "end_of u = end_of t" "in_heap base_hdr u = in_heap base_hdr t" by (auto simp: u_def end_of_def in_heap_def fun_eq_iff)
  then show "free_mem u (as @ bp # cs) = free_mem t (as @ bp # cs)" by (intro free_mem_cong) simp
  have "distinct (bp # base_hdr # as @ cs)" using dd(8) by auto
  note chain_insert_at [OF dd(1) this, folded p_def]
  moreover have "((hptr t)(p := hptr t bp))(bp := ((hptr t)(p := hptr t bp)) p, p := bp) = (hptr t)(p := bp)" using dd(8) l by auto
  ultimately have "chain (hptr u) base_hdr (as @ bp # cs) base_hdr" by (simp add: u_def)
  moreover have "end_of t a < unat bp" if a: "a \<in> set as" for a
  proof -
    obtain us where us: "as = us @ [p]" using a unfolding p_def by (cases as rule: rev_cases) auto
    then have p: "end_of t p < unat bp" using gap dd(2) by (force simp: sorted_wrt_append)
    have "unat p < end_of t p" using in_heapD(2) [OF dd(3) [of p]] us by simp
    then show ?thesis using p that dd(9) us by (auto simp: sorted_wrt_append)
  qed
  then have "sorted_wrt (\<lambda>a b. end_of t a < unat b) (as @ bp # cs)" using dd(9,10) by (auto simp: sorted_wrt_append)
  ultimately show "heap_ok base_hdr u (as @ bp # cs)" using dd(3-7) l eu unfolding heap_ok_def by (auto simp: u_def)
qed

lemma join_left:
  assumes d: "detached base_hdr t bp (us @ [p]) cs" and adj: "end_of t p = unat bp"
  defines "u \<equiv> t\<lparr>hsize := (hsize t)(p := hsize t p + hsize t bp), hptr := (hptr t)(p := hptr t bp), freep := p\<rparr>"
  shows "heap_ok base_hdr u (us @ p # cs)" "free_mem u (us @ p # cs) = free_mem t (us @ p # bp # cs)" "end_of u p = end_of t bp"
proof -
  note dd = detachedD [OF d]
  have b: "in_heap base_hdr t bp" "in_heap base_hdr t p" using dd(3) by auto
  have "end_of t bp < 2 ^ 36" using b dd(7) by (simp add: in_heap_def)
  then show ep: "end_of u p = end_of t bp" using unat_add_size [of t bp p] adj by (simp add: u_def end_of_def)
  have ne: "unat p < end_of t p" "unat bp < end_of t bp" by (rule in_heapD(2), rule b)+
  have eu: "end_of u x = end_of t x" "in_heap base_hdr u x = in_heap base_hdr t x" if "x \<in> set us \<union> set cs" for x
    using that dd(8) by (auto simp: u_def end_of_def in_heap_def)
  have "free_mem u us = free_mem t us" "free_mem u cs = free_mem t cs" by (rule free_mem_cong, simp add: eu)+
  then show "free_mem u (us @ p # cs) = free_mem t (us @ p # bp # cs)" using ep adj ne by auto
  have "sorted_wrt (\<lambda>a b. end_of u a < unat b) us" "sorted_wrt (\<lambda>a b. end_of u a < unat b) cs"
    using dd(9) by (auto simp: sorted_wrt_append eu intro!: sorted_wrt_mono_rel [of _ "\<lambda>a b. end_of t a < unat b"])
  then have "sorted_wrt (\<lambda>a b. end_of u a < unat b) (us @ p # cs)" using dd(9,10) ep by (auto simp: sorted_wrt_append eu)
  moreover have "in_heap base_hdr u p"
  proof -
    have "hsize u p \<noteq> 0" using ep ne adj by (auto simp: end_of_def)
    then show ?thesis using ep b by (simp add: in_heap_def u_def word_gt_0)
  qed
  moreover have "hsize u base_hdr = 0" using dd(4,8) by (auto simp: u_def)
  ultimately show "heap_ok base_hdr u (us @ p # cs)" using dd eu unfolding heap_ok_def by (auto simp: u_def)
qed

text \<open>
  Freeing keeps the invariant and adds the block, and nothing else, to the free memory. The block is
  then part of one block of the list, and no header outside the free memory changes.
\<close>

definition given_back :: "uint64 \<Rightarrow> uint64 \<Rightarrow> uheap \<Rightarrow> uint64 list \<Rightarrow> uheap \<Rightarrow> uint64 list \<Rightarrow> bool" where
  "given_back base_hdr bp s bs u bs' \<longleftrightarrow> heap_ok base_hdr u bs' \<and> free_mem u bs' = {unat bp..<end_of s bp} \<union> free_mem s bs
     \<and> length bs' \<le> Suc (length bs) \<and> (\<exists>b\<in>set bs'. unat b \<le> unat bp \<and> end_of s bp \<le> end_of u b) \<and> brk u = brk s
     \<and> (\<forall>x. unat x \<notin> free_mem u bs' \<longrightarrow> hsize u x = hsize s x)"

lemma mem_free: "in_heap base_hdr s b \<Longrightarrow> b \<in> set bs \<Longrightarrow> unat b \<in> free_mem s bs"
  using in_heapD(2) [of base_hdr s b] by (force simp: free_mem_def)

lemma given_backI:
  assumes "heap_ok base_hdr u bs'" "free_mem u bs' = F" "F = {unat bp..<end_of s bp} \<union> free_mem s bs" "length bs' \<le> Suc (length bs)"
    "b \<in> set bs'" "unat b \<le> unat bp" "end_of s bp \<le> end_of u b" "brk u = brk s" "\<And>x. unat x \<notin> F \<Longrightarrow> hsize u x = hsize s x"
  shows "given_back base_hdr bp s bs u bs'"
  using assms unfolding given_back_def by metis

lemma given_backD:
  assumes "given_back base_hdr bp s bs u bs'"
  shows "heap_ok base_hdr u bs'" "free_mem u bs' = {unat bp..<end_of s bp} \<union> free_mem s bs" "length bs' \<le> Suc (length bs)"
    "\<exists>b\<in>set bs'. unat b \<le> unat bp \<and> end_of s bp \<le> end_of u b" "brk u = brk s" "\<And>x. unat x \<notin> free_mem u bs' \<Longrightarrow> hsize u x = hsize s x"
  using assms unfolding given_back_def by blast+

lemma free_at_ok:
  assumes h: "heap_ok base_hdr s (as @ cs)" and b: "in_heap base_hdr s bp"
    and btw: "between s bp as cs"
  defines "p \<equiv> last (base_hdr # as)"
  shows "\<exists>bs. given_back base_hdr bp s (as @ cs) (free_at bp p s) bs"
proof -
  note sep = betweenD [OF btw]
  define t where "t = merged bp cs (hd (cs @ [base_hdr])) s"
  define cs' where "cs' = (if right_merge bp cs s then tl cs else cs)"
  note m = merge_detached [OF h b btw, folded p_def cs'_def t_def]
  note u = free_at_merged [OF h b btw, folded p_def t_def]
  note r = merge_right(5,10,13) [OF h b btw, folded t_def]
  have len: "length cs' \<le> length cs" by (simp add: cs'_def)
  have other: "hsize t x = hsize s x" if "x \<noteq> bp" for x using r(2) that by (metis fun_upd_apply)
  define F where "F = {unat bp..<end_of s bp} \<union> free_mem s (as @ cs)"
  have "unat bp < end_of s bp" by (rule in_heapD(2) [OF b])
  then have bpf: "unat bp \<in> F" by (simp add: F_def)
  show ?thesis
  proof (cases "as \<noteq> [] \<and> end_of s p = unat bp")
    case False
    then have ue: "free_at bp p s = t\<lparr>hptr := (hptr t)(p := bp), freep := p\<rparr>" using u by auto
    have gap: "as = [] \<or> end_of t p \<noteq> unat bp" using False m(2) by (auto simp: end_of_def)
    have k: "free_mem (free_at bp p s) (as @ bp # cs') = F" using link_in(2) [OF m(1), folded p_def, OF gap] m(4) unfolding ue F_def by (rule trans)
    have "given_back base_hdr bp s (as @ cs) (free_at bp p s) (as @ bp # cs')"
    proof (rule given_backI [OF _ k F_def, where b = bp])
      show "heap_ok base_hdr (free_at bp p s) (as @ bp # cs')" using link_in(1) [OF m(1), folded p_def, OF gap] by (simp only: ue)
      show "hsize (free_at bp p s) x = hsize s x" if "unat x \<notin> F" for x using that bpf other [of x] by (auto simp: ue)
    qed (use len r in \<open>auto simp: ue end_of_def\<close>)
    then show ?thesis ..
  next
    case True
    then obtain us where us: "as = us @ [p]" unfolding p_def by (cases as rule: rev_cases) auto
    have ue: "free_at bp p s = t\<lparr>hsize := (hsize t)(p := hsize t p + hsize t bp), hptr := (hptr t)(p := hptr t bp), freep := p\<rparr>"
      using u True m(2) by auto
    have adj: "end_of t p = unat bp" using True m(2) by (simp add: end_of_def)
    have "us @ p # bp # cs' = as @ bp # cs'" by (simp add: us)
    then have k: "free_mem (free_at bp p s) (us @ p # cs') = F"
      using join_left(2) [OF m(1) [unfolded us] adj] m(4) by (simp only: ue F_def)
    have "given_back base_hdr bp s (as @ cs) (free_at bp p s) (us @ p # cs')"
    proof (rule given_backI [OF _ k F_def, where b = p])
      show "heap_ok base_hdr (free_at bp p s) (us @ p # cs')" using join_left(1) [OF m(1) [unfolded us] adj] by (simp only: ue)
      have "unat p \<in> F" using mem_free [of base_hdr s p "as @ cs"] heap_okD(3) [OF h, of p] us by (simp add: F_def)
      then show "hsize (free_at bp p s) x = hsize s x" if "unat x \<notin> F" for x using that bpf other [of x] by (auto simp: ue)
      show "end_of s bp \<le> end_of (free_at bp p s) p" using join_left(3) [OF m(1) [unfolded us] adj] r(1) by (simp only: ue)
      show "unat p \<le> unat bp" using adj by (simp add: end_of_def)
    qed (use len r us in \<open>auto simp: ue\<close>)
    then show ?thesis ..
  qed
qed

lemma ufree_ok:
  assumes h: "heap_ok base_hdr s bs" and b: "in_heap base_hdr s (ap - 16)" and "{unat (ap - 16)..<end_of s (ap - 16)} \<inter> free_mem s bs = {}"
    "length bs + 2 \<le> n"
  shows "\<exists>u bs'. ufree n ap s = Ok u \<and> given_back base_hdr (ap - 16) s bs u bs'"
proof -
  obtain as cs where bs: "bs = as @ cs" and sep: "\<And>a. a \<in> set as \<Longrightarrow> end_of s a \<le> unat (ap - 16)" "\<And>c. c \<in> set cs \<Longrightarrow> end_of s (ap - 16) \<le> unat c"
    using place_of [OF assms(1-3)] by blast
  then have btw: "between s (ap - 16) as cs" by (auto simp: between_def)
  have ne: "unat x < end_of s x" if "in_heap base_hdr s x" for x
    by (rule in_heapD(2) [OF that])
  have "free_find n (ap - 16) (freep s) s = Ok (last (base_hdr # as))"
  proof (rule free_find_place)
    show "unat a < unat (ap - 16)" if "a \<in> set as" for a using sep(1) [OF that] ne [of a] heap_okD(3) [OF h] that bs by fastforce
    show "unat (ap - 16) < unat c" if "c \<in> set cs" for c using sep(2) [OF that] ne [OF b] by simp
  qed (use assms bs in \<open>auto simp: in_heap_def\<close>)
  then have "ufree n ap s = Ok (free_at (ap - 16) (last (base_hdr # as)) s)" by (simp add: ufree_def)
  then show ?thesis using free_at_ok [OF h [unfolded bs] b btw] unfolding bs by blast
qed

section \<open>Allocating\<close>

lemma free_mem_below:
  assumes "heap_ok base_hdr s bs" "i \<in> free_mem s bs"
  shows "i < unat (brk s)"
  using assms unfolding free_mem_def heap_ok_def in_heap_def by fastforce

text \<open>The system call gives a new block at the end of the heap.\<close>

lemma new_block:
  assumes h: "heap_ok base_hdr s bs" and nu: "0 < nu" "unat (brk s) + 16 * unat nu < 2 ^ 36"
  defines "t \<equiv> s\<lparr>brk := brk s + units nu, hsize := (hsize s)(brk s := nu)\<rparr>"
  shows "unat (brk t) = unat (brk s) + 16 * unat nu" "heap_ok base_hdr t bs" "free_mem t bs = free_mem s bs" "in_heap base_hdr t (brk s)"
    "end_of t (brk s) = unat (brk t)" "{unat (brk s)..<end_of t (brk s)} \<inter> free_mem t bs = {}"
proof -
  note ho = heap_okD [OF h]
  show b: "unat (brk t) = unat (brk s) + 16 * unat nu"
    using nu(2) by (simp add: t_def unat_word_ariths unat_units)
  show e: "end_of t (brk s) = unat (brk t)" unfolding b by (simp add: end_of_def t_def)
  have out: "x \<noteq> brk s" if "x \<in> set (base_hdr # bs)" for x
    using that in_heapD(2,3) [OF ho(3) [of x]] ho(7) by auto
  have same: "end_of t x = end_of s x" "in_heap base_hdr t x" if "x \<in> set bs" for x
    using out [of x] that ho(3) [OF that] b by (auto simp: end_of_def t_def in_heap_def)
  show f: "free_mem t bs = free_mem s bs" by (rule free_mem_cong) (rule same)
  have "sorted_wrt (\<lambda>a b. end_of t a < unat b) bs" by (rule sorted_wrt_mono_rel [OF _ ho(11)]) (simp add: same)
  moreover have "hsize t base_hdr = 0" using ho(4) out by (simp add: t_def)
  ultimately show "heap_ok base_hdr t bs" using ho b nu(2) same(2) unfolding heap_ok_def by (auto simp: t_def)
  show "in_heap base_hdr t (brk s)" using ho(7) nu(1) e by (simp add: in_heap_def t_def)
  show "{unat (brk s)..<end_of t (brk s)} \<inter> free_mem t bs = {}" unfolding f using free_mem_below [OF h] by fastforce
qed

text \<open>
  What \<open>sbrk\<close> promises on an argument that is not negative: when it succeeds the heap has grown by that
  much, and it stays below \<open>2\<^sup>3\<^sup>6\<close>.
\<close>

definition sbrk_grows :: "(uint64 \<Rightarrow> int \<Rightarrow> uint64 option) \<Rightarrow> bool" where
  "sbrk_grows sbrk \<longleftrightarrow> (\<forall>a k b. sbrk a k = Some b \<longrightarrow> 0 \<le> k \<longrightarrow> unat b = unat a + nat k \<and> unat b < 2 ^ 36)"

lemma bytes_of_units:
  assumes "16 * unat nu < 2 ^ 31"
  shows "sint (ucast (units nu) :: uint32) = int (16 * unat nu)"
proof -
  have small: "signed_take_bit 31 x = x" if "0 \<le> x" "x < 2 ^ 31" for x :: int
    using that by (intro signed_take_bit_int_eq_self) auto
  have "unat (ucast (units nu) :: uint32) = 16 * unat nu"
    using assms by (simp add: unat_units unsigned_ucast_eq take_bit_nat_eq_self)
  moreover have "unat nu < 2 ^ 27" using assms by simp
  then have "uint nu < 2 ^ 27" by (metis of_nat_less_iff of_nat_numeral of_nat_power uint_nat)
  ultimately have "uint (ucast (units nu) :: uint32) = int (16 * unat nu)" "uint nu < 2 ^ 27" unfolding uint_nat by simp_all
  then show "sint (ucast (units nu) :: uint32) = int (16 * unat nu)"
    using small [of "int (16 * unat nu)"] assms by (simp add: sint_uint)
qed

definition extended :: "uint64 \<Rightarrow> uheap \<Rightarrow> uint64 list \<Rightarrow> uheap \<Rightarrow> uint64 list \<Rightarrow> bool" where
  "extended base_hdr s bs u bs' \<longleftrightarrow> heap_ok base_hdr u bs' \<and> unat (brk s) \<le> unat (brk u)
     \<and> free_mem u bs' = free_mem s bs \<union> {unat (brk s)..<unat (brk u)} \<and> (\<forall>x. unat x \<notin> free_mem u bs' \<longrightarrow> hsize u x = hsize s x)"

lemma morecore_ok:
  assumes h: "heap_ok base_hdr s bs" and g: "sbrk_grows sbrk" and k: "16 * unat nunits < 2 ^ 31" "length bs + 2 \<le> n"
  shows "morecore n sbrk nunits s = Ok (None, s)
    \<or> (\<exists>u bs'. morecore n sbrk nunits s = Ok (Some (freep u), u) \<and> extended base_hdr s bs u bs' \<and> length bs' \<le> Suc (length bs)
         \<and> (\<exists>b\<in>set bs'. nunits \<le> hsize u b))"
proof -
  define nu where "nu = (if nunits < 4096 then 4096 else nunits)"
  have nu: "16 * unat nu < 2 ^ 31" "0 < nu" "nunits \<le> nu" using k(1) by (auto simp: nu_def word_less_nat_alt word_le_nat_alt)
  show ?thesis
  proof (cases "sbrk (brk s) (int (16 * unat nu))")
    case None
    then show ?thesis using bytes_of_units(1) [OF nu(1)] by (simp add: morecore_def nu_def [symmetric] Let_def del: of_nat_mult)
  next
    case (Some e)
    define t where "t = s\<lparr>brk := brk s + units nu, hsize := (hsize s)(brk s := nu)\<rparr>"
    have "unat e = unat (brk s) + nat (int (16 * unat nu)) \<and> unat e < 2 ^ 36"
      using Some g of_nat_0_le_iff [of "16 * unat nu"] unfolding sbrk_grows_def by blast
    then have e: "unat e = unat (brk s) + 16 * unat nu" "unat (brk s) + 16 * unat nu < 2 ^ 36" unfolding nat_int by simp_all
    note t = new_block [OF h nu(2) e(2), folded t_def]
    obtain u bs' where u: "ufree n (brk s + 16) t = Ok u" and gb: "given_back base_hdr (brk s) t bs u bs'"
      using ufree_ok [of base_hdr t bs "brk s + 16" n] t k(2) by auto
    note d = given_backD [OF gb]
    have t_e: "brk s + units nu = e" using t(1) e(1) by (simp add: word_unat_eq_iff t_def)
    have "morecore n sbrk nunits s = Ok (Some (freep u), u)"
      using Some u bytes_of_units [OF nu(1)] t_e by (simp add: morecore_def nu_def [symmetric] Let_def t_def del: of_nat_mult)
    moreover have "extended base_hdr s bs u bs'" unfolding extended_def
    proof (intro conjI allI impI)
      show "heap_ok base_hdr u bs'" by (rule d(1))
      show "unat (brk s) \<le> unat (brk u)" using d(5) t(1) by simp
      show f: "free_mem u bs' = free_mem s bs \<union> {unat (brk s)..<unat (brk u)}" using d(2,5) t(3,5) by auto
      fix x :: uint64 assume x: "unat x \<notin> free_mem u bs'"
      then have "x \<noteq> brk s" using t(1) nu(2) d(5) unfolding f by (auto simp: word_gt_0 unat_gt_0)
      then show "hsize u x = hsize s x" using d(6) [OF x] by (simp add: t_def)
    qed
    moreover obtain b where b: "b \<in> set bs'" "unat b \<le> unat (brk s)" "end_of t (brk s) \<le> end_of u b" using d(4) by blast
    have "unat nu \<le> unat (hsize u b)" using b(2,3) by (simp add: end_of_def t_def)
    then have "nunits \<le> hsize u b" using nu(3) by (simp add: word_le_nat_alt)
    ultimately show ?thesis using d(3) b(1) by blast
  qed
qed

text \<open>The list read from the block before which a search starts.\<close>

lemma ring:
  assumes h: "heap_ok base_hdr s bs"
  obtains zs where "chain (hptr s) (freep s) zs (freep s)" "set (freep s # zs) = set (base_hdr # bs)" "length zs = length bs" "distinct (freep s # zs)"
proof (cases "freep s = base_hdr")
  case True
  then show ?thesis using heap_okD [OF h] that [of bs] by auto
next
  case False
  then obtain us vs where bs: "bs = us @ freep s # vs" using heap_okD(5) [OF h] by (auto dest: split_list)
  have "chain (hptr s) (freep s) (vs @ base_hdr # us) (freep s)" using heap_okD(1) [OF h] bs by (simp add: chain_append)
  then show ?thesis using heap_okD(10) [OF h] bs by (intro that [of "vs @ base_hdr # us"]) auto
qed

lemma before:
  assumes h: "heap_ok base_hdr s bs" and "p \<in> set (base_hdr # bs)" "hptr s p = q" "q \<noteq> base_hdr"
  obtains as cs where "bs = as @ q # cs" "last (base_hdr # as) = p"
proof (cases "p = base_hdr")
  case True
  then obtain cs where "bs = [] @ q # cs" using heap_okD(1) [OF h] assms(3,4) by (cases bs) auto
  then show ?thesis using that [of "[]"] True by simp
next
  case False
  then obtain us vs where bs: "bs = us @ p # vs" using assms(2) by (auto dest: split_list)
  then have "chain (hptr s) p vs base_hdr" using heap_okD(1) [OF h] by (simp add: chain_append)
  then obtain cs where "vs = q # cs" using assms(3,4) by (cases vs) auto
  then show ?thesis using that [of "us @ [p]" cs] bs by simp
qed

definition carved_from :: "uint64 \<Rightarrow> uheap \<Rightarrow> uint64 list \<Rightarrow> uint64 \<Rightarrow> uint32 \<Rightarrow> uheap \<Rightarrow> uint64 list \<Rightarrow> bool" where
  "carved_from base_hdr s bs a nunits u bs' \<longleftrightarrow> heap_ok base_hdr u bs' \<and> in_heap base_hdr u a \<and> hsize u a = nunits
     \<and> {unat a..<end_of u a} \<subseteq> free_mem s bs \<and> free_mem u bs' = free_mem s bs - {unat a..<end_of u a} \<and> brk u = brk s
     \<and> length bs' \<le> length bs \<and> (\<forall>x. unat x \<notin> free_mem s bs \<longrightarrow> hsize u x = hsize s x)"

lemma carved_fromD:
  assumes "carved_from base_hdr s bs a nunits u bs'"
  shows "heap_ok base_hdr u bs'" "in_heap base_hdr u a" "hsize u a = nunits" "{unat a..<end_of u a} \<subseteq> free_mem s bs"
    "free_mem u bs' = free_mem s bs - {unat a..<end_of u a}" "brk u = brk s" "length bs' \<le> length bs"
    "\<And>x. unat x \<notin> free_mem s bs \<Longrightarrow> hsize u x = hsize s x"
  using assms unfolding carved_from_def by blast+

lemma blocks_apart:
  assumes "sorted_wrt (\<lambda>a b. end_of s a \<le> unat b) (as @ q # cs)"
  shows "{unat q..<end_of s q} \<inter> free_mem s (as @ cs) = {}"
  using assms by (fastforce simp: free_mem_def sorted_wrt_append)

lemma cut_off: "{i..<k} \<inter> F = {} \<Longrightarrow> i \<le> j \<Longrightarrow> j \<le> k \<Longrightarrow> F \<union> {i..<k} - {j..<k} = F \<union> {i..<j}" for i j k :: nat
  using disjoint_iff [of "{i..<k}" F] by auto

lemma carve_whole:
  assumes h: "heap_ok base_hdr s (as @ q # cs)"
  defines "u \<equiv> s\<lparr>hptr := (hptr s)(last (base_hdr # as) := hptr s q), freep := last (base_hdr # as)\<rparr>"
  shows "carved_from base_hdr s (as @ q # cs) q (hsize s q) u (as @ cs)"
proof -
  note ho = heap_okD [OF h]
  have eu: "end_of u = end_of s" "in_heap base_hdr u = in_heap base_hdr s" by (auto simp: u_def end_of_def in_heap_def fun_eq_iff)
  have l: "last (base_hdr # as) \<in> set (base_hdr # as)" by (rule last_in_set) simp
  have "chain (hptr u) base_hdr (as @ cs) base_hdr" using chain_remove [OF ho(1,10)] by (simp add: u_def)
  moreover have "sorted_wrt (\<lambda>a b. end_of s a < unat b) (as @ cs)" using ho(11) by (simp add: sorted_wrt_append)
  ultimately have "heap_ok base_hdr u (as @ cs)" using ho l eu unfolding heap_ok_def by (auto simp: u_def)
  moreover have "free_mem u (as @ cs) = free_mem s (as @ cs)" by (rule free_mem_cong) (simp add: eu)
  ultimately show ?thesis unfolding carved_from_def using blocks_apart [OF ho(2)] ho(3) [of q] eu by (auto simp: u_def)
qed

lemma carve_tail:
  assumes h: "heap_ok base_hdr s (as @ q # cs)" and k: "0 < nunits" "nunits < hsize s q" and p: "p \<in> set (base_hdr # as @ q # cs)"
  defines "a \<equiv> q + units (hsize s q - nunits)"
  defines "u \<equiv> s\<lparr>hsize := (hsize s)(q := hsize s q - nunits, a := nunits), freep := p\<rparr>"
  shows "carved_from base_hdr s (as @ q # cs) a nunits u (as @ q # cs)"
proof -
  note ho = heap_okD [OF h]
  note q = in_heapD [OF ho(3) [of q], simplified]
  have sz: "unat (hsize s q - nunits) = unat (hsize s q) - unat nunits" "0 < unat nunits" "unat nunits < unat (hsize s q)"
    using k by (auto simp: unat_sub_if' word_less_nat_alt)
  have "unat a = unat q + 16 * (unat (hsize s q) - unat nunits)"
    using q(3) ho(8) sz by (simp add: a_def unat_word_ariths unat_units end_of_def)
  then have a: "unat q < unat a" "unat a + 16 * unat nunits = end_of s q" using sz by (auto simp: end_of_def)
  have apart: "{unat q..<end_of s q} \<inter> free_mem s (as @ cs) = {}" by (rule blocks_apart [OF ho(2)])
  moreover have "unat a \<in> {unat q..<end_of s q}" using a sz by simp
  ultimately have "a \<notin> set (as @ cs)" using mem_free [of base_hdr s a "as @ cs"] ho(3) [of a] by auto
  then have nin: "a \<notin> set (base_hdr # as @ q # cs)" using a(1) q(1) by auto
  have eq: "end_of u q = unat a" "end_of u a = end_of s q" using nin a sz by (auto simp: u_def end_of_def a_def [symmetric])
  have other: "end_of u x = end_of s x" if "x \<in> set (as @ cs)" for x using that nin ho(10) by (auto simp: u_def end_of_def)
  have "sorted_wrt (\<lambda>a b. end_of u a < unat b) as" "sorted_wrt (\<lambda>a b. end_of u a < unat b) cs"
    using ho(11) other by (auto simp: sorted_wrt_append intro!: sorted_wrt_mono_rel [of _ "\<lambda>a b. end_of s a < unat b"])
  moreover have "unat a < unat c" if "c \<in> set cs" for c using ho(11) that a by (auto simp: sorted_wrt_append)
  ultimately have srt: "sorted_wrt (\<lambda>a b. end_of u a < unat b) (as @ q # cs)"
    using ho(11) other eq(1) by (auto simp: sorted_wrt_append)
  have "hsize s q - nunits \<noteq> 0" using k(2) by auto
  then have inq: "in_heap base_hdr u q" using q a eq(1) nin sz by (auto simp: in_heap_def u_def word_gt_0)
  have "in_heap base_hdr u x" if "x \<in> set (as @ cs)" for x
    using ho(3,10) that nin other [OF that] by (auto simp: in_heap_def u_def)
  then have "heap_ok base_hdr u (as @ q # cs)" using ho srt inq p nin q(1) unfolding heap_ok_def by (auto simp: u_def)
  moreover have "in_heap base_hdr u a" using q a eq(2) k(1) by (simp add: in_heap_def u_def)
  moreover have "free_mem u (as @ q # cs) = free_mem s (as @ q # cs) - {unat a..<end_of u a}"
  proof -
    have "free_mem u (as @ cs) = free_mem s (as @ cs)" by (rule free_mem_cong) (rule other)
    then have "free_mem u (as @ q # cs) = free_mem s (as @ cs) \<union> {unat q..<unat a}" using eq(1) by auto
    moreover have "free_mem s (as @ q # cs) = free_mem s (as @ cs) \<union> {unat q..<end_of s q}" by auto
    ultimately show ?thesis using cut_off [OF apart, of "unat a"] a unfolding eq(2) by simp
  qed
  moreover have "hsize u x = hsize s x" if "unat x \<notin> free_mem s (as @ q # cs)" for x
  proof -
    have "unat x \<notin> {unat q..<end_of s q}" using that by simp
    then have "x \<noteq> q" "x \<noteq> a" using a q(2) sz by auto
    then show ?thesis by (simp add: u_def)
  qed
  moreover have "{unat a..<end_of u a} \<subseteq> free_mem s (as @ q # cs)" using a(1) by (auto simp: eq)
  ultimately show ?thesis unfolding carved_from_def by (simp add: u_def)
qed

lemma carve_ok:
  assumes h: "heap_ok base_hdr s bs" and p: "p \<in> set (base_hdr # bs)" "hptr s p = q" and k: "0 < nunits" "nunits \<le> hsize s q"
  shows "\<exists>a u bs'. carve p q nunits s = (a, u) \<and> carved_from base_hdr s bs a nunits u bs'"
proof -
  have "q \<noteq> base_hdr" using heap_okD(4) [OF h] k by auto
  then obtain as cs where bs: "bs = as @ q # cs" "last (base_hdr # as) = p" using before [OF h p] by blast
  show ?thesis
  proof (cases "hsize s q = nunits")
    case True
    then show ?thesis using carve_whole [OF h [unfolded bs(1)]] bs unfolding carve_def by auto
  next
    case False
    then have "nunits < hsize s q" using k(2) by simp
    then show ?thesis using carve_tail [OF h [unfolded bs(1)] k(1) _ p(1) [unfolded bs(1)]] False bs(1)
      unfolding carve_def by (auto simp: Let_def)
  qed
qed

text \<open>The search walks over the blocks that are too small.\<close>

lemma malloc_walk:
  assumes "chain (hptr s) x us q" "\<And>z. z \<in> set us \<Longrightarrow> \<not> nunits \<le> hsize s z \<and> z \<noteq> freep s"
  shows "malloc_loop (length us + k) n sbrk nunits x (hptr s x) s = malloc_loop k n sbrk nunits (last (x # us)) q s"
  using assms by (induction us arbitrary: x) auto

lemma malloc_hit:
  assumes h: "heap_ok base_hdr s bs" and k: "0 < nunits" "b \<in> set bs" "nunits \<le> hsize s b" "length bs < m"
  shows "\<exists>a u bs'. malloc_loop m n sbrk nunits (freep s) (hptr s (freep s)) s = Ok (Some (a + 16), u) \<and> carved_from base_hdr s bs a nunits u bs'"
proof -
  obtain zs where zs: "chain (hptr s) (freep s) zs (freep s)" "set (freep s # zs) = set (base_hdr # bs)" "length zs = length bs" "distinct (freep s # zs)"
    using ring [OF h] .
  have "\<exists>z\<in>set (zs @ [freep s]). nunits \<le> hsize s z" using k(2,3) zs(2) by auto
  then obtain us q vs where q: "zs @ [freep s] = us @ q # vs" "nunits \<le> hsize s q" "\<forall>z\<in>set us. \<not> nunits \<le> hsize s z"
    using split_list_first_prop [of "zs @ [freep s]" "\<lambda>z. nunits \<le> hsize s z"] by blast
  have us: "chain (hptr s) (freep s) us q" "set us \<subseteq> set zs" "length us \<le> length zs"
    using q(1) zs(1) by (cases vs rule: rev_cases; auto simp: chain_append)+
  define p where "p = last (freep s # us)"
  have "p \<in> set (freep s # us)" unfolding p_def by (rule last_in_set) simp
  then have p: "p \<in> set (base_hdr # bs)" using us(2) zs(2) by auto
  have "hptr s p = q" unfolding p_def by (rule chain_last [OF us(1)])
  then obtain a u bs' where c: "carve p q nunits s = (a, u)" "carved_from base_hdr s bs a nunits u bs'"
    using carve_ok [OF h p _ k(1) q(2)] by blast
  obtain j where m: "m = length us + Suc j" using k(4) us(3) zs(3) less_imp_Suc_add [of "length us" m] by auto
  have "malloc_loop m n sbrk nunits (freep s) (hptr s (freep s)) s = malloc_loop (Suc j) n sbrk nunits p q s"
    unfolding m p_def using q(3) us(2) zs(4) by (intro malloc_walk us(1)) auto
  then show ?thesis using c q(2) by (intro exI [of _ a] exI [of _ u] exI [of _ bs']) simp
qed

lemma malloc_miss:
  assumes h: "heap_ok base_hdr s bs" and k: "0 < nunits" "\<And>b. b \<in> set bs \<Longrightarrow> \<not> nunits \<le> hsize s b"
  shows "malloc_loop (length bs + Suc m) n sbrk nunits (freep s) (hptr s (freep s)) s =
    bnd (morecore n sbrk nunits s) (\<lambda>(q, s). case q of None \<Rightarrow> Ok (None, s) | Some p \<Rightarrow> malloc_loop m n sbrk nunits p (hptr s p) s)"
proof -
  obtain zs where zs: "chain (hptr s) (freep s) zs (freep s)" "set (freep s # zs) = set (base_hdr # bs)" "length zs = length bs" "distinct (freep s # zs)"
    using ring [OF h] .
  have small: "\<not> nunits \<le> hsize s z" if "z \<in> set (freep s # zs)" for z
    using that k heap_okD(4) [OF h] unfolding zs(2) by (auto simp: word_gt_0)
  have "malloc_loop (length zs + Suc m) n sbrk nunits (freep s) (hptr s (freep s)) s = malloc_loop (Suc m) n sbrk nunits (last (freep s # zs)) (freep s) s"
    using small zs(4) by (intro malloc_walk zs(1)) auto
  then show ?thesis using small [of "freep s"] by (simp add: zs(3))
qed

lemma malloc_loop_ok:
  assumes h: "heap_ok base_hdr s bs" and g: "sbrk_grows sbrk" and k: "0 < nunits" "16 * unat nunits < 2 ^ 31" "2 * length bs + 3 \<le> n"
  shows "malloc_loop n n sbrk nunits (freep s) (hptr s (freep s)) s = Ok (None, s)
    \<or> (\<exists>a u t bs1 bs'. malloc_loop n n sbrk nunits (freep s) (hptr s (freep s)) s = Ok (Some (a + 16), u)
        \<and> extended base_hdr s bs t bs1 \<and> carved_from base_hdr t bs1 a nunits u bs' \<and> length bs' \<le> Suc (length bs))"
proof (cases "\<exists>b\<in>set bs. nunits \<le> hsize s b")
  case True
  then obtain b where b: "b \<in> set bs" "nunits \<le> hsize s b" by blast
  obtain a u bs' where u: "malloc_loop n n sbrk nunits (freep s) (hptr s (freep s)) s = Ok (Some (a + 16), u)" "carved_from base_hdr s bs a nunits u bs'"
    using malloc_hit [OF h k(1) b, of n n sbrk] k(3) by auto
  moreover have "extended base_hdr s bs s bs" using h by (simp add: extended_def)
  moreover have "length bs' \<le> Suc (length bs)" using carved_fromD(7) [OF u(2)] by simp
  ultimately show ?thesis by blast
next
  case False
  obtain m where n: "n = length bs + Suc m" "Suc (length bs) < m" using k(3) by (intro that [of "n - length bs - 1"]) auto
  have l: "malloc_loop n n sbrk nunits (freep s) (hptr s (freep s)) s =
    bnd (morecore n sbrk nunits s) (\<lambda>(q, s). case q of None \<Rightarrow> Ok (None, s) | Some p \<Rightarrow> malloc_loop m n sbrk nunits p (hptr s p) s)"
    using malloc_miss [OF h k(1), of m n sbrk] False unfolding n(1) by blast
  consider "morecore n sbrk nunits s = Ok (None, s)"
    | t bs1 b where "morecore n sbrk nunits s = Ok (Some (freep t), t)" "extended base_hdr s bs t bs1" "length bs1 \<le> Suc (length bs)"
        "b \<in> set bs1" "nunits \<le> hsize t b"
    using morecore_ok [OF h g k(2), of n] k(3) by force
  then show ?thesis
  proof cases
    case 1
    then show ?thesis using l by simp
  next
    case 2
    then have ht: "heap_ok base_hdr t bs1" by (simp add: extended_def)
    obtain a u bs' where u: "malloc_loop m n sbrk nunits (freep t) (hptr t (freep t)) t = Ok (Some (a + 16), u)" "carved_from base_hdr t bs1 a nunits u bs'"
      using malloc_hit [OF ht k(1) 2(4,5), of m n sbrk] 2(3) n(2) by auto
    moreover have "length bs' \<le> Suc (length bs)" using carved_fromD(7) [OF u(2)] 2(3) by simp
    ultimately show ?thesis using l 2(1,2) by (simp add: bnd_def) blast
  qed
qed

section \<open>The blocks in use\<close>

text \<open>
  \<open>L\<close> is the set of the blocks in use. They overlap neither each other nor the free blocks. Before the
  first call of \<open>malloc\<close> there is no list and no block.
\<close>

definition block :: "uheap \<Rightarrow> uint64 \<Rightarrow> nat set" where
  "block s a = {unat a..<end_of s a}"

definition live_ok :: "uint64 \<Rightarrow> uheap \<Rightarrow> uint64 list \<Rightarrow> uint64 set \<Rightarrow> bool" where
  "live_ok base_hdr s bs L \<longleftrightarrow>
     (if freep s = 0 then bs = [] \<and> L = {} \<and> base_hdr \<noteq> 0 \<and> unat base_hdr < unat (brk s) \<and> unat (brk s) < 2 ^ 36
      else heap_ok base_hdr s bs)
     \<and> (\<forall>a\<in>L. in_heap base_hdr s a \<and> block s a \<inter> free_mem s bs = {})
     \<and> (\<forall>a\<in>L. \<forall>b\<in>L. a \<noteq> b \<longrightarrow> block s a \<inter> block s b = {})"

lemma heap_ok_freep: "heap_ok base_hdr s bs \<Longrightarrow> freep s \<noteq> 0"
  using in_heapD(1) [of base_hdr s "freep s"] by (auto simp: heap_ok_def)

lemma live_okI:
  assumes "heap_ok base_hdr s bs" "\<And>a. a \<in> L \<Longrightarrow> in_heap base_hdr s a" "\<And>a. a \<in> L \<Longrightarrow> block s a \<inter> free_mem s bs = {}"
    "\<And>a b. a \<in> L \<Longrightarrow> b \<in> L \<Longrightarrow> a \<noteq> b \<Longrightarrow> block s a \<inter> block s b = {}"
  shows "live_ok base_hdr s bs L"
  using assms heap_ok_freep [OF assms(1)] by (simp add: live_ok_def)

text \<open>The first call sets up a list that holds \<open>base\<close> alone.\<close>

lemma malloc_starts:
  assumes "live_ok base_hdr s bs L"
  obtains t where "malloc n base_hdr sbrk nbytes s = malloc_loop n n sbrk (nunits_for nbytes) (freep t) (hptr t (freep t)) t"
    "heap_ok base_hdr t bs" "live_ok base_hdr t bs L" "\<And>a. a \<in> L \<Longrightarrow> hsize t a = hsize s a"
proof (cases "freep s = 0")
  case True
  define t where "t = s\<lparr>hptr := (hptr s)(base_hdr := base_hdr), freep := base_hdr, hsize := (hsize s)(base_hdr := 0)\<rparr>"
  have L: "bs = []" "L = {}" using assms True by (simp_all add: live_ok_def)
  have h: "heap_ok base_hdr t bs" using assms True by (simp add: heap_ok_def t_def live_ok_def)
  then have "live_ok base_hdr t bs L" using L by (intro live_okI) auto
  then show ?thesis using h L True by (intro that [of t]) (simp_all add: malloc_def t_def)
next
  case False
  then show ?thesis using assms by (intro that [of s]) (simp_all add: malloc_def live_ok_def)
qed

lemma live_carved:
  assumes l: "live_ok base_hdr s bs L" and h: "heap_ok base_hdr s bs" and e: "extended base_hdr s bs t bs1" and a: "carved_from base_hdr t bs1 a nunits u bs'"
  shows "a \<notin> L" "live_ok base_hdr u bs' (insert a L)" "\<And>b. b \<in> L \<Longrightarrow> hsize u b = hsize s b"
proof -
  note d = carved_fromD [OF a]
  have L: "in_heap base_hdr s b" "block s b \<inter> free_mem s bs = {}" if "b \<in> L" for b using l that by (auto simp: live_ok_def)
  have fm: "free_mem t bs1 = free_mem s bs \<union> {unat (brk s)..<unat (brk t)}" "unat (brk s) \<le> unat (brk t)"
    "\<And>x. unat x \<notin> free_mem t bs1 \<Longrightarrow> hsize t x = hsize s x" using e by (auto simp: extended_def)
  have out: "block s b \<inter> free_mem t bs1 = {}" if "b \<in> L" for b
    using L [OF that] in_heapD(3) [OF L(1) [OF that]] unfolding fm(1) block_def by fastforce
  have ub: "unat b \<notin> free_mem t bs1" if "b \<in> L" for b
    using out [OF that] in_heapD(2) [OF L(1) [OF that]] unfolding block_def by fastforce
  show sz: "hsize u b = hsize s b" if "b \<in> L" for b using d(8) [OF ub [OF that]] fm(3) [OF ub [OF that]] by simp
  then have eb: "block u b = block s b" "in_heap base_hdr u b" if "b \<in> L" for b
    using that L(1) [OF that] d(6) fm(2) by (auto simp: block_def end_of_def in_heap_def)
  have "unat a \<in> free_mem t bs1" using d(4) in_heapD(2) [OF d(2)] by auto
  then show "a \<notin> L" using ub by blast
  have ab: "block u a \<subseteq> free_mem t bs1" "free_mem u bs' = free_mem t bs1 - block u a" using d(4,5) by (simp_all add: block_def)
  show "live_ok base_hdr u bs' (insert a L)"
  proof (rule live_okI [OF d(1)])
    show "in_heap base_hdr u b" if "b \<in> insert a L" for b using that d(2) eb(2) by auto
    show "block u b \<inter> free_mem u bs' = {}" if "b \<in> insert a L" for b using that out [of b] eb(1) [of b] ab(2) by auto
    have "block u b \<inter> block u a = {}" if "b \<in> L" for b using out [OF that] eb(1) [OF that] ab(1) by blast
    moreover have "block u b \<inter> block u c = {}" if "b \<in> L" "c \<in> L" "b \<noteq> c" for b c using that eb(1) l by (simp add: live_ok_def)
    ultimately show "block u b \<inter> block u c = {}" if "b \<in> insert a L" "c \<in> insert a L" "b \<noteq> c" for b c
      using that by (metis Int_commute insertE)
  qed
qed

lemma nunits_for_enough:
  assumes "unat nbytes + 32 \<le> 2 ^ 31"
  shows "unat nbytes + 16 \<le> 16 * unat (nunits_for nbytes)" "0 < nunits_for nbytes" "16 * unat (nunits_for nbytes) < 2 ^ 31"
proof -
  have n: "unat (nunits_for nbytes) = (unat nbytes + 15) div 16 + 1"
  proof -
    have "unat (ucast nbytes + 16 - 1 :: uint64) = unat nbytes + 15"
      using assms by (simp add: unat_word_ariths unsigned_ucast_eq take_bit_nat_eq_self)
    then have "unat ((ucast nbytes + 16 - 1 :: uint64) div 16 + 1) = (unat nbytes + 15) div 16 + 1"
      using assms by (simp add: unat_word_ariths unat_div)
    then show ?thesis using assms unfolding nunits_for_def by (simp add: unsigned_ucast_eq take_bit_nat_eq_self)
  qed
  have "16 * ((unat nbytes + 15) div 16) \<le> unat nbytes + 15" "unat nbytes \<le> 16 * ((unat nbytes + 15) div 16)" by presburger+
  then show "unat nbytes + 16 \<le> 16 * unat (nunits_for nbytes)" "16 * unat (nunits_for nbytes) < 2 ^ 31" using assms unfolding n by simp_all
  show "0 < nunits_for nbytes" using n by (auto simp: word_gt_0)
qed

text \<open>
  C39. Allocating user memory. \<open>malloc\<close> always returns. Either \<open>sbrk\<close> failed and nothing is lost, or the
  result is the address after the header of a new block that holds the bytes asked for. The new block
  overlaps no block in use and no free block, and the sizes of the blocks in use are unchanged. This
  holds for requests below \<open>2\<^sup>3\<^sup>1 - 32\<close> bytes.
\<close>

theorem malloc_safe:
  assumes "live_ok base_hdr s bs L" "sbrk_grows sbrk" "unat nbytes + 32 \<le> 2 ^ 31" "2 * length bs + 3 \<le> n"
  shows "\<exists>r u bs'. malloc n base_hdr sbrk nbytes s = Ok (r, u) \<and> length bs' \<le> Suc (length bs) \<and> (\<forall>b\<in>L. hsize u b = hsize s b)
    \<and> (case r of None \<Rightarrow> live_ok base_hdr u bs' L
       | Some ap \<Rightarrow> ap - 16 \<notin> L \<and> live_ok base_hdr u bs' (insert (ap - 16) L) \<and> unat nbytes + 16 \<le> 16 * unat (hsize u (ap - 16)))"
proof -
  note k = nunits_for_enough [OF assms(3)]
  obtain t where t: "malloc n base_hdr sbrk nbytes s = malloc_loop n n sbrk (nunits_for nbytes) (freep t) (hptr t (freep t)) t"
    "heap_ok base_hdr t bs" "live_ok base_hdr t bs L" "\<And>a. a \<in> L \<Longrightarrow> hsize t a = hsize s a"
    using malloc_starts [OF assms(1), of n sbrk nbytes] by blast
  from malloc_loop_ok [OF t(2) assms(2) k(2,3) assms(4)] show ?thesis
  proof (elim disjE exE conjE)
    assume "malloc_loop n n sbrk (nunits_for nbytes) (freep t) (hptr t (freep t)) t = Ok (None, t)"
    then show ?thesis using t by (intro exI [of _ None] exI [of _ t] exI [of _ bs]) simp
  next
    fix a u t' bs1 bs'
    assume r: "malloc_loop n n sbrk (nunits_for nbytes) (freep t) (hptr t (freep t)) t = Ok (Some (a + 16), u)" "length bs' \<le> Suc (length bs)"
      and e: "extended base_hdr t bs t' bs1" "carved_from base_hdr t' bs1 a (nunits_for nbytes) u bs'"
    show ?thesis using live_carved [OF t(3,2) e] carved_fromD(3) [OF e(2)] r t(1,4) k(1)
      by (intro exI [of _ "Some (a + 16)"] exI [of _ u] exI [of _ bs']) simp
  qed
qed

definition sample_sbrk :: "uint64 \<Rightarrow> int \<Rightarrow> uint64 option" where
  "sample_sbrk a k = (if unat a + nat k < 2 ^ 27 then Some (of_nat (unat a + nat k)) else None)"

definition sample_heap :: "uheap" where
  "sample_heap = \<lparr>hptr = \<lambda>_. 0, hsize = \<lambda>_. 0, freep = 0, brk = 0x2000\<rparr>"

theorem malloc_safe_witness:
  "live_ok 0x1000 sample_heap [] {} \<and> sbrk_grows sample_sbrk \<and> unat (100 :: uint32) + 32 \<le> 2 ^ 31
   \<and> (\<exists>r u bs'. malloc 3 0x1000 sample_sbrk 100 sample_heap = Ok (r, u) \<and> length bs' \<le> Suc (length ([] :: uint64 list))
        \<and> (\<forall>b\<in>{}. hsize u b = hsize sample_heap b)
        \<and> (case r of None \<Rightarrow> live_ok 0x1000 u bs' {}
           | Some ap \<Rightarrow> ap - 16 \<notin> {} \<and> live_ok 0x1000 u bs' (insert (ap - 16) {}) \<and> unat (100 :: uint32) + 16 \<le> 16 * unat (hsize u (ap - 16))))"
proof -
  have l: "live_ok 0x1000 sample_heap [] {}" by (simp add: live_ok_def sample_heap_def)
  have g: "sbrk_grows sample_sbrk" unfolding sbrk_grows_def
  proof (intro allI impI)
    fix a b k assume "sample_sbrk a k = Some b"
    then have b: "unat a + nat k < 2 ^ 27" "b = of_nat (unat a + nat k)" unfolding sample_sbrk_def by (auto split: if_splits)
    have "unat (of_nat (unat a + nat k) :: uint64) = unat a + nat k" using b(1) by (simp only: unat_of_nat) simp
    then show "unat b = unat a + nat k \<and> unat b < 2 ^ 36" unfolding b(2) using b(1) by simp
  qed
  have k: "unat (100 :: uint32) + 32 \<le> 2 ^ 31" "2 * length ([] :: uint64 list) + 3 \<le> 3" by simp_all
  show ?thesis by (intro conjI l g k(1) malloc_safe [OF l g k])
qed

text \<open>The size in bytes of a request of almost 4 GiB has 33 bits. \<open>sbrk\<close> sees the lower 32, here 16 bytes, but the header says 4 GiB.\<close>

lemma malloc_huge:
  "\<exists>u. malloc 3 0x1000 sample_sbrk 0xFFFFFFFF sample_heap = Ok (Some 0x2010, u) \<and> brk u = 0x2010 \<and> hsize u 0x2000 = 0x10000001"
  by (simp add: malloc_def sample_heap_def nunits_for_def numeral_3_eq_3 morecore_def ufree_def units_def free_at_def carve_def sample_sbrk_def Let_def)

text \<open>
  C40. Freeing user memory. \<open>free\<close> always returns on a block in use, gives back exactly the memory of that
  block, and leaves the other blocks in use as they are. The block is merged with its neighbours: no two
  free blocks of the list are adjacent.
\<close>

theorem ufree_safe:
  assumes "live_ok base_hdr s bs L" "ap - 16 \<in> L" "length bs + 2 \<le> n"
  shows "\<exists>u bs'. ufree n ap s = Ok u \<and> live_ok base_hdr u bs' (L - {ap - 16}) \<and> free_mem u bs' = block s (ap - 16) \<union> free_mem s bs
    \<and> sorted_wrt (\<lambda>a b. end_of u a < unat b) bs' \<and> length bs' \<le> Suc (length bs) \<and> (\<forall>b\<in>L - {ap - 16}. hsize u b = hsize s b)"
proof -
  have h: "heap_ok base_hdr s bs" using assms(1,2) by (auto simp: live_ok_def split: if_splits)
  have L: "in_heap base_hdr s b" "block s b \<inter> free_mem s bs = {}" if "b \<in> L" for b using assms(1) that by (auto simp: live_ok_def)
  have disj: "block s b \<inter> block s c = {}" if "b \<in> L" "c \<in> L" "b \<noteq> c" for b c using assms(1) that by (simp add: live_ok_def)
  obtain u bs' where u: "ufree n ap s = Ok u" and gb: "given_back base_hdr (ap - 16) s bs u bs'"
    using ufree_ok [OF h L(1) [OF assms(2)] _ assms(3)] L(2) [OF assms(2)] unfolding block_def by blast
  note d = given_backD [OF gb, folded block_def]
  have out: "block s b \<inter> free_mem u bs' = {}" if "b \<in> L - {ap - 16}" for b
    using L(2) [of b] disj [of b "ap - 16"] that assms(2) unfolding d(2) by blast
  have sz: "hsize u b = hsize s b" if "b \<in> L - {ap - 16}" for b
    using d(6) [of b] out [OF that] in_heapD(2) [OF L(1) [of b]] that unfolding block_def by fastforce
  then have eb: "block u b = block s b" "in_heap base_hdr u b" if "b \<in> L - {ap - 16}" for b
    using that L(1) [of b] d(5) by (auto simp: block_def end_of_def in_heap_def)
  have "live_ok base_hdr u bs' (L - {ap - 16})" using d(1) eb out disj by (intro live_okI) auto
  then show ?thesis using u d(2,3) sz heap_okD(11) [OF d(1)] by blast
qed

definition sample_used :: "uheap" where
  "sample_used = \<lparr>hptr = (\<lambda>_. 0)(0x1000 := 0x2000, 0x2000 := 0x1000), hsize = (\<lambda>_. 0)(0x2000 := 4088, 0x11F80 := 8), freep = 0x1000, brk = 0x12000\<rparr>"

theorem ufree_safe_witness:
  "live_ok 0x1000 sample_used [0x2000] {0x11F80} \<and> 0x11F90 - 16 \<in> {0x11F80 :: uint64}
   \<and> (\<exists>u bs'. ufree 3 0x11F90 sample_used = Ok u \<and> live_ok 0x1000 u bs' ({0x11F80} - {0x11F90 - 16})
        \<and> free_mem u bs' = block sample_used (0x11F90 - 16) \<union> free_mem sample_used [0x2000]
        \<and> sorted_wrt (\<lambda>a b. end_of u a < unat b) bs'
        \<and> length bs' \<le> Suc (length [0x2000 :: uint64]) \<and> (\<forall>b\<in>{0x11F80} - {0x11F90 - 16}. hsize u b = hsize sample_used b))"
proof -
  have l: "live_ok 0x1000 sample_used [0x2000] {0x11F80}"
    by (simp add: live_ok_def heap_ok_def in_heap_def end_of_def free_mem_def block_def sample_used_def)
  have k: "0x11F90 - 16 \<in> {0x11F80 :: uint64}" "length [0x2000 :: uint64] + 2 \<le> 3" by simp_all
  show ?thesis by (intro conjI l k(1) ufree_safe [OF l k])
qed

end
