(* ===== verification/Spec2Isabelle.thy ===== *)
theory Spec2Isabelle
  imports Boot Trap Sleepwake Pipe Crash Dispatch Grep Shellrun Umalloc
begin

text \<open>
  A verification development for a RISC-V system with a secure boot: the bootloader under
  \<open>src/xv6-riscv/bootloader\<close>, which measures a kernel image and starts it, the xv6 kernel under
  \<open>src/xv6-riscv/kernel\<close>, and three programs of \<open>src/xv6-riscv/user\<close>: the shell, \<open>grep\<close> and the
  memory allocator of the user library.

  \<^bold>\<open>Conventions.\<close> Every C function is a function on an explicit state. The result type \<open>'a res\<close> of
  \<open>Prelude\<close> has the four ways in which code ends: \<open>Ok\<close> with a value, \<open>Panic\<close> with the message, \<open>Hang\<close>
  for a loop that does not return (a spin on a lock another hart holds, a loop that waits for something
  that does not happen), and \<open>Undef\<close> for a write past the end of an array. Machine integers are words
  of their C width; C \<open>int\<close> values that are only compared or returned are \<open>int\<close>. Physical memory is a
  function from 64-bit addresses to bytes. Pointers to kernel objects that live in static tables
  (processes, buffers, inodes, files) are indices into these tables, as options where the code uses
  null; using a null pointer is a trap in the kernel, \<open>Panic ''kerneltrap''\<close>.

  \<^bold>\<open>State.\<close> The kernel has one record, extended from layer to layer: \<open>machine\<close> (memory, harts, spin
  locks; \<open>Spinlock\<close>), \<open>kmem\<close> (free list; \<open>Kalloc\<close>), \<open>vm\<close> (kernel page table; \<open>Vm\<close>), \<open>proctab\<close> (process
  table; \<open>Proc\<close>), \<open>consdev\<close> (serial port and console; \<open>Uart\<close>), \<open>sleepers\<close> (sleep locks; \<open>Sleeplock\<close>),
  \<open>vdisk\<close> (disk and buffers; \<open>Virtio\<close>), \<open>logged\<close> (log; \<open>Log\<close>), \<open>fsys\<close> (superblock and inodes; \<open>Fs\<close>),
  \<open>files\<close> (open files; \<open>File\<close>), \<open>kernel_state\<close> (clock, control registers, interrupt controller;
  \<open>Sysfile\<close>). An operation takes the smallest layer it needs and leaves every extension alone. The
  bootloader has its own record \<open>boot\<close>. Its flag \<open>bl_intact\<close> has no counterpart in the code: it is
  cleared when a block of an image is copied over the memory of the bootloader itself, whose code from
  then on need not be the code that is modelled.

  \<^bold>\<open>Sleeping.\<close> A process that calls \<open>sched\<close> gives up the hart until it is switched back in. What
  the rest of the system does meanwhile is an argument \<open>W\<close> of every operation that may sleep: its
  field \<open>others\<close> is any function on the state, its field \<open>rounds\<close> bounds how often a waiting loop goes
  round before it counts as not returning. Theorems hold for every \<open>W\<close> unless they say otherwise.

  \<^bold>\<open>Theories and sources.\<close>
  \<^item> \<open>Prelude\<close>: results, loops, bytes and little-endian numbers, memory. \<open>Linked\<close>: chains of pointers.
    \<open>Cstring\<close>: \<open>string.c\<close>.
  \<^item> \<open>Sha256\<close>: \<open>bootloader/sha256.c\<close>, with the standard's definition as reference. \<open>Boot\<close>:
    \<open>bootloader/start.c\<close>, \<open>load.c\<close>, \<open>elf.c\<close>.
  \<^item> \<open>Spinlock\<close>: \<open>spinlock.c\<close>. \<open>Kalloc\<close>: \<open>kalloc.c\<close>. \<open>Vm\<close>: \<open>vm.c\<close>; \<open>Pagetable\<close> and \<open>Usermem\<close> hold its
    abstraction to a map from virtual addresses and to the user's view of memory.
  \<^item> \<open>Proc\<close> and \<open>Process\<close>: \<open>proc.c\<close>; \<open>Sleepwake\<close> interleaves \<open>sleep\<close> and \<open>wakeup\<close> on several harts;
    \<open>Lockset\<close> has the rules for code that holds locks, \<open>Dispatch\<close> the lemmas on the scheduler.
  \<^item> \<open>Ring\<close>: the interface of ring buffers. \<open>Uart\<close>: \<open>uart.c\<close>. \<open>Kprintf\<close>: \<open>printf.c\<close>. \<open>Console\<close>: \<open>console.c\<close>.
  \<^item> \<open>Sleeplock\<close>: \<open>sleeplock.c\<close>. \<open>Virtio\<close>: \<open>virtio_disk.c\<close>; \<open>Diskio\<close> is what it promises its clients.
    \<open>Bio\<close>: \<open>bio.c\<close>; \<open>Bufcache\<close> is its list as a list. \<open>Log\<close>: \<open>log.c\<close>; \<open>Wal\<close> has the lemmas on its header
    and on reserving space, \<open>Crash\<close> on crashes and recovery. \<open>Fs\<close>: \<open>fs.c\<close>. \<open>File\<close>: \<open>file.c\<close> and \<open>pipe.c\<close>;
    \<open>Pipe\<close> has the lemmas on pipes.
  \<^item> \<open>Exec\<close>: \<open>exec.c\<close>. \<open>Sysfile\<close>: \<open>sysfile.c\<close>, \<open>sysproc.c\<close>, \<open>syscall.c\<close>. \<open>Trap\<close>: \<open>trap.c\<close>, \<open>plic.c\<close>, \<open>main.c\<close>.
  \<^item> \<open>Grep\<close>: \<open>user/grep.c\<close>. \<open>Shell\<close> and \<open>Shellrun\<close>: \<open>user/sh.c\<close>. \<open>Umalloc\<close>: \<open>user/umalloc.c\<close>.

  \<^bold>\<open>What is shown.\<close>
  \<^item> Secure boot: \<open>sha256_update\<close> and \<open>sha256_final\<close> compute SHA-256 of the concatenated input, and \<open>start\<close>
    jumps to an image exactly when its digest is the one in the array the bootloader was built with. This
    is for images whose load area touches neither the image nor the memory of the bootloader. The code
    does not check that condition; an image that breaks it can overwrite the array or the code.
  \<^item> Memory: the page allocator never gives out a page twice; \<open>mappages\<close> is an update of a map from virtual
    addresses; \<open>copyin\<close> and \<open>copyout\<close> read and write the user's view of memory.
  \<^item> Concurrency: mutual exclusion of spin locks and the absence of lost wakeups, as invariants of step
    relations over all interleavings; one round of the scheduler runs every runnable process.
  \<^item> Devices: pipes and the transmit buffer are first-in first-out queues; the digits \<open>printint\<close> prints
    denote its argument when they fit its buffer, and which arguments fit.
  \<^item> Disk: the buffer cache is a least-recently-used list in which no block is twice; a commit is atomic
    under a crash after any write to the disk, and recovery can itself be interrupted.
  \<^item> User programs: the matcher of \<open>grep\<close> decides the language of the pattern; the parser of the shell always
    ends, and the system calls of \<open>runcmd\<close> start the programs the command asks for; blocks of \<open>malloc\<close> do
    not overlap, and \<open>free\<close> merges adjacent free blocks.

  \<^bold>\<open>Contracts.\<close> What is outside the modelled code is an argument with a named condition, and each condition is
  met by a concrete function in a witness: \<open>serves\<close> (the disk carries out the request of the newest chain
  of descriptors while the driver sleeps; \<open>Diskio\<close>), \<open>gives_back\<close> (a process that is switched to returns
  the hart with its own lock held; \<open>Dispatch\<close>), \<open>sbrk_grows\<close> (\<open>sbrk\<close> moves the end of the heap;
  \<open>Umalloc\<close>), \<open>delivers\<close> (successive reads deliver the file; \<open>Grep\<close>).

  \<^bold>\<open>Bounds.\<close> Loops that are not structural have a bound, and running out of it is \<open>Hang\<close>. The searches of
  \<open>bget\<close> have one more step than there are buffers, and \<open>Bufcache\<close> shows that they end.
  The parser of the shell has four times the length of the line and four more, which \<open>Shell\<close>
  shows to be enough. \<open>grep\<close> is shown to end with more steps than the file has bytes, since every \<open>read\<close>
  but the last returns at least one. \<open>malloc\<close> is shown to end with twice the length of the free list
  and three: one search fails, the list grows by at most one block, and the second search succeeds;
  \<open>free\<close> with the length and two. The loops over a directory have one step for each entry its size
  allows, and one more. Waiting loops have the bound \<open>rounds\<close>, as only the rest of the system can end them.

  \<^bold>\<open>Not modelled.\<close> The assembly (\<open>entry.S\<close>, \<open>kernelvec.S\<close>, \<open>trampoline.S\<close>, \<open>swtch.S\<close>), \<open>kernel/start.c\<close>
  (machine-mode registers only), the linker scripts, \<open>mkfs\<close>, the other user programs and tests, the
  rest of the user library, and \<open>xv6-riscv-raw\<close>, a second tree of the kernel. Caches, memory
  barriers and the order in which stores of one hart become visible to another are not modelled: the
  step relations are sequentially consistent.
\<close>

end
